(* ===== verification/Prelude.thy ===== *)
theory Prelude
  imports Main "HOL-Library.Word" "HOL-Library.Multiset"
begin

text \<open>
  What every component of the model shares: the machine integers of
  \<^verbatim>\<open>include/types.h\<close>, little-endian loads and stores (the code casts byte
  pointers to word pointers on a little-endian machine), the byte-swap macros, the result
  type of code that can end in \<^verbatim>\<open>FATAL\<close> or \<^verbatim>\<open>PFATAL\<close>, the loop over the words
  of a byte buffer, and the library's \<^verbatim>\<open>qsort\<close> as the interface \<open>sorter\<close>.
\<close>

unbundle bit_operations_syntax

section \<open>Machine integers\<close>

type_synonym u8 = "8 word"
type_synonym u16 = "16 word"
type_synonym u32 = "32 word"
type_synonym u64 = "64 word"

text \<open>\<open>chunk\<close> collects facts about buffers cut into fixed-size words, \<open>bits\<close> the
  pointwise reading of word operations.\<close>

named_theorems chunk
named_theorems bits

lemma unat_of_nat_u32 [simp]: "n < 2 ^ 32 \<Longrightarrow> unat (of_nat n :: u32) = n"
  by (simp add: unat_of_nat take_bit_nat_eq_self)

lemma unat_of_nat_u64 [simp]: "n < 2 ^ 64 \<Longrightarrow> unat (of_nat n :: u64) = n"
  by (simp add: unat_of_nat take_bit_nat_eq_self)

lemma unat_lt2p: "unat (x :: 'a::len word) < 2 ^ LENGTH('a)"
  by (rule unsigned_less)

lemma unat_power_u64: "n < 64 \<Longrightarrow> unat (2 ^ n :: u64) = 2 ^ n"
  using unat_of_nat_u64 [of "2 ^ n"] power_strict_increasing [of n 64 "2::nat"] by simp

lemma not_bit_if_unat_less: "unat (x :: 'a::len word) < 2 ^ j \<Longrightarrow> \<not> bit x j"
proof
  assume *: "unat x < 2 ^ j" "bit x j"
  then have "bit (unat x) j" by (simp add: bit_unsigned_iff)
  moreover have "\<not> bit (unat x) j" using *(1) by (simp add: bit_iff_odd)
  ultimately show False by blast
qed

lemma unat_ucast_up [simp]:
  "LENGTH('a) \<le> LENGTH('b) \<Longrightarrow> unat (ucast (x :: 'a::len word) :: 'b::len word) = unat x"
  by (simp add: unsigned_ucast_eq take_bit_nat_eq_self_iff unsigned_less
      order_less_le_trans [OF unsigned_less])

lemma unat_ucast_mod: "unat (ucast (x :: 'a::len word) :: 'b::len word) = unat x mod 2 ^ LENGTH('b)"
  by (simp add: unsigned_ucast_eq take_bit_eq_mod)

section \<open>Fatal errors\<close>

text \<open>The macros \<^verbatim>\<open>FATAL\<close> and \<^verbatim>\<open>PFATAL\<close> print a message and end the process:
  the sum's left side, which every caller passes on unchanged.\<close>

datatype fatal = FATAL string | PFATAL string

fun and_then :: "'e + 'a \<Rightarrow> ('a \<Rightarrow> 'e + 'b) \<Rightarrow> 'e + 'b" where
  "and_then (Inl e) f = Inl e"
| "and_then (Inr x) f = f x"

lemma and_then_Inr_iff: "and_then m f = Inr y \<longleftrightarrow> (\<exists>x. m = Inr x \<and> f x = Inr y)"
  by (cases m) auto

lemma and_then_Inl_iff: "and_then m f = Inl e \<longleftrightarrow> m = Inl e \<or> (\<exists>x. m = Inr x \<and> f x = Inl e)"
  by (cases m) auto

section \<open>Bytes and words\<close>

fun load_le :: "u8 list \<Rightarrow> 'a::len word" where
  "load_le [] = 0"
| "load_le (b # bs) = ucast b OR push_bit 8 (load_le bs)"

definition store_le :: "nat \<Rightarrow> 'a::len word \<Rightarrow> u8 list" where
  "store_le n w = map (\<lambda>k. ucast (drop_bit (8 * k) w)) [0..<n]"

lemma length_store_le [simp]: "length (store_le n w) = n"
  by (simp add: store_le_def)

lemma bit_load_le [bits]:
  "bit (load_le bs :: 'a::len word) n \<longleftrightarrow>
     n < LENGTH('a) \<and> n div 8 < length bs \<and> bit (bs ! (n div 8)) (n mod 8)"
proof (induction bs arbitrary: n)
  case Nil
  then show ?case by simp
next
  case (Cons b bs)
  show ?case
  proof (cases "n < 8")
    case True
    then show ?thesis by (auto simp: bit_or_iff bit_push_bit_iff bit_unsigned_iff)
  next
    case False
    then have "(n - 8) div 8 = n div 8 - 1" "(n - 8) mod 8 = n mod 8" "0 < n div 8"
      by (simp_all add: le_div_geq le_mod_geq div_greater_zero_iff)
    then have "(b # bs) ! (n div 8) = bs ! ((n - 8) div 8)"
      by (simp add: nth_Cons')
    moreover have "n div 8 < length (b # bs) \<longleftrightarrow> (n - 8) div 8 < length bs"
      using \<open>(n - 8) div 8 = n div 8 - 1\<close> \<open>0 < n div 8\<close> by (simp, linarith)
    ultimately have *: "(b # bs) ! (n div 8) = bs ! ((n - 8) div 8)"
      "n div 8 < length (b # bs) \<longleftrightarrow> (n - 8) div 8 < length bs" by blast+
    have "\<not> bit b n"
      using False by (auto dest: bit_imp_le_length)
    with False Cons.IH [of "n - 8"] * \<open>(n - 8) mod 8 = n mod 8\<close> show ?thesis
      by (auto simp: bit_or_iff bit_push_bit_iff bit_unsigned_iff)
  qed
qed

lemma nth_store_le [simp]: "k < n \<Longrightarrow> store_le n w ! k = ucast (drop_bit (8 * k) w)"
  by (simp add: store_le_def)

lemma bit_nth_store_le [bits]:
  "k < n \<Longrightarrow> bit (store_le n w ! k) j \<longleftrightarrow> j < 8 \<and> bit w (8 * k + j)"
  by (auto simp: bit_unsigned_iff bit_drop_bit_eq)

lemma store_load_le:
  assumes "length bs = n" and "8 * n \<le> LENGTH('a)"
  shows "store_le n (load_le bs :: 'a::len word) = bs"
proof (rule nth_equalityI)
  show "length (store_le n (load_le bs :: 'a word)) = length bs" using assms by simp
next
  fix k assume "k < length (store_le n (load_le bs :: 'a word))"
  then have k: "k < n" by simp
  show "store_le n (load_le bs :: 'a word) ! k = bs ! k"
  proof (rule bit_word_eqI)
    fix j assume "j < LENGTH(8)"
    then have j: "j < 8" by simp
    have "(8 * k + j) div 8 = k" "(8 * k + j) mod 8 = j" using j by auto
    moreover have "8 * k + j < LENGTH('a)" using k j assms(2) by linarith
    ultimately show "bit (store_le n (load_le bs :: 'a word) ! k) j = bit (bs ! k) j"
      using k j assms(1) by (simp only: bit_nth_store_le bit_load_le) simp
  qed
qed

lemma load_store_le:
  assumes "LENGTH('a) = 8 * n"
  shows "load_le (store_le n w) = (w :: 'a::len word)"
proof (rule bit_word_eqI)
  fix i assume i: "i < LENGTH('a)"
  then have "i div 8 < n" using assms by (simp add: less_mult_imp_div_less mult.commute)
  then show "bit (load_le (store_le n w) :: 'a word) i = bit w i"
    using i by (simp add: bit_load_le del: nth_store_le) (simp add: bit_nth_store_le del: nth_store_le)
qed

lemma load_le_eq_iff:
  assumes "length as = n" "length bs = n" "8 * n \<le> LENGTH('a)"
  shows "(load_le as :: 'a::len word) = load_le bs \<longleftrightarrow> as = bs"
  using assms store_load_le by metis

lemma load_le_eq_0_iff:
  assumes "8 * length bs \<le> LENGTH('a)"
  shows "(load_le bs :: 'a::len word) = 0 \<longleftrightarrow> (\<forall>b \<in> set bs. b = 0)"
proof -
  have "load_le (replicate n 0) = (0 :: 'a word)" for n
    by (induction n) auto
  then have "(load_le bs :: 'a word) = 0 \<longleftrightarrow> bs = replicate (length bs) 0"
    using load_le_eq_iff [where ?'a = 'a, of bs "length bs" "replicate (length bs) 0"] assms by simp
  then show ?thesis by (metis in_set_replicate replicate_eqI)
qed

text \<open>The number that bytes denote, least significant first.\<close>

fun le_value :: "u8 list \<Rightarrow> nat" where
  "le_value [] = 0"
| "le_value (b # bs) = unat b + 256 * le_value bs"

lemma le_value_less: "le_value bs < 256 ^ length bs"
proof (induction bs)
  case (Cons b bs)
  have "unat b < 256" using unat_lt2p [of b] by simp
  then have "unat b + 256 * le_value bs < 256 * Suc (le_value bs)" by simp
  also have "\<dots> \<le> 256 * 256 ^ length bs" using Cons.IH by (intro mult_le_mono2) simp
  finally show ?case by simp
qed simp

lemma unat_or_push:
  fixes b :: u8 and w :: "'a::len word"
  assumes "8 \<le> LENGTH('a)" and "256 * unat w < 2 ^ LENGTH('a)"
  shows "unat (ucast b OR push_bit 8 w) = unat b + 256 * unat w"
proof -
  have "unat (push_bit 8 w) = 256 * unat w"
    using assms(2)
    by (subst unsigned_push_bit_eq) (simp add: push_bit_eq_mult take_bit_nat_eq_self mult.commute)
  moreover have "unat (ucast b :: 'a word) = unat b"
    using assms(1) by (simp add: unat_ucast_up)
  moreover have "unat b AND push_bit 8 (unat w) = 0"
    by (rule bit_eqI) (auto simp: bit_and_iff bit_push_bit_iff bit_unsigned_iff dest: bit_imp_le_length)
  then have "unat b OR push_bit 8 (unat w) = unat b + push_bit 8 (unat w)"
    by (rule disjunctive_add_eq_or [symmetric])
  ultimately show ?thesis
    by (simp add: unsigned_or_eq push_bit_eq_mult mult.commute)
qed

lemma unat_load_le:
  "8 * length bs \<le> LENGTH('a) \<Longrightarrow> unat (load_le bs :: 'a::len word) = le_value bs"
proof (induction bs)
  case (Cons b bs)
  then have IH: "unat (load_le bs :: 'a word) = le_value bs" by simp
  have "256 * le_value bs < 256 ^ length (b # bs)" using le_value_less [of bs] by simp
  also have "(256 :: nat) = 2 ^ 8" by simp
  also have "(2 ^ 8) ^ length (b # bs) = (2 :: nat) ^ (8 * length (b # bs))" by (simp only: power_mult)
  also have "\<dots> \<le> 2 ^ LENGTH('a)" using Cons.prems by (intro power_increasing) simp_all
  finally show ?case using Cons.prems IH by (simp add: unat_or_push)
qed simp

text \<open>Bitwise operations act byte by byte.\<close>

lemma load_le_and:
  assumes "length as = length bs"
  shows "load_le as AND load_le bs = (load_le (map2 (AND) as bs) :: 'a::len word)"
  using assms by (intro bit_word_eqI) (auto simp: bit_and_iff bit_load_le)

lemma load_le_and_not:
  assumes "8 * length cs = LENGTH('a)" and "length vs = length cs"
  shows "load_le vs AND NOT (load_le cs) = (load_le (map2 (\<lambda>c v. v AND NOT c) cs vs) :: 'a::len word)"
proof (rule bit_word_eqI)
  fix n assume "n < LENGTH('a)"
  then have "n div 8 < length cs" using assms(1) by (simp add: less_mult_imp_div_less mult.commute)
  moreover have "n mod 8 < 8" by simp
  ultimately show "bit (load_le vs AND NOT (load_le cs) :: 'a word) n
      = bit (load_le (map2 (\<lambda>c v. v AND NOT c) cs vs) :: 'a word) n"
    using assms \<open>n < LENGTH('a)\<close> by (auto simp: bit_and_iff bit_not_iff bit_load_le)
qed

definition SWAP16 :: "u16 \<Rightarrow> u16" where
  "SWAP16 x = push_bit 8 x OR drop_bit 8 x"

definition SWAP32 :: "u32 \<Rightarrow> u32" where
  "SWAP32 x = push_bit 24 x OR drop_bit 24 x OR (push_bit 8 x AND 0x00FF0000)
                OR (drop_bit 8 x AND 0x0000FF00)"

section \<open>Loops over the words of a buffer\<close>

text \<open>\<open>map_words sz f n mem\<close> applies \<open>f\<close> to the first \<open>n\<close> consecutive blocks of \<open>sz\<close>
  bytes and leaves the rest alone: the shape of every
  \<^verbatim>\<open>i = map_size >> k; while (i--) { ...; mem++; }\<close> loop.\<close>

fun map_words :: "nat \<Rightarrow> (u8 list \<Rightarrow> u8 list) \<Rightarrow> nat \<Rightarrow> u8 list \<Rightarrow> u8 list" where
  "map_words sz f 0 mem = mem"
| "map_words sz f (Suc n) mem = f (take sz mem) @ map_words sz f n (drop sz mem)"

lemma map_words_map [chunk]:
  assumes "\<And>bs. length bs = sz \<Longrightarrow> f bs = map g bs" and "sz * n \<le> length mem"
  shows "map_words sz f n mem = map g (take (sz * n) mem) @ drop (sz * n) mem"
  using assms(2)
proof (induction n arbitrary: mem)
  case 0
  then show ?case by simp
next
  case (Suc n)
  then have "length (take sz mem) = sz" by simp
  moreover have "sz * n \<le> length (drop sz mem)" using Suc.prems by simp
  moreover have "take (sz * Suc n) mem = take sz mem @ take (sz * n) (drop sz mem)"
    by (simp add: take_add)
  ultimately show ?case using Suc.IH assms(1) by (simp add: add.commute)
qed

section \<open>Overwriting part of a buffer\<close>

text \<open>\<^verbatim>\<open>memcpy(out + i, bs, ...)\<close>\<close>

definition overwrite :: "nat \<Rightarrow> u8 list \<Rightarrow> u8 list \<Rightarrow> u8 list" where
  "overwrite i bs out = take i out @ bs @ drop (i + length bs) out"

lemma length_overwrite: "i + length bs \<le> length a \<Longrightarrow> length (overwrite i bs a) = length a"
  by (simp add: overwrite_def)

lemma overwrite_overwrite: "length bs = length cs \<Longrightarrow> i + length bs \<le> length a \<Longrightarrow> overwrite i bs (overwrite i cs a) = overwrite i bs a"
  by (simp add: overwrite_def)

lemma overwrite_same: "i + n \<le> length a \<Longrightarrow> overwrite i (take n (drop i a)) a = a"
proof -
  assume "i + n \<le> length a"
  moreover from this have "take n (drop i a) @ drop (i + n) a = drop i a"
    by (metis add.commute append_take_drop_id drop_drop)
  ultimately show ?thesis by (simp add: overwrite_def)
qed

text \<open>What every round of a loop keeps, the loop keeps.\<close>

lemma fold_keeps: "(\<And>i s. g (f i s) = g s) \<Longrightarrow> g (fold f is s) = g s"
  by (induction "is" arbitrary: s) simp_all

section \<open>qsort\<close>

text \<open>
  \<^verbatim>\<open>qsort\<close> orders an array by an \<open>int\<close>-valued comparator. The C standard promises a
  permutation that is sorted when the comparator is a consistent order, and leaves the
  order of equal elements open; this is what \<open>sorter\<close> states. \<open>qsort\<close> below is the
  stable merge order of glibc, written as insertion.
\<close>

fun insert_by :: "('a \<Rightarrow> 'a \<Rightarrow> int) \<Rightarrow> 'a \<Rightarrow> 'a list \<Rightarrow> 'a list" where
  "insert_by cmp x [] = [x]"
| "insert_by cmp x (y # ys) = (if cmp x y \<le> 0 then x # y # ys else y # insert_by cmp x ys)"

definition qsort :: "('a \<Rightarrow> 'a \<Rightarrow> int) \<Rightarrow> 'a list \<Rightarrow> 'a list" where
  "qsort cmp xs = foldr (insert_by cmp) xs []"

locale sorter =
  fixes sort_by :: "('a \<Rightarrow> 'a \<Rightarrow> int) \<Rightarrow> 'a list \<Rightarrow> 'a list"
  assumes sort_by_mset: "mset (sort_by cmp xs) = mset xs"
    and sort_by_sorted:
      "(\<And>x y. x \<in> set xs \<Longrightarrow> y \<in> set xs \<Longrightarrow> cmp x y \<le> 0 \<longleftrightarrow> key x \<le> (key y :: int)) \<Longrightarrow>
        sorted (map key (sort_by cmp xs))"
begin

lemma sort_by_set: "set (sort_by cmp xs) = set xs"
  using sort_by_mset [of cmp xs] by (rule mset_eq_setD)

lemma sort_by_length: "length (sort_by cmp xs) = length xs"
  using sort_by_mset [of cmp xs] by (rule mset_eq_length)

lemma sort_by_sorted_nat:
  assumes "\<And>x y. x \<in> set xs \<Longrightarrow> y \<in> set xs \<Longrightarrow> cmp x y \<le> 0 \<longleftrightarrow> k x \<le> (k y :: nat)"
  shows "sorted (map k (sort_by cmp xs))"
  using sort_by_sorted [of xs cmp "\<lambda>x. int (k x)"] assms
  by (simp add: sorted_map)

end

lemma mset_insert_by: "mset (insert_by cmp x ys) = add_mset x (mset ys)"
  by (induction ys) auto

lemma set_insert_by [simp]: "set (insert_by cmp x ys) = insert x (set ys)"
  using mset_insert_by [of cmp x ys] by (metis set_mset_add_mset_insert set_mset_mset)

lemma mset_qsort: "mset (qsort cmp xs) = mset xs"
  by (induction xs) (auto simp: qsort_def mset_insert_by)

lemma set_qsort [simp]: "set (qsort cmp xs) = set xs"
  using mset_qsort by (rule mset_eq_setD)

lemma sorted_insert_by:
  assumes "\<And>y. y \<in> set ys \<Longrightarrow> cmp x y \<le> 0 \<longleftrightarrow> key x \<le> (key y :: int)"
    and "sorted (map key ys)"
  shows "sorted (map key (insert_by cmp x ys))"
  using assms by (induction ys) (auto intro: order_trans)

lemma sorted_qsort:
  assumes "\<And>x y. x \<in> set xs \<Longrightarrow> y \<in> set xs \<Longrightarrow> cmp x y \<le> 0 \<longleftrightarrow> key x \<le> (key y :: int)"
  shows "sorted (map key (qsort cmp xs))"
  using assms
proof (induction xs)
  case Nil
  then show ?case by (simp add: qsort_def)
next
  case (Cons x xs)
  then have "sorted (map key (qsort cmp xs))" by simp
  moreover have "\<And>y. y \<in> set (qsort cmp xs) \<Longrightarrow> cmp x y \<le> 0 \<longleftrightarrow> key x \<le> key y"
    using Cons.prems by simp
  ultimately show ?case using sorted_insert_by [of "qsort cmp xs" cmp x key]
    by (simp add: qsort_def)
qed

interpretation qs: sorter qsort
  by unfold_locales (simp_all add: mset_qsort sorted_qsort)

end
