(* ===== verification/Alloc_Inl.thy ===== *)
theory Alloc_Inl
  imports Prelude
begin

text \<open>
  The growing buffers of \<^verbatim>\<open>include/alloc-inl.h\<close>: \<^verbatim>\<open>next_pow2\<close>, \<^verbatim>\<open>afl_realloc\<close>
  and \<^verbatim>\<open>afl_realloc_exact\<close>. A buffer is the record of the header field
  \<^verbatim>\<open>complete_size\<close> and the bytes behind it; a null pointer is \<^term>\<open>None\<close>. The system
  allocator is an argument: given the old buffer and the new size it returns the new bytes,
  or \<^term>\<open>None\<close> when the memory is exhausted.
\<close>

section \<open>next_pow2\<close>

definition next_pow2 :: "u64 \<Rightarrow> u64" where
  "next_pow2 inp =
     (let out = inp - 1;
          out = out OR drop_bit 1 out;
          out = out OR drop_bit 2 out;
          out = out OR drop_bit 4 out;
          out = out OR drop_bit 8 out;
          out = out OR drop_bit 16 out
      in out + 1)"

text \<open>Each line of the function doubles the window of bits that is folded downwards.\<close>

definition folded :: "nat \<Rightarrow> u64 \<Rightarrow> u64 \<Rightarrow> bool" where
  "folded m x y \<longleftrightarrow> (\<forall>n. bit y n \<longleftrightarrow> (\<exists>k<m. bit x (n + k)))"

lemma folded_refl: "folded 1 x x"
  by (simp add: folded_def)

lemma folded_double: "folded m x y \<Longrightarrow> folded (2 * m) x (y OR drop_bit m y)"
  unfolding folded_def
proof (intro allI)
  fix n assume *: "\<forall>n. bit y n \<longleftrightarrow> (\<exists>k<m. bit x (n + k))"
  have "(\<exists>k<2 * m. bit x (n + k)) \<longleftrightarrow>
          (\<exists>k<m. bit x (n + k)) \<or> (\<exists>k<m. bit x (n + m + k))" (is "?L \<longleftrightarrow> ?R")
  proof
    assume ?L
    then obtain k where k: "k < 2 * m" "bit x (n + k)" by blast
    show ?R
    proof (cases "k < m")
      case False
      then have "k - m < m" "bit x (n + m + (k - m))" using k by (auto simp: add.assoc)
      then show ?R by blast
    qed (use k in blast)
  next
    assume ?R
    then show ?L
    proof
      assume "\<exists>k<m. bit x (n + m + k)"
      then obtain k where "k < m" "bit x (n + (m + k))" by (auto simp: add.assoc)
      then show ?L by (intro exI [of _ "m + k"]) simp
    next
      assume "\<exists>k<m. bit x (n + k)"
      then obtain k where "k < m" "bit x (n + k)" by blast
      then show ?L by (intro exI [of _ k]) simp
    qed
  qed
  then show "bit (y OR drop_bit m y) n \<longleftrightarrow> (\<exists>k<2 * m. bit x (n + k))"
    using * by (simp add: bit_or_iff bit_drop_bit_eq add.commute)
qed

lemma next_pow2_folded: "\<exists>y. folded 32 (x - 1) y \<and> next_pow2 x = y + 1"
proof -
  define a where "a = x - 1"
  define b where "b = a OR drop_bit 1 a"
  define c where "c = b OR drop_bit 2 b"
  define d where "d = c OR drop_bit 4 c"
  define e where "e = d OR drop_bit 8 d"
  define f where "f = e OR drop_bit 16 e"
  have "folded 2 a b" using folded_double [OF folded_refl, of a] by (simp add: b_def)
  then have "folded 4 a c" using folded_double [of 2 a b] by (simp add: c_def)
  then have "folded 8 a d" using folded_double [of 4 a c] by (simp add: d_def)
  then have "folded 16 a e" using folded_double [of 8 a d] by (simp add: e_def)
  then have "folded 32 a f" using folded_double [of 16 a e] by (simp add: f_def)
  moreover have "next_pow2 x = f + 1"
    by (simp add: next_pow2_def Let_def a_def b_def c_def d_def e_def f_def)
  ultimately show ?thesis unfolding a_def by blast
qed

text \<open>The bits of a number below \<open>2 ^ L\<close> and at least \<open>2 ^ (L - 1)\<close>, folded down, are all ones.\<close>

lemma folded_mask:
  assumes "folded 32 x y" and "unat x < 2 ^ L" and "L \<le> 32" and "0 < L \<Longrightarrow> 2 ^ (L - 1) \<le> unat x"
  shows "y = mask L"
proof (rule bit_word_eqI)
  fix n assume "n < LENGTH(64)"
  have low: "\<not> bit x j" if "L \<le> j" for j
  proof -
    have "unat x < 2 ^ j" using assms(2) that by (meson less_le_trans one_le_numeral power_increasing)
    then show ?thesis by (rule not_bit_if_unat_less)
  qed
  have top: "bit x (L - 1)" if "0 < L"
  proof (rule ccontr)
    assume "\<not> bit x (L - 1)"
    with low that have "take_bit (L - 1) x = x"
      by (intro bit_word_eqI) (metis (no_types) Suc_pred bit_take_bit_iff less_antisym linorder_not_less
        diff_Suc_1 not_less_eq One_nat_def Suc_diff_1)
    then have "unat x < 2 ^ (L - 1)"
      by (metis take_bit_nat_less_exp unsigned_take_bit_eq)
    with assms(4) that show False by simp
  qed
  show "bit y n = bit (mask L :: u64) n"
  proof (cases "n < L")
    case True
    then have "bit x (n + (L - 1 - n))" "L - 1 - n < 32" using top assms(3) by auto
    then have "bit y n" using assms(1) unfolding folded_def by blast
    then show ?thesis using True \<open>n < LENGTH(64)\<close> by (simp add: bit_mask_iff)
  next
    case False
    then have "\<not> bit y n" using assms(1) low unfolding folded_def by auto
    then show ?thesis using False by (simp add: bit_mask_iff)
  qed
qed

lemma least_exponent:
  fixes n :: nat
  obtains L where "n < 2 ^ L" "0 < L \<Longrightarrow> 2 ^ (L - 1) \<le> n"
proof
  let ?L = "LEAST L. n < 2 ^ L"
  have "n < 2 ^ n" by simp
  then show "n < 2 ^ ?L" by (rule LeastI [of "\<lambda>L. n < 2 ^ L"])
  show "2 ^ (?L - 1) \<le> n" if "0 < ?L"
    using not_less_Least [of "?L - 1" "\<lambda>L. n < 2 ^ L"] that by (simp add: not_less)
qed

lemma next_pow2_spec:
  assumes "0 < unat x" and "unat x \<le> 2 ^ 32"
  obtains L where "L \<le> 32" "unat (next_pow2 x) = 2 ^ L" "unat x \<le> 2 ^ L"
    "\<And>m. unat x \<le> 2 ^ m \<Longrightarrow> L \<le> m"
proof -
  obtain y where y: "folded 32 (x - 1) y" "next_pow2 x = y + 1"
    using next_pow2_folded by blast
  have ux: "unat (x - 1) = unat x - 1" using assms(1) by (simp add: unat_minus_one unat_gt_0)
  obtain L where L: "unat (x - 1) < 2 ^ L" "0 < L \<Longrightarrow> 2 ^ (L - 1) \<le> unat (x - 1)"
    using least_exponent [of "unat (x - 1)"] by blast
  have "L \<le> 32"
  proof (rule ccontr)
    assume "\<not> L \<le> 32"
    then have "(2::nat) ^ 32 \<le> 2 ^ (L - 1)" by (intro power_increasing) auto
    with L(2) \<open>\<not> L \<le> 32\<close> ux assms show False by simp
  qed
  moreover have "y = mask L" using folded_mask [OF y(1) L(1) \<open>L \<le> 32\<close> L(2)] .
  then have "next_pow2 x = 2 ^ L" using y(2) by (simp add: mask_eq_exp_minus_1)
  then have "unat (next_pow2 x) = 2 ^ L"
    using \<open>L \<le> 32\<close> by (simp add: unat_power_u64)
  moreover have "unat x \<le> 2 ^ L" using L(1) ux by simp
  moreover have "L \<le> m" if "unat x \<le> 2 ^ m" for m
  proof (rule ccontr)
    assume "\<not> L \<le> m"
    then have "0 < L" "(2::nat) ^ m \<le> 2 ^ (L - 1)" by (auto intro: power_increasing)
    with L(2) ux that assms(1) show False by linarith
  qed
  ultimately show ?thesis using that by blast
qed

lemma next_pow2_ge: "0 < unat x \<Longrightarrow> unat x \<le> 2 ^ 32 \<Longrightarrow> unat x \<le> unat (next_pow2 x)"
  using next_pow2_spec [of x] by metis

lemma next_pow2_0 [simp]: "next_pow2 0 = 0"
  by (simp add: next_pow2_def)

text \<open>
  For a request of up to 2^32 bytes \<^verbatim>\<open>next_pow2\<close> returns the least power of two that
  is not below it.
\<close>

theorem next_pow2_least_power:
  assumes "0 < unat x" and "unat x \<le> 2 ^ 32"
  shows "\<exists>L. unat (next_pow2 x) = 2 ^ L \<and> unat x \<le> 2 ^ L \<and> (\<forall>m. unat x \<le> 2 ^ m \<longrightarrow> L \<le> m)"
  using next_pow2_spec [OF assms] by metis


section \<open>Growing buffers\<close>

record afl_alloc_buf =
  complete_size :: u64
  buf :: "u8 list"

text \<open>
  \<^verbatim>\<open>realloc\<close> of the C library: \<open>heap n\<close> says whether a request for \<open>n\<close> bytes can be
  met and what the fresh bytes hold; the old contents are kept up to the shorter length.
\<close>

type_synonym heap = "nat \<Rightarrow> (nat \<Rightarrow> u8) option"

definition realloc :: "heap \<Rightarrow> u8 list \<Rightarrow> nat \<Rightarrow> u8 list option" where
  "realloc heap old n =
     map_option (\<lambda>fresh. map (\<lambda>i. if i < length old then old ! i else fresh i) [0..<n]) (heap n)"

definition AFL_ALLOC_SIZE_OFFSET :: u64 where
  "AFL_ALLOC_SIZE_OFFSET = 8"

definition INITIAL_GROWTH_SIZE :: u64 where
  "INITIAL_GROWTH_SIZE = 64"

definition resize :: "heap \<Rightarrow> afl_alloc_buf option \<Rightarrow> u64 \<Rightarrow> afl_alloc_buf option" where
  "resize heap p next_size =
     (case realloc heap (case p of None \<Rightarrow> [] | Some b \<Rightarrow> buf b)
             (unat (next_size - AFL_ALLOC_SIZE_OFFSET)) of
        None \<Rightarrow> None
      | Some bs \<Rightarrow> Some \<lparr>complete_size = next_size, buf = bs\<rparr>)"

definition afl_realloc :: "heap \<Rightarrow> afl_alloc_buf option \<Rightarrow> u64 \<Rightarrow> afl_alloc_buf option" where
  "afl_realloc heap p size_needed =
     (let current_size = (case p of None \<Rightarrow> 0 | Some b \<Rightarrow> complete_size b);
          size_needed = size_needed + AFL_ALLOC_SIZE_OFFSET
      in if size_needed \<le> current_size then p
         else if size_needed < INITIAL_GROWTH_SIZE then resize heap p INITIAL_GROWTH_SIZE
         else let next_size = next_pow2 size_needed
              in resize heap p (if next_size = 0 then size_needed else next_size))"

definition afl_realloc_exact :: "heap \<Rightarrow> afl_alloc_buf option \<Rightarrow> u64 \<Rightarrow> afl_alloc_buf option" where
  "afl_realloc_exact heap p size_needed =
     (let current_size = (case p of None \<Rightarrow> 0 | Some b \<Rightarrow> complete_size b);
          size_needed = size_needed + AFL_ALLOC_SIZE_OFFSET
      in if current_size = size_needed then p else resize heap p size_needed)"

text \<open>A buffer is well formed when its header tells the number of its bytes.\<close>

definition wf_buf :: "afl_alloc_buf \<Rightarrow> bool" where
  "wf_buf b \<longleftrightarrow> 8 \<le> unat (complete_size b) \<and> length (buf b) = unat (complete_size b) - 8"

lemma length_realloc: "realloc heap old n = Some bs \<Longrightarrow> length bs = n"
  by (auto simp: realloc_def)

lemma take_realloc: "realloc heap old n = Some bs \<Longrightarrow> take (min n (length old)) bs = take n old"
  by (auto simp: realloc_def intro: nth_equalityI)

lemma resize_SomeD:
  assumes "resize heap p n = Some b" and "8 \<le> unat n"
  shows "wf_buf b" "complete_size b = n"
    "\<And>old. p = Some old \<Longrightarrow> take (min (unat n - 8) (length (buf old))) (buf b) = take (unat n - 8) (buf old)"
proof -
  have "unat (n - 8) = unat n - 8"
    using assms(2) by (simp add: unat_sub word_le_nat_alt)
  then show "wf_buf b" "complete_size b = n"
    "\<And>old. p = Some old \<Longrightarrow> take (min (unat n - 8) (length (buf old))) (buf b) = take (unat n - 8) (buf old)"
    using assms by (auto simp: resize_def wf_buf_def AFL_ALLOC_SIZE_OFFSET_def
        dest: length_realloc take_realloc split: option.splits)
qed

lemma resize_succeeds: "(\<And>n. heap n \<noteq> None) \<Longrightarrow> resize heap p n \<noteq> None"
  by (auto simp: resize_def realloc_def split: option.splits)

lemma unat_add_8: "unat (x :: u64) + 8 < 2 ^ 64 \<Longrightarrow> unat (x + 8) = unat x + 8"
  by (simp add: unat_plus_if')

text \<open>
  A successful \<^verbatim>\<open>afl_realloc\<close> returns a well-formed buffer with room for the request
  and with the old contents in front, for every request that leaves the header room below
  2^32 bytes.
\<close>

theorem afl_realloc_grows:
  assumes "afl_realloc heap p sz = Some b"
    and "\<And>old. p = Some old \<Longrightarrow> wf_buf old"
    and "unat sz + 8 \<le> 2 ^ 32"
  shows "wf_buf b \<and> unat sz \<le> length (buf b) \<and>
    (\<forall>old. p = Some old \<longrightarrow> length (buf old) \<le> length (buf b) \<and> take (length (buf old)) (buf b) = buf old)"
proof -
  let ?need = "sz + 8"
  let ?cur = "case p of None \<Rightarrow> 0 | Some b \<Rightarrow> complete_size b"
  have need: "unat ?need = unat sz + 8" using assms(3) by (intro unat_add_8) simp
  show ?thesis
  proof (cases "?need \<le> ?cur")
    case True
    then have "p = Some b" using assms(1) by (simp add: afl_realloc_def AFL_ALLOC_SIZE_OFFSET_def)
    then show ?thesis using True assms(2) need by (simp add: wf_buf_def word_le_nat_alt)
  next
    case False
    define n where "n = (if ?need < 64 then 64 else if next_pow2 ?need = 0 then ?need else next_pow2 ?need)"
    have r: "resize heap p n = Some b"
      using assms(1) False
      by (simp add: afl_realloc_def AFL_ALLOC_SIZE_OFFSET_def INITIAL_GROWTH_SIZE_def n_def
          Let_def split: if_splits)
    have "unat ?need \<le> unat n"
      using next_pow2_ge [of ?need] need assms(3)
      by (auto simp: n_def word_less_nat_alt)
    then have n: "unat sz + 8 \<le> unat n" using need by simp
    have old: "length (buf old) \<le> unat n - 8" if "p = Some old" for old
      using False that assms(2) [OF that] n need by (simp add: wf_buf_def word_le_nat_alt)
    from resize_SomeD [OF r] n have b: "wf_buf b" "complete_size b = n" by auto
    have "take (length (buf old)) (buf b) = buf old" if "p = Some old" for old
      using resize_SomeD(3) [OF r _ that] n old [OF that] by (simp add: min_def split: if_splits)
    with b n old show ?thesis by (auto simp: wf_buf_def)
  qed
qed

theorem afl_realloc_grows_witness:
  "\<exists>b. afl_realloc (\<lambda>n. Some (\<lambda>i. 0)) None 100 = Some b \<and> wf_buf b \<and> 100 \<le> length (buf b)"
proof -
  have "afl_realloc (\<lambda>n. Some (\<lambda>i. 0)) None 100 \<noteq> None"
    by (auto simp: afl_realloc_def resize_def realloc_def Let_def AFL_ALLOC_SIZE_OFFSET_def
        INITIAL_GROWTH_SIZE_def)
  then obtain b where b: "afl_realloc (\<lambda>n. Some (\<lambda>i. 0)) None 100 = Some b" by blast
  show ?thesis using afl_realloc_grows [OF b] b by simp
qed

lemma afl_realloc_total: "(\<And>n. heap n \<noteq> None) \<Longrightarrow> afl_realloc heap p sz \<noteq> None \<or> p = None \<and> sz + 8 = 0"
  using resize_succeeds [of heap]
  by (auto simp: afl_realloc_def Let_def AFL_ALLOC_SIZE_OFFSET_def split: option.splits)

text \<open>
  The comment above \<^verbatim>\<open>afl_realloc\<close> says that a request below one byte returns NULL. The
  code returns a buffer of the initial size.
\<close>

lemma afl_realloc_zero:
  assumes "heap 56 = Some fresh"
  shows "\<exists>b. afl_realloc heap None 0 = Some b \<and> complete_size b = 64"
  using assms
  by (auto simp: afl_realloc_def resize_def realloc_def AFL_ALLOC_SIZE_OFFSET_def
      INITIAL_GROWTH_SIZE_def)

text \<open>
  \<^verbatim>\<open>next_pow2\<close> folds 32 bits only, so above 2^32 the result need not be a power of two,
  although its comment says so for every argument.
\<close>

lemma next_pow2_not_power: "next_pow2 0x100000001 = 0x1FFFFFFFF"
  by (simp add: next_pow2_def)

theorem next_pow2_least_power_witness:
  "\<exists>L. unat (next_pow2 100) = 2 ^ L \<and> unat (100 :: u64) \<le> 2 ^ L \<and> (\<forall>m. unat (100 :: u64) \<le> 2 ^ m \<longrightarrow> L \<le> m)"
  by (rule next_pow2_least_power) simp_all

end
