(* ===== verification/Performance.thy ===== *)
theory Performance
  imports Prelude
begin

text \<open>
  The fuzzer's random numbers: \<^verbatim>\<open>src/afl-performance.c\<close> (the generators RomuDuoJr of
  64-bit and RomuTrio32 of 32-bit builds, the seeding) and the inline \<^verbatim>\<open>rand_below\<close>
  family of \<^verbatim>\<open>include/afl-fuzz.h\<close>. The rejection loop of \<^verbatim>\<open>rand_below\<close> has no bound in
  the code, so its model returns \<^term>\<open>None\<close> exactly when no draw is ever accepted. The
  locale \<open>bounded_rng\<close> is what the mutators rely on.
\<close>

section \<open>State\<close>

text \<open>\<open>urandom k\<close> is what the \<open>k\<close>-th read of \<^verbatim>\<open>/dev/urandom\<close> yields for the three seed words.\<close>

record rng =
  init_seed :: u64
  rand_seed0 :: u64
  rand_seed1 :: u64
  rand_seed2 :: u64
  rand_cnt :: u32
  fixed_seed :: bool
  urandom :: "nat \<Rightarrow> u64 \<times> u64 \<times> u64"
  urandom_reads :: nat

definition HASH_CONST :: u64 where
  "HASH_CONST = 0xa5b35705"

definition RESEED_RNG :: u64 where
  "RESEED_RNG = 100000"

text \<open>\<open>hash64\<close> is xxHash (\<^verbatim>\<open>XXH64\<close>, third-party): an argument.\<close>

definition rand_set_seed :: "(u8 list \<Rightarrow> u64 \<Rightarrow> u64) \<Rightarrow> u64 \<Rightarrow> rng \<Rightarrow> rng" where
  "rand_set_seed hash64 seed s =
     (let s0 = hash64 (store_le 8 seed) HASH_CONST;
          s1 = s0 XOR 0x1234567890abcdef;
          s2 = (s0 AND 0x1234567890abcdef) XOR (s1 OR 0xfedcba9876543210)
      in s\<lparr>init_seed := seed, rand_seed0 := s0, rand_seed1 := s1, rand_seed2 := s2\<rparr>)"

definition rand_get_seed :: "rng \<Rightarrow> u64" where
  "rand_get_seed s = (if fixed_seed s then init_seed s else rand_seed0 s)"

section \<open>The generators\<close>

definition ROTL64 :: "u64 \<Rightarrow> nat \<Rightarrow> u64" where
  "ROTL64 d lrot = push_bit lrot d OR drop_bit (8 * 8 - lrot) d"

definition ROTL32 :: "u32 \<Rightarrow> nat \<Rightarrow> u32" where
  "ROTL32 d lrot = push_bit lrot d OR drop_bit (8 * 4 - lrot) d"

definition rand_next :: "rng \<Rightarrow> u64 \<times> rng" where
  "rand_next s =
     (let xp = rand_seed0 s;
          s = s\<lparr>rand_seed0 := 15241094284759029579 * rand_seed1 s\<rparr>;
          s = s\<lparr>rand_seed1 := rand_seed1 s - xp\<rparr>;
          s = s\<lparr>rand_seed1 := ROTL64 (rand_seed1 s) 27\<rparr>
      in (xp, s))"

definition rand_next32 :: "u32 \<times> u32 \<times> u32 \<Rightarrow> u32 \<times> (u32 \<times> u32 \<times> u32)" where
  "rand_next32 = (\<lambda>(xp, yp, zp).
     (let s0 = 3323815723 * zp;
          s1 = yp - xp;
          s1 = ROTL32 s1 6;
          s2 = zp - yp;
          s2 = ROTL32 s2 22
      in (xp, (s0, s1, s2))))"

section \<open>Bounded draws\<close>

text \<open>The reseeding at the head of \<^verbatim>\<open>rand_below\<close>: the counter is decremented in any case.\<close>

definition reseed :: "rng \<Rightarrow> rng" where
  "reseed s =
     (let cnt = rand_cnt s;
          s = s\<lparr>rand_cnt := cnt - 1\<rparr>
      in if cnt = 0 \<and> \<not> fixed_seed s
         then let (a, b, c) = urandom s (urandom_reads s);
                  s = s\<lparr>rand_seed0 := a, rand_seed1 := b, rand_seed2 := c,
                         urandom_reads := Suc (urandom_reads s)\<rparr>
              in s\<lparr>rand_cnt := ucast (RESEED_RNG div 2 + b mod RESEED_RNG)\<rparr>
         else s)"

partial_function (option) draw_below :: "u64 \<Rightarrow> rng \<Rightarrow> (u64 \<times> rng) option" where
  "draw_below thr s =
     (case rand_next s of (x, s') \<Rightarrow> if thr \<le> x then draw_below thr s' else Some (x, s'))"

definition unbiased_bound :: "u32 \<Rightarrow> u64" where
  "unbiased_bound limit = - 1 - (- 1) mod ucast limit"

definition rand_below :: "rng \<Rightarrow> u32 \<Rightarrow> (u32 \<times> rng) option" where
  "rand_below s limit =
     (if limit \<le> 1 then Some (0, s)
      else map_option (\<lambda>(x, s'). (ucast (x mod ucast limit), s'))
             (draw_below (unbiased_bound limit) (reseed s)))"

text \<open>The functions that draw are written over any \<open>below\<close> and used with \<^const>\<open>rand_below\<close>.\<close>

definition rand_below_datalen ::
    "('s \<Rightarrow> u32 \<Rightarrow> (u32 \<times> 's) option) \<Rightarrow> 's \<Rightarrow> u32 \<Rightarrow> (u32 \<times> 's) option" where
  "rand_below_datalen below s limit =
     (if limit \<le> 1 then Some (0, s)
      else Option.bind (below s 3) (\<lambda>(c, s).
        if c = 2 then
          Option.bind (below s limit) (\<lambda>(a, s).
          Option.bind (below s (limit - 1)) (\<lambda>(b, s).
          Option.bind (below s (limit - 1)) (\<lambda>(d, s).
            Some (a mod (1 + b) mod (1 + d), s))))
        else if c = 1 then
          Option.bind (below s limit) (\<lambda>(a, s).
          Option.bind (below s (limit - 1)) (\<lambda>(b, s).
            Some (a mod (1 + b), s)))
        else if c = 0 then below s limit
        else Some (1, s)))"

section \<open>The interface of a bounded generator\<close>

locale bounded_rng =
  fixes below :: "'s \<Rightarrow> u32 \<Rightarrow> (u32 \<times> 's) option"
  assumes below_less: "below s n = Some (r, s') \<Longrightarrow> 0 < n \<Longrightarrow> r < n"
    and below_trivial: "n \<le> 1 \<Longrightarrow> below s n = Some (0, s)"
begin

lemma below_unat: "below s n = Some (r, s') \<Longrightarrow> 0 < unat n \<Longrightarrow> unat r < unat n"
  using below_less [of s n r s'] by (simp add: word_less_nat_alt)

lemma datalen_less:
  assumes "rand_below_datalen below s limit = Some (r, s')" and "0 < limit"
  shows "r < limit"
proof -
  have le: "a mod b \<le> a" for a b :: u32
    by (simp add: word_le_nat_alt unat_mod)
  have lt: "a mod b < limit" if "a < limit" for a b
    using le that by (rule le_less_trans)
  show ?thesis
  proof (cases "limit \<le> 1")
    case True
    then show ?thesis using assms by (simp add: rand_below_datalen_def)
  next
    case False
    then show ?thesis using assms
      by (auto simp: rand_below_datalen_def bind_eq_Some_conv not_le split: if_splits prod.splits
          intro!: lt intro: below_less)
  qed
qed

end

section \<open>Facts about the rejection loop\<close>

text \<open>\<open>nth_draw k s\<close> is the \<open>k\<close>-th number of the generator from state \<open>s\<close>.\<close>

fun nth_draw :: "nat \<Rightarrow> rng \<Rightarrow> u64" where
  "nth_draw 0 s = fst (rand_next s)"
| "nth_draw (Suc k) s = nth_draw k (snd (rand_next s))"

lemma draw_below_step:
  "thr \<le> fst (rand_next s) \<Longrightarrow> draw_below thr s = draw_below thr (snd (rand_next s))"
  "fst (rand_next s) < thr \<Longrightarrow> draw_below thr s = Some (rand_next s)"
  by (auto simp add: draw_below.simps [of thr s] case_prod_beta not_le)

lemma draw_below_returns:
  "nth_draw k s < thr \<Longrightarrow> draw_below thr s \<noteq> None"
proof (induction k arbitrary: s)
  case 0
  then show ?case using draw_below_step(2) by simp
next
  case (Suc k)
  then show ?case
    by (cases "fst (rand_next s) < thr") (auto simp: draw_below_step not_less)
qed

lemma draw_below_SomeD:
  assumes "draw_below thr s = Some r"
  shows "fst r < thr \<and> (\<exists>k. nth_draw k s = fst r)"
proof (rule draw_below.raw_induct [where P = "\<lambda>thr s r. fst r < thr \<and> (\<exists>k. nth_draw k s = fst r)", OF _ assms])
  fix f thr s r
  assume IH: "\<And>thr s r. f thr s = Some r \<Longrightarrow> fst r < thr \<and> (\<exists>k. nth_draw k s = fst r)"
    and eq: "(case rand_next s of (x, s') \<Rightarrow> if thr \<le> x then f thr s' else Some (x, s')) = Some r"
  show "fst r < thr \<and> (\<exists>k. nth_draw k s = fst r)"
  proof (cases "thr \<le> fst (rand_next s)")
    case True
    then have "f thr (snd (rand_next s)) = Some r" using eq by (simp add: case_prod_beta)
    then show ?thesis using IH by (metis nth_draw.simps(2))
  next
    case False
    then have "r = rand_next s" using eq by (simp add: case_prod_beta)
    then show ?thesis using False by (metis not_le nth_draw.simps(1))
  qed
qed

lemma rand_below_less:
  assumes "rand_below s n = Some (r, s')" and "0 < n"
  shows "r < n"
proof (cases "n \<le> 1")
  case True
  then show ?thesis using assms by (simp add: rand_below_def)
next
  case False
  then obtain x where x: "r = ucast (x mod ucast n :: u64)"
    using assms by (auto simp: rand_below_def)
  have "unat (x mod ucast n :: u64) < unat n"
    using False by (simp add: unat_mod word_le_nat_alt)
  then show ?thesis
    by (simp add: x word_less_nat_alt unat_ucast_mod)
qed

interpretation rb: bounded_rng rand_below
  by unfold_locales (auto simp: rand_below_less, simp add: rand_below_def)


section \<open>What the generators guarantee\<close>

lemma rotated_back:
  assumes "a + b = LENGTH('a)"
  shows "drop_bit a (push_bit a d OR drop_bit b d) OR push_bit b (push_bit a d OR drop_bit b d) = (d :: 'a::len word)"
proof (rule bit_word_eqI)
  fix n assume "n < LENGTH('a)"
  then show "bit (drop_bit a (push_bit a d OR drop_bit b d) OR push_bit b (push_bit a d OR drop_bit b d)) n = bit d n"
    using assms
    by (cases "n < b") (auto simp: bit_or_iff bit_push_bit_iff bit_drop_bit_eq not_less
        dest: bit_imp_le_length)
qed

lemma ROTL64_inverse: "drop_bit 27 (ROTL64 d 27) OR push_bit 37 (ROTL64 d 27) = d"
  unfolding ROTL64_def using rotated_back [of 27 37 d] by simp

lemma romu64_cancel: "15241094284759029579 * x = 15241094284759029579 * y \<longleftrightarrow> x = (y :: u64)"
proof
  let ?c = "15241094284759029579 :: u64" and ?d = "4888251478366616163 :: u64"
  assume "?c * x = ?c * y"
  then have "?d * (?c * x) = ?d * (?c * y)" by (rule arg_cong)
  then have "(?d * ?c) * x = (?d * ?c) * y" by (simp only: mult.assoc)
  moreover have "?d * ?c = 1" by code_simp
  ultimately show "x = y" by (simp only: mult_1)
qed simp

text \<open>
  The 64-bit generator is injective on its state: two states with the same successor seeds
  are equal, so no seed is ever merged with another and the sequence is reversible.
\<close>

theorem rand_next_injective:
  assumes "rand_seed0 (snd (rand_next s)) = rand_seed0 (snd (rand_next t))"
    and "rand_seed1 (snd (rand_next s)) = rand_seed1 (snd (rand_next t))"
  shows "rand_seed0 s = rand_seed0 t \<and> rand_seed1 s = rand_seed1 t"
proof -
  have 1: "rand_seed1 s = rand_seed1 t"
    using assms(1) by (simp add: rand_next_def Let_def romu64_cancel)
  have "ROTL64 (rand_seed1 s - rand_seed0 s) 27 = ROTL64 (rand_seed1 t - rand_seed0 t) 27"
    using assms(2) by (simp add: rand_next_def Let_def)
  then have "rand_seed1 s - rand_seed0 s = rand_seed1 t - rand_seed0 t"
    by (metis ROTL64_inverse)
  with 1 show ?thesis by simp
qed

lemma count_residues:
  assumes "r < n"
  shows "card {x. x < q * n \<and> x mod n = r} = (q :: nat)"
proof -
  have "{x. x < q * n \<and> x mod n = r} = (\<lambda>k. k * n + r) ` {..<q}"
  proof (intro equalityI subsetI)
    fix x assume x: "x \<in> {x. x < q * n \<and> x mod n = r}"
    then have "x = (x div n) * n + r" by (metis (mono_tags) div_mult_mod_eq mem_Collect_eq)
    moreover have "x div n < q" using x by (simp add: less_mult_imp_div_less)
    ultimately show "x \<in> (\<lambda>k. k * n + r) ` {..<q}" by blast
  next
    fix x assume "x \<in> (\<lambda>k. k * n + r) ` {..<q}"
    then obtain k where k: "k < q" "x = k * n + r" by blast
    then have "Suc k * n \<le> q * n" by (intro mult_le_mono1) simp
    with k assms show "x \<in> {x. x < q * n \<and> x mod n = r}" by simp
  qed
  moreover have "inj_on (\<lambda>k. k * n + r) {..<q}" using assms by (intro inj_onI) auto
  ultimately show ?thesis by (simp add: card_image)
qed

lemma unat_unbiased_bound:
  assumes "0 < n"
  shows "unat (unbiased_bound n) = (2 ^ 64 - 1) div unat n * unat n"
proof -
  have "unat (unbiased_bound n) = unat (- 1 :: u64) - unat (- 1 :: u64) mod unat n"
    unfolding unbiased_bound_def
    by (subst unat_sub) (simp_all add: unat_mod word_le_nat_alt)
  also have "unat (- 1 :: u64) = 2 ^ 64 - 1" by (simp add: unsigned_minus_1_eq_mask mask_eq_exp_minus_1)
  finally show ?thesis by (simp add: minus_mod_eq_div_mult)
qed


text \<open>
  \<^verbatim>\<open>rand_below\<close> returns exactly when the generator ever yields a number below the
  rejection bound, and then the result is below the limit.
\<close>

theorem rand_below_total_iff:
  assumes "1 < n"
  shows "(rand_below s n \<noteq> None \<longleftrightarrow> (\<exists>k. nth_draw k (reseed s) < unbiased_bound n))
    \<and> (\<forall>r s'. rand_below s n = Some (r, s') \<longrightarrow> r < n)"
proof (intro conjI allI impI)
  have "rand_below s n \<noteq> None \<longleftrightarrow> draw_below (unbiased_bound n) (reseed s) \<noteq> None"
    using assms by (auto simp: rand_below_def dest: leD)
  moreover have "\<exists>k. nth_draw k (reseed s) < unbiased_bound n"
    if "draw_below (unbiased_bound n) (reseed s) = Some y" for y
    using draw_below_SomeD [OF that] by metis
  ultimately show "rand_below s n \<noteq> None \<longleftrightarrow> (\<exists>k. nth_draw k (reseed s) < unbiased_bound n)"
    using draw_below_returns by blast
next
  have "0 < n" using assms by (simp add: word_less_nat_alt)
  then show "r < n" if "rand_below s n = Some (r, s')" for r s'
    using that rb.below_less by blast
qed

text \<open>A generator with a fixed seed, for the witnesses.\<close>

definition rng0 :: rng where
  "rng0 = \<lparr>init_seed = 0, rand_seed0 = 12345, rand_seed1 = 67890, rand_seed2 = 0, rand_cnt = 0,
     fixed_seed = True, urandom = (\<lambda>_. (0, 0, 0)), urandom_reads = 0\<rparr>"

theorem rand_below_total_iff_witness: "rand_below rng0 100 \<noteq> None"
proof -
  have "nth_draw 0 (reseed rng0) < unbiased_bound 100"
    by code_simp
  then show ?thesis using rand_below_total_iff [of 100 rng0] by (simp del: nth_draw.simps) blast
qed


theorem rand_next_injective_witness:
  "rand_seed0 rng0 = rand_seed0 (rng0\<lparr>rand_cnt := 5\<rparr>)
    \<and> rand_seed1 rng0 = rand_seed1 (rng0\<lparr>rand_cnt := 5\<rparr>)"
  by (rule rand_next_injective) (simp_all add: rand_next_def Let_def)

end
