(* ===== verification/Coverage.thy ===== *)
theory Coverage
  imports Prelude
begin

text \<open>
  The coverage maps: the lookup tables and counters of \<^verbatim>\<open>src/afl-fuzz-bitmap.c\<close> and the
  word-parallel passes of \<^verbatim>\<open>include/coverage-64.h\<close> and \<^verbatim>\<open>include/coverage-32.h\<close>
  (\<^verbatim>\<open>classify_counts\<close>, \<^verbatim>\<open>simplify_trace\<close>, \<^verbatim>\<open>discover_word\<close>, the portable
  \<^verbatim>\<open>skim\<close>; the AVX variants are compiled from intrinsics and are not modelled). A map
  is the list of its bytes; word operations load and store little-endian. Both flavours
  interpret the locale \<open>coverage_words\<close>, in which the passes are proved equal to their
  byte-wise specifications.
\<close>

section \<open>Lookup tables\<close>

text \<open>C's designated initialisers: the rest of the array is zero.\<close>

definition designated :: "nat \<Rightarrow> (nat \<times> 'a::zero list) list \<Rightarrow> 'a list" where
  "designated n inits =
     fold (\<lambda>(i, vs) t. take i t @ vs @ drop (i + length vs) t) inits (replicate n 0)"

definition simplify_lookup :: "u8 list" where
  "simplify_lookup = designated 256 [(0, [1]), (1, replicate 255 128)]"

definition count_class_lookup8 :: "u8 list" where
  "count_class_lookup8 = designated 256
     [(0, [0]), (1, [1]), (2, [2]), (3, [4]), (4, replicate 4 8), (8, replicate 8 16),
      (16, replicate 16 32), (32, replicate 32 64), (128, replicate 64 128)]"

definition init_count_class16 :: "u16 list" where
  "init_count_class16 =
     fold (\<lambda>b1 t. fold (\<lambda>b2 t.
         t[256 * b1 + b2 := push_bit 8 (ucast (count_class_lookup8 ! b1)) OR ucast (count_class_lookup8 ! b2)])
       [0..<256] t) [0..<256] (replicate 65536 0)"

abbreviation count_class8 :: "u8 \<Rightarrow> u8" where
  "count_class8 b \<equiv> count_class_lookup8 ! unat b"

abbreviation simplify8 :: "u8 \<Rightarrow> u8" where
  "simplify8 b \<equiv> simplify_lookup ! unat b"

lemma count_class_lookup8_eq:
  "count_class_lookup8 = [0, 1, 2, 4] @ replicate 4 8 @ replicate 8 16 @ replicate 16 32
     @ replicate 32 64 @ replicate 64 0 @ replicate 64 128 @ replicate 64 0"
  by code_simp

lemma simplify_lookup_eq: "simplify_lookup = 1 # replicate 255 128"
  by code_simp

lemma count_class8_cases:
  "n < 256 \<Longrightarrow> count_class_lookup8 ! n =
     (if n = 0 then 0 else if n = 1 then 1 else if n = 2 then 2 else if n = 3 then 4
      else if n < 8 then 8 else if n < 16 then 16 else if n < 32 then 32 else if n < 64 then 64
      else if n < 128 then 0 else if n < 192 then 128 else 0)"
  by (auto simp: count_class_lookup8_eq nth_append nth_Cons' less_Suc_eq)

lemma simplify8_cases: "simplify8 b = (if b = 0 then 1 else 128)"
proof -
  have "unat b < 256" using unat_lt2p [of b] by simp
  then show ?thesis by (cases "unat b") (auto simp: simplify_lookup_eq unat_0_iff)
qed

lemma count_class8_0 [simp]: "count_class_lookup8 ! 0 = 0"
  by (simp add: count_class8_cases)

lemma fold_update_other: "(\<And>k. k \<in> set ks \<Longrightarrow> f k \<noteq> i) \<Longrightarrow> fold (\<lambda>k t. t[f k := g k]) ks t ! i = t ! i"
  by (induction ks arbitrary: t) auto

lemma length_fold_update [simp]: "length (fold (\<lambda>k t. t[f k := g k]) ks t) = length t"
  by (induction ks arbitrary: t) auto

lemma fold_update_hit:
  "inj_on f (set ks) \<Longrightarrow> k \<in> set ks \<Longrightarrow> f k < length t \<Longrightarrow> distinct ks \<Longrightarrow>
     fold (\<lambda>k t. t[f k := g k]) ks t ! f k = g k"
proof (induction ks arbitrary: t)
  case (Cons a ks)
  show ?case
  proof (cases "k = a")
    case True
    with Cons.prems have "\<And>j. j \<in> set ks \<Longrightarrow> f j \<noteq> f a" by (auto simp: inj_on_def)
    with True Cons.prems show ?thesis by (simp add: fold_update_other)
  next
    case False
    with Cons show ?thesis by (auto simp: inj_on_def)
  qed
qed simp

text \<open>Row \<open>b1\<close> of the 16-bit table is written by iteration \<open>b1\<close> only.\<close>

lemma nth_init_count_class16:
  assumes "b1 < 256" and "b2 < 256"
  shows "init_count_class16 ! (256 * b1 + b2)
    = push_bit 8 (ucast (count_class_lookup8 ! b1)) OR ucast (count_class_lookup8 ! b2)"
proof -
  define row where "row = (\<lambda>a b. push_bit 8 (ucast (count_class_lookup8 ! a)) OR
    (ucast (count_class_lookup8 ! b) :: u16))"
  define step where "step = (\<lambda>a t. fold (\<lambda>b t. t[256 * a + b := row a b]) [0..<256] t)"
  have len: "length (step a t) = length t" for a t by (simp add: step_def)
  have lenf: "length (fold step as t) = length t" for as t
    by (induction as arbitrary: t) (simp_all add: len)
  have ne: "256 * a + b \<noteq> 256 * b1 + b2" if "a \<noteq> b1" "b < 256" for a b
  proof
    assume "256 * a + b = 256 * b1 + b2"
    then have "(256 * a + b) div 256 = (256 * b1 + b2) div 256" by (rule arg_cong)
    with that assms show False by simp
  qed
  have other: "step a t ! (256 * b1 + b2) = t ! (256 * b1 + b2)" if "a \<noteq> b1" for a t
    unfolding step_def
    by (intro fold_update_other ne [OF that]) (simp only: set_upt atLeastLessThan_iff)
  have others: "fold step as t ! (256 * b1 + b2) = t ! (256 * b1 + b2)" if "b1 \<notin> set as" for as t
    using that by (induction as arbitrary: t) (auto simp: other)
  have hit: "step b1 t ! (256 * b1 + b2) = row b1 b2" if "length t = 65536" for t
    unfolding step_def using that assms
    by (intro fold_update_hit [where f = "\<lambda>b. 256 * b1 + b"]) (auto simp: inj_on_def)
  have split: "[0..<256] = [0..<b1] @ b1 # [Suc b1..<256]"
    using upt_add_eq_append [of 0 b1 "256 - b1"] upt_conv_Cons [OF assms(1)] assms(1)
    by (simp only: le_add_diff_inverse less_imp_le zero_le)
  have "fold step [0..<256] (replicate 65536 0) ! (256 * b1 + b2) = row b1 b2"
    unfolding split by (simp add: others hit lenf)
  then show ?thesis by (simp add: init_count_class16_def step_def row_def)
qed

section \<open>The 64-bit flavour\<close>

definition classify_word64 :: "u64 \<Rightarrow> u64" where
  "classify_word64 word =
     (let bs = store_le 8 word;
          mem16_0 = load_le (take 2 bs) :: u16;
          mem16_1 = load_le (take 2 (drop 2 bs)) :: u16;
          mem16_2 = load_le (take 2 (drop 4 bs)) :: u16;
          mem16_3 = load_le (take 2 (drop 6 bs)) :: u16;
          mem16_0 = init_count_class16 ! unat mem16_0;
          mem16_1 = init_count_class16 ! unat mem16_1;
          mem16_2 = init_count_class16 ! unat mem16_2;
          mem16_3 = init_count_class16 ! unat mem16_3
      in load_le (store_le 2 mem16_0 @ store_le 2 mem16_1 @ store_le 2 mem16_2 @ store_le 2 mem16_3))"

definition simplify_trace64 :: "nat \<Rightarrow> u8 list \<Rightarrow> u8 list" where
  "simplify_trace64 map_size bytes =
     map_words 8 (\<lambda>mem8. if (load_le mem8 :: u64) \<noteq> 0
         then [simplify8 (mem8 ! 0), simplify8 (mem8 ! 1), simplify8 (mem8 ! 2), simplify8 (mem8 ! 3),
               simplify8 (mem8 ! 4), simplify8 (mem8 ! 5), simplify8 (mem8 ! 6), simplify8 (mem8 ! 7)]
         else store_le 8 (0x0101010101010101 :: u64)) (map_size div 8) bytes"

definition classify_counts64 :: "nat \<Rightarrow> u8 list \<Rightarrow> u8 list" where
  "classify_counts64 map_size trace =
     map_words 8 (\<lambda>mem. if (load_le mem :: u64) \<noteq> 0
         then store_le 8 (classify_word64 (load_le mem)) else mem) (map_size div 8) trace"

definition discover_word64 :: "u8 \<Rightarrow> u64 \<Rightarrow> u64 \<Rightarrow> u8 \<times> u64" where
  "discover_word64 ret current virgin =
     (if current AND virgin \<noteq> 0
      then (if ret < 2
            then let cur = store_le 8 current; vir = store_le 8 virgin
                 in if (cur ! 0 \<noteq> 0 \<and> vir ! 0 = 0xff) \<or> (cur ! 1 \<noteq> 0 \<and> vir ! 1 = 0xff)
                     \<or> (cur ! 2 \<noteq> 0 \<and> vir ! 2 = 0xff) \<or> (cur ! 3 \<noteq> 0 \<and> vir ! 3 = 0xff)
                     \<or> (cur ! 4 \<noteq> 0 \<and> vir ! 4 = 0xff) \<or> (cur ! 5 \<noteq> 0 \<and> vir ! 5 = 0xff)
                     \<or> (cur ! 6 \<noteq> 0 \<and> vir ! 6 = 0xff) \<or> (cur ! 7 \<noteq> 0 \<and> vir ! 7 = 0xff)
                    then 2 else 1
            else ret,
            virgin AND NOT current)
      else (ret, virgin))"

text \<open>
  The portable \<^verbatim>\<open>skim\<close>: four words a round while \<^verbatim>\<open>current < current_end\<close>; \<open>rest\<close>
  is the distance to the end in bytes. \<open>probe\<close> is the test of one word.
\<close>

fun skim_loop :: "nat \<Rightarrow> (u8 list \<Rightarrow> u8 list \<Rightarrow> bool) \<Rightarrow> u8 list \<Rightarrow> u8 list \<Rightarrow> nat \<Rightarrow> bool" where
  "skim_loop sz probe virgin current rest =
     (if rest = 0 \<or> sz = 0 then False
      else let cur = (\<lambda>k. take sz (drop (sz * k) current));
               vir = (\<lambda>k. take sz (drop (sz * k) virgin))
           in if probe (cur 0) (vir 0) then True
              else if probe (cur 1) (vir 1) then True
              else if probe (cur 2) (vir 2) then True
              else if probe (cur 3) (vir 3) then True
              else skim_loop sz probe (drop (sz * 4) virgin) (drop (sz * 4) current) (rest - sz * 4))"

declare skim_loop.simps [simp del]

definition probe64 :: "u8 list \<Rightarrow> u8 list \<Rightarrow> bool" where
  "probe64 current virgin \<longleftrightarrow>
     (load_le current :: u64) \<noteq> 0 \<and> classify_word64 (load_le current) AND load_le virgin \<noteq> 0"

definition skim64 :: "u8 list \<Rightarrow> u8 list \<Rightarrow> nat \<Rightarrow> bool" where
  "skim64 = skim_loop 8 probe64"

section \<open>The 32-bit flavour\<close>

definition classify_word32 :: "u32 \<Rightarrow> u32" where
  "classify_word32 word =
     (let bs = store_le 4 word;
          mem16_0 = load_le (take 2 bs) :: u16;
          mem16_1 = load_le (take 2 (drop 2 bs)) :: u16;
          mem16_0 = init_count_class16 ! unat mem16_0;
          mem16_1 = init_count_class16 ! unat mem16_1
      in load_le (store_le 2 mem16_0 @ store_le 2 mem16_1))"

definition simplify_trace32 :: "nat \<Rightarrow> u8 list \<Rightarrow> u8 list" where
  "simplify_trace32 map_size bytes =
     map_words 4 (\<lambda>mem8. if (load_le mem8 :: u32) \<noteq> 0
         then [simplify8 (mem8 ! 0), simplify8 (mem8 ! 1), simplify8 (mem8 ! 2), simplify8 (mem8 ! 3)]
         else store_le 4 (0x01010101 :: u32)) (map_size div 4) bytes"

definition classify_counts32 :: "nat \<Rightarrow> u8 list \<Rightarrow> u8 list" where
  "classify_counts32 map_size trace =
     map_words 4 (\<lambda>mem. if (load_le mem :: u32) \<noteq> 0
         then store_le 4 (classify_word32 (load_le mem)) else mem) (map_size div 4) trace"

definition discover_word32 :: "u8 \<Rightarrow> u32 \<Rightarrow> u32 \<Rightarrow> u8 \<times> u32" where
  "discover_word32 ret current virgin =
     (if current AND virgin \<noteq> 0
      then (if ret < 2
            then let cur = store_le 4 current; vir = store_le 4 virgin
                 in if (cur ! 0 \<noteq> 0 \<and> vir ! 0 = 0xff) \<or> (cur ! 1 \<noteq> 0 \<and> vir ! 1 = 0xff)
                     \<or> (cur ! 2 \<noteq> 0 \<and> vir ! 2 = 0xff) \<or> (cur ! 3 \<noteq> 0 \<and> vir ! 3 = 0xff)
                    then 2 else 1
            else ret,
            virgin AND NOT current)
      else (ret, virgin))"

definition probe32 :: "u8 list \<Rightarrow> u8 list \<Rightarrow> bool" where
  "probe32 current virgin \<longleftrightarrow>
     (load_le current :: u32) \<noteq> 0 \<and> classify_word32 (load_le current) AND load_le virgin \<noteq> 0"

definition skim32 :: "u8 list \<Rightarrow> u8 list \<Rightarrow> nat \<Rightarrow> bool" where
  "skim32 = skim_loop 4 probe32"

section \<open>The scan for new coverage\<close>

text \<open>\<open>visit\<close> is the body of the loop of \<^verbatim>\<open>has_new_bits\<close> on one word of each map.\<close>

definition visit64 :: "u8 \<Rightarrow> u8 list \<Rightarrow> u8 list \<Rightarrow> u8 \<times> u8 list" where
  "visit64 ret current virgin =
     (if (load_le current :: u64) \<noteq> 0
      then (case discover_word64 ret (load_le current) (load_le virgin) of (ret, v) \<Rightarrow> (ret, store_le 8 v))
      else (ret, virgin))"

definition visit32 :: "u8 \<Rightarrow> u8 list \<Rightarrow> u8 list \<Rightarrow> u8 \<times> u8 list" where
  "visit32 ret current virgin =
     (if (load_le current :: u32) \<noteq> 0
      then (case discover_word32 ret (load_le current) (load_le virgin) of (ret, v) \<Rightarrow> (ret, store_le 4 v))
      else (ret, virgin))"

fun new_bits_loop :: "nat \<Rightarrow> (u8 \<Rightarrow> u8 list \<Rightarrow> u8 list \<Rightarrow> u8 \<times> u8 list) \<Rightarrow>
    nat \<Rightarrow> u8 list \<Rightarrow> u8 list \<Rightarrow> u8 \<Rightarrow> u8 \<times> u8 list" where
  "new_bits_loop sz visit 0 current virgin ret = (ret, virgin)"
| "new_bits_loop sz visit (Suc i) current virgin ret =
     (case visit ret (take sz current) (take sz virgin) of (ret, v) \<Rightarrow>
      case new_bits_loop sz visit i (drop sz current) (drop sz virgin) ret of (ret, vs) \<Rightarrow>
        (ret, v @ vs))"

definition scan64 :: "nat \<Rightarrow> u8 list \<Rightarrow> u8 list \<Rightarrow> u8 \<times> u8 list" where
  "scan64 map_size current virgin = new_bits_loop 8 visit64 (map_size div 8) current virgin 0"

definition scan32 :: "nat \<Rightarrow> u8 list \<Rightarrow> u8 list \<Rightarrow> u8 \<times> u8 list" where
  "scan32 map_size current virgin = new_bits_loop 4 visit32 (map_size div 4) current virgin 0"

subsection \<open>Byte-wise specification\<close>

definition pristine_hit :: "u8 list \<Rightarrow> u8 list \<Rightarrow> bool" where
  "pristine_hit cs vs \<longleftrightarrow> (\<exists>k < min (length cs) (length vs). cs ! k \<noteq> 0 \<and> vs ! k = 0xff)"

definition fresh_hit :: "u8 list \<Rightarrow> u8 list \<Rightarrow> bool" where
  "fresh_hit cs vs \<longleftrightarrow> (\<exists>k < min (length cs) (length vs). cs ! k AND vs ! k \<noteq> 0)"

definition verdict :: "u8 list \<Rightarrow> u8 list \<Rightarrow> u8" where
  "verdict cs vs = (if pristine_hit cs vs then 2 else if fresh_hit cs vs then 1 else 0)"

definition clear_seen :: "u8 list \<Rightarrow> u8 list \<Rightarrow> u8 list" where
  "clear_seen cs vs = map2 (\<lambda>c v. v AND NOT c) cs vs"

lemma length_clear_seen [simp]: "length (clear_seen cs vs) = min (length cs) (length vs)"
  by (simp add: clear_seen_def)

lemma all_ones_and [simp]: "(c :: u8) AND 0xff = c" "0xff AND c = c"
proof -
  have "(0xff :: u8) = - 1" by simp
  then show "c AND 0xff = c" "0xff AND c = c" by (simp_all only: and.right_neutral and.left_neutral)
qed

lemma pristine_imp_fresh: "pristine_hit cs vs \<Longrightarrow> fresh_hit cs vs"
  unfolding pristine_hit_def fresh_hit_def by (metis all_ones_and(1))

lemma less_min_append:
  assumes "length as = length bs"
  shows "(\<exists>k < min (length (as @ xs)) (length (bs @ ys)). P ((as @ xs) ! k) ((bs @ ys) ! k)) \<longleftrightarrow>
    (\<exists>k < min (length as) (length bs). P (as ! k) (bs ! k)) \<or>
    (\<exists>k < min (length xs) (length ys). P (xs ! k) (ys ! k))" (is "?L \<longleftrightarrow> ?A \<or> ?B")
proof
  assume ?L
  then obtain k where k: "k < min (length (as @ xs)) (length (bs @ ys))" "P ((as @ xs) ! k) ((bs @ ys) ! k)"
    by blast
  show "?A \<or> ?B"
  proof (cases "k < length as")
    case True
    then show ?thesis using k assms by (auto simp: nth_append)
  next
    case False
    then have "k - length as < min (length xs) (length ys)" using k(1) assms by auto
    moreover have "P (xs ! (k - length as)) (ys ! (k - length as))"
      using k(2) False assms by (simp add: nth_append)
    ultimately show ?thesis by blast
  qed
next
  assume "?A \<or> ?B"
  then show ?L
  proof
    assume ?A
    then obtain k where "k < length as" "P (as ! k) (bs ! k)" using assms by auto
    then show ?L using assms by (intro exI [of _ k]) (simp add: nth_append)
  next
    assume ?B
    then obtain k where "k < min (length xs) (length ys)" "P (xs ! k) (ys ! k)" by blast
    then show ?L using assms by (intro exI [of _ "length as + k"]) (simp add: nth_append)
  qed
qed

lemma pristine_hit_append:
  "length as = length bs \<Longrightarrow> pristine_hit (as @ xs) (bs @ ys) \<longleftrightarrow> pristine_hit as bs \<or> pristine_hit xs ys"
  unfolding pristine_hit_def by (rule less_min_append)

lemma fresh_hit_append:
  "length as = length bs \<Longrightarrow> fresh_hit (as @ xs) (bs @ ys) \<longleftrightarrow> fresh_hit as bs \<or> fresh_hit xs ys"
  unfolding fresh_hit_def by (rule less_min_append)

lemma verdict_le [simp]: "verdict cs vs \<le> 2"
  by (simp add: verdict_def)

lemma verdict_append:
  "length as = length bs \<Longrightarrow> verdict (as @ xs) (bs @ ys) = max (verdict as bs) (verdict xs ys)"
  by (auto simp: verdict_def pristine_hit_append fresh_hit_append max_def word_le_nat_alt)

lemma verdict_Nil [simp]: "verdict [] vs = 0" "verdict cs [] = 0"
  by (simp_all add: verdict_def pristine_hit_def fresh_hit_def)

lemma clear_seen_append:
  "length as = length bs \<Longrightarrow> clear_seen (as @ xs) (bs @ ys) = clear_seen as bs @ clear_seen xs ys"
  by (simp add: clear_seen_def)

lemma verdict_eq_0_iff: "verdict cs vs = 0 \<longleftrightarrow> \<not> fresh_hit cs vs"
  by (auto simp: verdict_def dest: pristine_imp_fresh)

subsection \<open>The interface of a word flavour\<close>

locale coverage_words =
  fixes sz :: nat
    and classify :: "u8 list \<Rightarrow> u8 list"
    and visit :: "u8 \<Rightarrow> u8 list \<Rightarrow> u8 list \<Rightarrow> u8 \<times> u8 list"
  assumes sz_pos: "0 < sz"
    and classify_bytes: "length bs = sz \<Longrightarrow> classify bs = map count_class8 bs"
    and visit_bytes: "length cs = sz \<Longrightarrow> length vs = sz \<Longrightarrow> ret \<le> 2 \<Longrightarrow>
      visit ret cs vs = (max ret (verdict cs vs), clear_seen cs vs)"
begin

lemma classify_map_words:
  "sz * n \<le> length mem \<Longrightarrow>
    map_words sz classify n mem = map count_class8 (take (sz * n) mem) @ drop (sz * n) mem"
  using classify_bytes by (rule map_words_map)

lemma scan_bytes:
  assumes "length cs = sz * n" and "length vs = sz * n" and "ret \<le> 2"
  shows "new_bits_loop sz visit n cs vs ret = (max ret (verdict cs vs), clear_seen cs vs)"
  using assms
proof (induction n arbitrary: cs vs ret)
  case 0
  then show ?case by (simp add: clear_seen_def)
next
  case (Suc n)
  let ?c = "take sz cs" and ?v = "take sz vs"
  have len: "length ?c = sz" "length ?v = sz"
    "length (drop sz cs) = sz * n" "length (drop sz vs) = sz * n"
    using Suc.prems by auto
  have "max ret (verdict ?c ?v) \<le> 2" using Suc.prems(3) by (simp add: max_def)
  then have "new_bits_loop sz visit (Suc n) cs vs ret =
      (max (max ret (verdict ?c ?v)) (verdict (drop sz cs) (drop sz vs)),
       clear_seen ?c ?v @ clear_seen (drop sz cs) (drop sz vs))"
    using len Suc.prems(3) by (simp add: visit_bytes Suc.IH)
  then show ?case
    using len verdict_append [of ?c ?v "drop sz cs" "drop sz vs"]
      clear_seen_append [of ?c ?v "drop sz cs" "drop sz vs"]
    by (simp add: max.assoc)
qed

text \<open>The bytes behind the last full word are never looked at.\<close>

lemma scan_prefix:
  assumes "sz * n \<le> length cs" and "sz * n \<le> length vs"
  shows "new_bits_loop sz visit n cs vs ret =
    (case new_bits_loop sz visit n (take (sz * n) cs) (take (sz * n) vs) ret of
       (r, w) \<Rightarrow> (r, w @ drop (sz * n) vs))"
  using assms
proof (induction n arbitrary: cs vs ret)
  case 0
  then show ?case by simp
next
  case (Suc n)
  have t: "take sz (take (sz * Suc n) zs) = take sz zs" "drop sz (take (sz * Suc n) zs) = take (sz * n) (drop sz zs)"
    for zs :: "u8 list" by (simp_all add: min_def drop_take)
  have d: "drop (sz * Suc n) zs = drop (sz * n) (drop sz zs)" for zs :: "u8 list"
    by (simp add: add.commute)
  have le: "sz * n \<le> length (drop sz cs)" "sz * n \<le> length (drop sz vs)" using Suc.prems by auto
  show ?case
    unfolding new_bits_loop.simps t d
    by (subst Suc.IH [OF le]) (simp split: prod.splits)
qed

end


text \<open>With the word test of \<^verbatim>\<open>skim\<close>.\<close>

locale coverage_probe = coverage_words +
  fixes probe :: "u8 list \<Rightarrow> u8 list \<Rightarrow> bool"
  assumes probe_bytes: "length cs = sz \<Longrightarrow> length vs = sz \<Longrightarrow>
      probe cs vs \<longleftrightarrow> fresh_hit (map count_class8 cs) vs"
begin

lemma probe_round:
  assumes "length vs = sz * 4 + r" and "length cs = sz * 4 + r"
  shows "fresh_hit (map count_class8 cs) vs \<longleftrightarrow>
      probe (take sz (drop (sz * 0) cs)) (take sz (drop (sz * 0) vs))
    \<or> probe (take sz (drop (sz * 1) cs)) (take sz (drop (sz * 1) vs))
    \<or> probe (take sz (drop (sz * 2) cs)) (take sz (drop (sz * 2) vs))
    \<or> probe (take sz (drop (sz * 3) cs)) (take sz (drop (sz * 3) vs))
    \<or> fresh_hit (map count_class8 (drop (sz * 4) cs)) (drop (sz * 4) vs)"
proof -
  have cut: "drop (sz * k) zs = take sz (drop (sz * k) zs) @ drop (sz * Suc k) zs" for k and zs :: "u8 list"
    by (metis append_take_drop_id drop_drop add.commute mult_Suc_right)
  have step: "fresh_hit (map count_class8 (drop (sz * k) cs)) (drop (sz * k) vs) \<longleftrightarrow>
      probe (take sz (drop (sz * k) cs)) (take sz (drop (sz * k) vs))
    \<or> fresh_hit (map count_class8 (drop (sz * Suc k) cs)) (drop (sz * Suc k) vs)" if "k < 4" for k
  proof -
    have "sz * Suc k \<le> sz * 4" using that by (intro mult_le_mono2) simp
    then have "sz \<le> sz * 4 + r - sz * k" unfolding mult_Suc_right by linarith
    then have len: "length (take sz (drop (sz * k) cs)) = sz" "length (take sz (drop (sz * k) vs)) = sz"
      using assms by (simp_all add: min_absorb2)
    have "fresh_hit (map count_class8 (drop (sz * k) cs)) (drop (sz * k) vs) \<longleftrightarrow>
      fresh_hit (map count_class8 (take sz (drop (sz * k) cs)) @ map count_class8 (drop (sz * Suc k) cs))
        (take sz (drop (sz * k) vs) @ drop (sz * Suc k) vs)"
      by (subst cut [of k cs], subst cut [of k vs]) (simp only: map_append)
    also have "\<dots> \<longleftrightarrow> probe (take sz (drop (sz * k) cs)) (take sz (drop (sz * k) vs))
      \<or> fresh_hit (map count_class8 (drop (sz * Suc k) cs)) (drop (sz * Suc k) vs)"
      using len by (subst fresh_hit_append) (simp_all add: probe_bytes)
    finally show ?thesis .
  qed
  show ?thesis
    using step [of 0] step [of 1] step [of 2] step [of 3] by (simp add: numeral_eq_Suc)
qed

lemma skim_fresh:
  assumes "length vs = sz * 4 * n" and "length cs = sz * 4 * n"
  shows "skim_loop sz probe vs cs (sz * 4 * n) \<longleftrightarrow> fresh_hit (map count_class8 cs) vs"
  using assms
proof (induction n arbitrary: vs cs)
  case 0
  then show ?case by (simp add: skim_loop.simps fresh_hit_def)
next
  case (Suc n)
  have "skim_loop sz probe (drop (sz * 4) vs) (drop (sz * 4) cs) (sz * 4 * Suc n - sz * 4)
      \<longleftrightarrow> fresh_hit (map count_class8 (drop (sz * 4) cs)) (drop (sz * 4) vs)"
    using Suc.prems Suc.IH [of "drop (sz * 4) vs" "drop (sz * 4) cs"] by simp
  then show ?case
    using probe_round [of vs "sz * 4 * n" cs] Suc.prems sz_pos
    by (subst skim_loop.simps) simp
qed

end

subsection \<open>Both flavours provide it\<close>

lemma load_le_2_index: "unat (load_le [a, b] :: u16) = 256 * unat b + unat a"
  using unat_load_le [of "[a, b]", where ?'a = 16] by (simp del: load_le.simps)

lemma class16_bytes:
  "store_le 2 (init_count_class16 ! unat (load_le [a, b] :: u16)) = [count_class8 a, count_class8 b]"
proof -
  have ab: "unat a < 256" "unat b < 256" using unat_lt2p [of a] unat_lt2p [of b] by simp_all
  have "init_count_class16 ! unat (load_le [a, b] :: u16)
      = push_bit 8 (ucast (count_class8 b)) OR ucast (count_class8 a)"
    unfolding load_le_2_index using ab by (intro nth_init_count_class16)
  also have "\<dots> = load_le [count_class8 a, count_class8 b]"
    by (simp add: or.commute)
  finally show ?thesis by (simp add: store_load_le del: load_le.simps)
qed

lemma list8:
  assumes "length bs = 8"
  obtains b0 b1 b2 b3 b4 b5 b6 b7 where "bs = [b0, b1, b2, b3, b4, b5, b6, b7]"
proof -
  have "bs = map ((!) bs) [0..<8]" using assms by (metis map_nth)
  then have "bs = [bs ! 0, bs ! 1, bs ! 2, bs ! 3, bs ! 4, bs ! 5, bs ! 6, bs ! 7]"
    by (simp add: upt_rec numeral_eq_Suc)
  then show ?thesis by (rule that)
qed

lemma list4:
  assumes "length bs = 4"
  obtains b0 b1 b2 b3 where "bs = [b0, b1, b2, b3]"
proof -
  have "bs = map ((!) bs) [0..<4]" using assms by (metis map_nth)
  then have "bs = [bs ! 0, bs ! 1, bs ! 2, bs ! 3]" by (simp add: upt_rec numeral_eq_Suc)
  then show ?thesis by (rule that)
qed

lemma classify_word64_bytes:
  assumes "length bs = 8"
  shows "store_le 8 (classify_word64 (load_le bs)) = map count_class8 bs"
proof -
  obtain b0 b1 b2 b3 b4 b5 b6 b7 where bs: "bs = [b0, b1, b2, b3, b4, b5, b6, b7]"
    using list8 [OF assms] .
  have "classify_word64 (load_le bs) = load_le (map count_class8 bs)"
    unfolding classify_word64_def Let_def
    by (subst (1 2 3 4) store_load_le) (simp_all add: bs class16_bytes del: load_le.simps)
  then show ?thesis using assms by (simp add: store_load_le)
qed

lemma classify_word32_bytes:
  assumes "length bs = 4"
  shows "store_le 4 (classify_word32 (load_le bs)) = map count_class8 bs"
proof -
  obtain b0 b1 b2 b3 where bs: "bs = [b0, b1, b2, b3]" using list4 [OF assms] .
  have "classify_word32 (load_le bs) = load_le (map count_class8 bs)"
    unfolding classify_word32_def Let_def
    by (subst (1 2) store_load_le) (simp_all add: bs class16_bytes del: load_le.simps)
  then show ?thesis using assms by (simp add: store_load_le)
qed


lemma and_zero_keep: "c AND v = 0 \<Longrightarrow> v AND NOT c = (v :: u8)"
proof (rule bit_word_eqI)
  fix n assume "c AND v = 0" "n < LENGTH(8)"
  then have "\<not> bit (c AND v) n" by simp
  then show "bit (v AND NOT c) n = bit v n"
    using \<open>n < LENGTH(8)\<close> by (auto simp: bit_and_iff bit_not_iff)
qed

lemma clear_seen_not_fresh:
  "\<not> fresh_hit cs vs \<Longrightarrow> length cs = length vs \<Longrightarrow> clear_seen cs vs = vs"
  by (rule nth_equalityI) (auto simp: clear_seen_def fresh_hit_def and_zero_keep)

lemma word_and_fresh:
  assumes "length cs = length vs" and "8 * length vs \<le> LENGTH('a)"
  shows "(load_le cs AND load_le vs :: 'a::len word) \<noteq> 0 \<longleftrightarrow> fresh_hit cs vs"
proof -
  have "(load_le cs AND load_le vs :: 'a word) = load_le (map2 (AND) cs vs)"
    using assms(1) by (rule load_le_and)
  then have "(load_le cs AND load_le vs :: 'a word) \<noteq> 0 \<longleftrightarrow> (\<exists>b \<in> set (map2 (AND) cs vs). b \<noteq> 0)"
    using load_le_eq_0_iff [where ?'a = 'a, of "map2 (AND) cs vs"] assms by simp
  also have "\<dots> \<longleftrightarrow> fresh_hit cs vs"
    using assms(1) by (auto simp: fresh_hit_def set_conv_nth) 
  finally show ?thesis .
qed

lemma store_clear_seen:
  assumes "length cs = n" and "length vs = n" and "8 * n = LENGTH('a)"
  shows "store_le n (load_le vs AND NOT (load_le cs) :: 'a::len word) = clear_seen cs vs"
proof -
  have "(load_le vs AND NOT (load_le cs) :: 'a word) = load_le (clear_seen cs vs)"
    unfolding clear_seen_def using assms by (intro load_le_and_not) simp_all
  then show ?thesis using assms by (simp add: store_load_le)
qed

lemma zero_not_fresh: "\<forall>b \<in> set cs. b = 0 \<Longrightarrow> \<not> fresh_hit cs vs"
  by (auto simp: fresh_hit_def all_set_conv_all_nth)

lemma pristine_hit_8:
  "length cs = 8 \<Longrightarrow> length vs = 8 \<Longrightarrow> pristine_hit cs vs \<longleftrightarrow>
     (cs ! 0 \<noteq> 0 \<and> vs ! 0 = 0xff) \<or> (cs ! 1 \<noteq> 0 \<and> vs ! 1 = 0xff)
   \<or> (cs ! 2 \<noteq> 0 \<and> vs ! 2 = 0xff) \<or> (cs ! 3 \<noteq> 0 \<and> vs ! 3 = 0xff)
   \<or> (cs ! 4 \<noteq> 0 \<and> vs ! 4 = 0xff) \<or> (cs ! 5 \<noteq> 0 \<and> vs ! 5 = 0xff)
   \<or> (cs ! 6 \<noteq> 0 \<and> vs ! 6 = 0xff) \<or> (cs ! 7 \<noteq> 0 \<and> vs ! 7 = 0xff)"
  by (simp add: pristine_hit_def numeral_eq_Suc Ex_less_Suc2)

lemma pristine_hit_4:
  "length cs = 4 \<Longrightarrow> length vs = 4 \<Longrightarrow> pristine_hit cs vs \<longleftrightarrow>
     (cs ! 0 \<noteq> 0 \<and> vs ! 0 = 0xff) \<or> (cs ! 1 \<noteq> 0 \<and> vs ! 1 = 0xff)
   \<or> (cs ! 2 \<noteq> 0 \<and> vs ! 2 = 0xff) \<or> (cs ! 3 \<noteq> 0 \<and> vs ! 3 = 0xff)"
  by (simp add: pristine_hit_def numeral_eq_Suc Ex_less_Suc2)

lemma le_2_cases: "ret \<le> (2 :: u8) \<Longrightarrow> \<not> ret < 2 \<Longrightarrow> ret = 2"
  by simp

lemma max_verdict:
  assumes "ret \<le> (2 :: u8)" and "fresh_hit cs vs"
  shows "(if ret < 2 then if pristine_hit cs vs then 2 else 1 else ret) = max ret (verdict cs vs)"
proof (cases "ret < 2")
  case True
  then have "unat ret < 2" by (simp add: word_less_nat_alt)
  then have "ret \<le> 1" by (simp add: word_le_nat_alt)
  then show ?thesis using True assms(2) by (auto simp: verdict_def max_def)
next
  case False
  with assms(1) have "ret = 2" by (simp add: le_2_cases)
  then show ?thesis by (auto simp: verdict_def max_def word_le_nat_alt)
qed

lemma visit64_bytes:
  assumes "length cs = 8" and "length vs = 8" and "ret \<le> 2"
  shows "visit64 ret cs vs = (max ret (verdict cs vs), clear_seen cs vs)"
proof (cases "fresh_hit cs vs")
  case True
  then have "(load_le cs :: u64) \<noteq> 0"
    using zero_not_fresh load_le_eq_0_iff [of cs, where ?'a = 64] assms by auto
  moreover have "(load_le cs AND load_le vs :: u64) \<noteq> 0"
    using True assms by (subst word_and_fresh) simp_all
  moreover have "store_le 8 (load_le cs :: u64) = cs" "store_le 8 (load_le vs :: u64) = vs"
    using assms by (simp_all add: store_load_le)
  ultimately show ?thesis
    using max_verdict [OF assms(3) True] store_clear_seen [of cs 8 vs, where ?'a = 64] assms
    by (simp add: visit64_def discover_word64_def Let_def pristine_hit_8 split del: if_split cong: if_cong)
next
  case False
  then have "(load_le cs AND load_le vs :: u64) = 0"
    using word_and_fresh [of cs vs, where ?'a = 64] assms by simp
  moreover have "max ret 0 = ret" "store_le 8 (load_le vs :: u64) = vs"
    using assms by (simp_all add: store_load_le max_def)
  ultimately show ?thesis
    using False assms by (simp add: visit64_def discover_word64_def clear_seen_not_fresh
        verdict_eq_0_iff [THEN iffD2])
qed

lemma visit32_bytes:
  assumes "length cs = 4" and "length vs = 4" and "ret \<le> 2"
  shows "visit32 ret cs vs = (max ret (verdict cs vs), clear_seen cs vs)"
proof (cases "fresh_hit cs vs")
  case True
  then have "(load_le cs :: u32) \<noteq> 0"
    using zero_not_fresh load_le_eq_0_iff [of cs, where ?'a = 32] assms by auto
  moreover have "(load_le cs AND load_le vs :: u32) \<noteq> 0"
    using True assms by (subst word_and_fresh) simp_all
  moreover have "store_le 4 (load_le cs :: u32) = cs" "store_le 4 (load_le vs :: u32) = vs"
    using assms by (simp_all add: store_load_le)
  ultimately show ?thesis
    using max_verdict [OF assms(3) True] store_clear_seen [of cs 4 vs, where ?'a = 32] assms
    by (simp add: visit32_def discover_word32_def Let_def pristine_hit_4 split del: if_split cong: if_cong)
next
  case False
  then have "(load_le cs AND load_le vs :: u32) = 0"
    using word_and_fresh [of cs vs, where ?'a = 32] assms by simp
  moreover have "max ret 0 = ret" "store_le 4 (load_le vs :: u32) = vs"
    using assms by (simp_all add: store_load_le max_def)
  ultimately show ?thesis
    using False assms by (simp add: visit32_def discover_word32_def clear_seen_not_fresh
        verdict_eq_0_iff [THEN iffD2])
qed

lemma map_class_zero: "\<forall>b \<in> set bs. b = 0 \<Longrightarrow> map count_class8 bs = bs"
  by (induction bs) auto

abbreviation classify64 :: "u8 list \<Rightarrow> u8 list" where
  "classify64 mem \<equiv> if (load_le mem :: u64) \<noteq> 0 then store_le 8 (classify_word64 (load_le mem)) else mem"

abbreviation classify32 :: "u8 list \<Rightarrow> u8 list" where
  "classify32 mem \<equiv> if (load_le mem :: u32) \<noteq> 0 then store_le 4 (classify_word32 (load_le mem)) else mem"

lemma probe64_bytes:
  assumes "length cs = 8" and "length vs = 8"
  shows "probe64 cs vs \<longleftrightarrow> fresh_hit (map count_class8 cs) vs"
proof -
  have "classify_word64 (load_le cs) = load_le (map count_class8 cs)"
    using classify_word64_bytes [OF assms(1)] load_store_le [of 8 "classify_word64 (load_le cs)"] by simp
  moreover have "\<not> fresh_hit (map count_class8 cs) vs" if "(load_le cs :: u64) = 0"
    using that load_le_eq_0_iff [of cs, where ?'a = 64] map_class_zero [of cs] zero_not_fresh assms by simp
  ultimately show ?thesis
    using assms word_and_fresh [of "map count_class8 cs" vs, where ?'a = 64] by (auto simp: probe64_def)
qed

lemma probe32_bytes:
  assumes "length cs = 4" and "length vs = 4"
  shows "probe32 cs vs \<longleftrightarrow> fresh_hit (map count_class8 cs) vs"
proof -
  have "classify_word32 (load_le cs) = load_le (map count_class8 cs)"
    using classify_word32_bytes [OF assms(1)] load_store_le [of 4 "classify_word32 (load_le cs)"] by simp
  moreover have "\<not> fresh_hit (map count_class8 cs) vs" if "(load_le cs :: u32) = 0"
    using that load_le_eq_0_iff [of cs, where ?'a = 32] map_class_zero [of cs] zero_not_fresh assms by simp
  ultimately show ?thesis
    using assms word_and_fresh [of "map count_class8 cs" vs, where ?'a = 32] by (auto simp: probe32_def)
qed

interpretation cov64: coverage_probe 8 classify64 visit64 probe64
proof unfold_locales
  fix bs :: "u8 list" assume "length bs = 8"
  then show "classify64 bs = map count_class8 bs"
    using load_le_eq_0_iff [of bs, where ?'a = 64] map_class_zero [of bs]
    by (simp add: classify_word64_bytes)
qed (simp_all add: visit64_bytes probe64_bytes)

interpretation cov32: coverage_probe 4 classify32 visit32 probe32
proof unfold_locales
  fix bs :: "u8 list" assume "length bs = 4"
  then show "classify32 bs = map count_class8 bs"
    using load_le_eq_0_iff [of bs, where ?'a = 32] map_class_zero [of bs]
    by (simp add: classify_word32_bytes)
qed (simp_all add: visit32_bytes probe32_bytes)

end
