(* ===== verification/Bitmap.thy ===== *)
theory Bitmap
  imports Coverage
begin

text \<open>
  The coverage state of a fuzzer and the map routines of \<^verbatim>\<open>src/afl-fuzz-bitmap.c\<close> over
  it: \<^verbatim>\<open>count_bits\<close>, \<^verbatim>\<open>count_bytes\<close>, \<^verbatim>\<open>count_non_255_bytes\<close>, \<^verbatim>\<open>has_new_bits\<close>,
  \<^verbatim>\<open>has_new_bits_unclassified\<close>, \<^verbatim>\<open>minimize_bits\<close>, \<^verbatim>\<open>write_bitmap\<close>, with the passes
  of the 64-bit build.
\<close>

section \<open>State\<close>

text \<open>
  The fields of \<^verbatim>\<open>afl_state_t\<close> and its \<^verbatim>\<open>fsrv\<close> that the map routines touch. The three
  virgin maps are separate buffers; \<open>virgin_map\<close> names the one a call is given.
\<close>

record coverage =
  map_size :: nat
  trace_bits :: "u8 list"
  virgin_bits :: "u8 list"
  virgin_tmout :: "u8 list"
  virgin_crash :: "u8 list"
  bitmap_changed :: bool

datatype virgin_map = Virgin_Bits | Virgin_Tmout | Virgin_Crash

fun get_virgin :: "virgin_map \<Rightarrow> 'a coverage_scheme \<Rightarrow> u8 list" where
  "get_virgin Virgin_Bits s = virgin_bits s"
| "get_virgin Virgin_Tmout s = virgin_tmout s"
| "get_virgin Virgin_Crash s = virgin_crash s"

fun put_virgin :: "virgin_map \<Rightarrow> u8 list \<Rightarrow> 'a coverage_scheme \<Rightarrow> 'a coverage_scheme" where
  "put_virgin Virgin_Bits v s = s\<lparr>virgin_bits := v\<rparr>"
| "put_virgin Virgin_Tmout v s = s\<lparr>virgin_tmout := v\<rparr>"
| "put_virgin Virgin_Crash v s = s\<lparr>virgin_crash := v\<rparr>"

section \<open>Passes over the trace\<close>

definition classify_counts :: "'a coverage_scheme \<Rightarrow> 'a coverage_scheme" where
  "classify_counts s = s\<lparr>trace_bits := classify_counts64 (map_size s) (trace_bits s)\<rparr>"

definition simplify_trace :: "'a coverage_scheme \<Rightarrow> 'a coverage_scheme" where
  "simplify_trace s = s\<lparr>trace_bits := simplify_trace64 (map_size s) (trace_bits s)\<rparr>"

definition has_new_bits :: "virgin_map \<Rightarrow> 'a coverage_scheme \<Rightarrow> u8 \<times> 'a coverage_scheme" where
  "has_new_bits m s =
     (case scan64 (map_size s) (trace_bits s) (get_virgin m s) of (ret, v) \<Rightarrow>
       let s = put_virgin m v s
       in if ret \<noteq> 0 \<and> m = Virgin_Bits then (ret, s\<lparr>bitmap_changed := True\<rparr>) else (ret, s))"

definition has_new_bits_unclassified :: "virgin_map \<Rightarrow> 'a coverage_scheme \<Rightarrow> u8 \<times> 'a coverage_scheme" where
  "has_new_bits_unclassified m s =
     (if \<not> skim64 (get_virgin m s) (trace_bits s) (map_size s) then (0, s)
      else has_new_bits m (classify_counts s))"

text \<open>\<^verbatim>\<open>write_bitmap\<close>: what is written to \<^verbatim>\<open>fuzz_bitmap\<close>, if anything.\<close>

definition write_bitmap :: "'a coverage_scheme \<Rightarrow> u8 list option \<times> 'a coverage_scheme" where
  "write_bitmap s =
     (if \<not> bitmap_changed s then (None, s)
      else (Some (take (map_size s) (virgin_bits s)), s\<lparr>bitmap_changed := False\<rparr>))"

section \<open>Counting\<close>

fun count_loop :: "(u32 \<Rightarrow> u32) \<Rightarrow> nat \<Rightarrow> u8 list \<Rightarrow> u32 \<Rightarrow> u32" where
  "count_loop f 0 mem ret = ret"
| "count_loop f (Suc i) mem ret = count_loop f i (drop 4 mem) (ret + f (load_le (take 4 mem)))"

definition count_bits_word :: "u32 \<Rightarrow> u32" where
  "count_bits_word v =
     (if v = 0xffffffff then 32
      else let v = v - (drop_bit 1 v AND 0x55555555);
               v = (v AND 0x33333333) + (drop_bit 2 v AND 0x33333333)
           in drop_bit 24 (((v + drop_bit 4 v) AND 0xF0F0F0F) * 0x01010101))"

definition count_bits :: "nat \<Rightarrow> u8 list \<Rightarrow> u32" where
  "count_bits n mem = count_loop count_bits_word (n div 4) mem 0"

definition count_bytes_word :: "u32 \<Rightarrow> u32" where
  "count_bytes_word v =
     (if v = 0 then 0
      else (if v AND 0x000000ff \<noteq> 0 then 1 else 0)
         + (if v AND 0x0000ff00 \<noteq> 0 then 1 else 0)
         + (if v AND 0x00ff0000 \<noteq> 0 then 1 else 0)
         + (if v AND 0xff000000 \<noteq> 0 then 1 else 0))"

definition count_bytes :: "nat \<Rightarrow> u8 list \<Rightarrow> u32" where
  "count_bytes n mem = count_loop count_bytes_word (n div 4) mem 0"

definition count_non_255_word :: "u32 \<Rightarrow> u32" where
  "count_non_255_word v =
     (if v = 0xffffffff then 0
      else (if v AND 0x000000ff \<noteq> 0x000000ff then 1 else 0)
         + (if v AND 0x0000ff00 \<noteq> 0x0000ff00 then 1 else 0)
         + (if v AND 0x00ff0000 \<noteq> 0x00ff0000 then 1 else 0)
         + (if v AND 0xff000000 \<noteq> 0xff000000 then 1 else 0))"

definition count_non_255_bytes :: "nat \<Rightarrow> u8 list \<Rightarrow> u32" where
  "count_non_255_bytes n mem = count_loop count_non_255_word (n div 4) mem 0"

section \<open>minimize_bits\<close>

definition minimize_bits :: "nat \<Rightarrow> u8 list \<Rightarrow> u8 list \<Rightarrow> u8 list" where
  "minimize_bits n dst src =
     fold (\<lambda>i dst. if src ! i \<noteq> 0
                   then dst[drop_bit 3 i := dst ! drop_bit 3 i OR push_bit (i AND 7) 1] else dst)
       [0..<n] dst"

section \<open>Specifications of the passes\<close>

lemma classify_counts64_map:
  "8 * (n div 8) \<le> length mem \<Longrightarrow>
    classify_counts64 n mem = map count_class8 (take (8 * (n div 8)) mem) @ drop (8 * (n div 8)) mem"
  unfolding classify_counts64_def by (rule cov64.classify_map_words)

lemma classify_counts32_map:
  "4 * (n div 4) \<le> length mem \<Longrightarrow>
    classify_counts32 n mem = map count_class8 (take (4 * (n div 4)) mem) @ drop (4 * (n div 4)) mem"
  unfolding classify_counts32_def by (rule cov32.classify_map_words)

lemma simplify_trace64_map:
  assumes "8 * (n div 8) \<le> length mem"
  shows "simplify_trace64 n mem = map simplify8 (take (8 * (n div 8)) mem) @ drop (8 * (n div 8)) mem"
  unfolding simplify_trace64_def
proof (rule map_words_map [OF _ assms])
  fix bs :: "u8 list" assume len: "length bs = 8"
  obtain b0 b1 b2 b3 b4 b5 b6 b7 where bs: "bs = [b0, b1, b2, b3, b4, b5, b6, b7]"
    using list8 [OF len] .
  have "store_le 8 (0x0101010101010101 :: u64) = map simplify8 bs" if "\<forall>b \<in> set bs. b = 0"
  proof -
    have "store_le 8 (0x0101010101010101 :: u64) = replicate 8 1" by code_simp
    moreover have "map simplify8 bs = replicate 8 1"
      using that len unfolding simplify8_cases by (simp add: map_replicate_const cong: map_cong)
    ultimately show ?thesis by simp
  qed
  then show "(if (load_le bs :: u64) \<noteq> 0
         then [simplify8 (bs ! 0), simplify8 (bs ! 1), simplify8 (bs ! 2), simplify8 (bs ! 3),
               simplify8 (bs ! 4), simplify8 (bs ! 5), simplify8 (bs ! 6), simplify8 (bs ! 7)]
         else store_le 8 (0x0101010101010101 :: u64)) = map simplify8 bs"
    using load_le_eq_0_iff [of bs, where ?'a = 64] len by (auto simp: bs)
qed

lemma simplify_trace32_map:
  assumes "4 * (n div 4) \<le> length mem"
  shows "simplify_trace32 n mem = map simplify8 (take (4 * (n div 4)) mem) @ drop (4 * (n div 4)) mem"
  unfolding simplify_trace32_def
proof (rule map_words_map [OF _ assms])
  fix bs :: "u8 list" assume len: "length bs = 4"
  obtain b0 b1 b2 b3 where bs: "bs = [b0, b1, b2, b3]" using list4 [OF len] .
  have "store_le 4 (0x01010101 :: u32) = map simplify8 bs" if "\<forall>b \<in> set bs. b = 0"
  proof -
    have "store_le 4 (0x01010101 :: u32) = replicate 4 1" by code_simp
    moreover have "map simplify8 bs = replicate 4 1"
      using that len unfolding simplify8_cases by (simp add: map_replicate_const cong: map_cong)
    ultimately show ?thesis by simp
  qed
  then show "(if (load_le bs :: u32) \<noteq> 0
         then [simplify8 (bs ! 0), simplify8 (bs ! 1), simplify8 (bs ! 2), simplify8 (bs ! 3)]
         else store_le 4 (0x01010101 :: u32)) = map simplify8 bs"
    using load_le_eq_0_iff [of bs, where ?'a = 32] len by (auto simp: bs)
qed

text \<open>
  The hit-count classes as the table defines them. A tuple that was hit 64 to 127 times,
  or 192 to 255 times, falls into class 0, the class of a tuple that was not hit at all.
\<close>

theorem count_class_of_hits:
  "count_class8 b =
     (if b = 0 then 0 else if b = 1 then 1 else if b = 2 then 2 else if b = 3 then 4
      else if b < 8 then 8 else if b < 16 then 16 else if b < 32 then 32 else if b < 64 then 64
      else if b < 128 then 0 else if b < 192 then 128 else 0)"
proof -
  have b: "unat b < 256" using unat_lt2p [of b] by simp
  have "b = 0 \<longleftrightarrow> unat b = 0" "b = 1 \<longleftrightarrow> unat b = 1" "b = 2 \<longleftrightarrow> unat b = 2" "b = 3 \<longleftrightarrow> unat b = 3"
    by (simp_all add: word_unat_eq_iff)
  moreover have "b < 8 \<longleftrightarrow> unat b < 8" "b < 16 \<longleftrightarrow> unat b < 16" "b < 32 \<longleftrightarrow> unat b < 32"
    "b < 64 \<longleftrightarrow> unat b < 64" "b < 128 \<longleftrightarrow> unat b < 128" "b < 192 \<longleftrightarrow> unat b < 192"
    by (simp_all add: word_less_nat_alt)
  ultimately show ?thesis using count_class8_cases [OF b] by simp
qed

text \<open>
  C8: for maps of a whole number of 64-bit words the 32-bit and the 64-bit builds compute the
  same classified trace, the same simplified trace, and the same verdict and virgin map.
\<close>

theorem flavours_agree:
  assumes "8 dvd n" and "length tr = n" and "length vs = n"
  shows "classify_counts64 n tr = classify_counts32 n tr
    \<and> simplify_trace64 n tr = simplify_trace32 n tr
    \<and> scan64 n tr vs = scan32 n tr vs"
proof -
  have d: "8 * (n div 8) = n" "4 * (n div 4) = n" using assms(1) by auto
  have "scan64 n tr vs = (verdict tr vs, clear_seen tr vs)"
    using cov64.scan_bytes [of tr "n div 8" vs 0] d assms by (simp add: scan64_def max_def)
  moreover have "scan32 n tr vs = (verdict tr vs, clear_seen tr vs)"
    using cov32.scan_bytes [of tr "n div 4" vs 0] d assms by (simp add: scan32_def max_def)
  ultimately show ?thesis
    using d assms by (simp add: classify_counts64_map classify_counts32_map
        simplify_trace64_map simplify_trace32_map)
qed


section \<open>What the scan for new bits guarantees\<close>

text \<open>Map and buffers agree in size; \<^verbatim>\<open>afl_shm_init\<close> and the map negotiation of the fork
  server give whole multiples of 64 bytes.\<close>

definition wf_map :: "nat \<Rightarrow> virgin_map \<Rightarrow> 'a coverage_scheme \<Rightarrow> bool" where
  "wf_map k m s \<longleftrightarrow> k dvd map_size s \<and> length (trace_bits s) = map_size s
     \<and> length (get_virgin m s) = map_size s"

lemma get_put_virgin [simp]: "get_virgin m (put_virgin m v s) = v"
  by (cases m) simp_all

lemma put_virgin_simps [simp]:
  "map_size (put_virgin m v s) = map_size s" "trace_bits (put_virgin m v s) = trace_bits s"
  "bitmap_changed (put_virgin m v s) = bitmap_changed s"
  by (cases m; simp)+

lemma put_get_virgin [simp]: "put_virgin m (get_virgin m s) s = s"
  by (cases m) simp_all

lemma get_virgin_update [simp]:
  "get_virgin m (s\<lparr>bitmap_changed := b\<rparr>) = get_virgin m s"
  "get_virgin m (s\<lparr>trace_bits := t\<rparr>) = get_virgin m s"
  by (cases m; simp)+

lemma scan64_spec:
  assumes "wf_map 8 m s"
  shows "scan64 (map_size s) (trace_bits s) (get_virgin m s)
    = (verdict (trace_bits s) (get_virgin m s), clear_seen (trace_bits s) (get_virgin m s))"
  using cov64.scan_bytes [of "trace_bits s" "map_size s div 8" "get_virgin m s" 0] assms
  by (simp add: scan64_def wf_map_def max_def)

lemma has_new_bits_eq:
  assumes "wf_map 8 m s"
  shows "has_new_bits m s =
    (verdict (trace_bits s) (get_virgin m s),
     (put_virgin m (clear_seen (trace_bits s) (get_virgin m s)) s)
       \<lparr>bitmap_changed := bitmap_changed s
          \<or> m = Virgin_Bits \<and> verdict (trace_bits s) (get_virgin m s) \<noteq> 0\<rparr>)"
  unfolding has_new_bits_def scan64_spec [OF assms]
  by (cases m) (auto simp: Let_def)

text \<open>
  C1: \<^verbatim>\<open>has_new_bits\<close> returns 2 when some tuple is hit whose virgin byte is untouched, 1 when
  otherwise some hit bit is still virgin, 0 else; it clears exactly the hit bits from the
  virgin map it is given, and marks the bitmap changed only for the main virgin map.
\<close>

theorem has_new_bits_spec:
  assumes "wf_map 8 m s"
  shows "has_new_bits m s =
    (verdict (trace_bits s) (get_virgin m s),
     (put_virgin m (clear_seen (trace_bits s) (get_virgin m s)) s)
       \<lparr>bitmap_changed := bitmap_changed s
          \<or> m = Virgin_Bits \<and> verdict (trace_bits s) (get_virgin m s) \<noteq> 0\<rparr>)"
  using assms by (rule has_new_bits_eq)

lemma seen_not_fresh: "\<not> fresh_hit cs (clear_seen cs vs)"
proof -
  have "c AND (v AND NOT c) = 0" for c v :: u8
    by (rule bit_word_eqI) (auto simp: bit_and_iff bit_not_iff)
  then show ?thesis by (auto simp: fresh_hit_def clear_seen_def)
qed

text \<open>
  After a call the same trace brings nothing new: a second call on any of the maps returns 0
  and leaves the state as it is.
\<close>

theorem has_new_bits_idempotent:
  assumes "wf_map 8 m s"
  shows "has_new_bits m (snd (has_new_bits m s)) = (0, snd (has_new_bits m s))"
proof -
  let ?v = "clear_seen (trace_bits s) (get_virgin m s)"
  let ?s = "snd (has_new_bits m s)"
  have s: "trace_bits ?s = trace_bits s" "get_virgin m ?s = ?v" "wf_map 8 m ?s"
    using assms by (simp_all add: has_new_bits_eq wf_map_def)
  have v: "verdict (trace_bits s) ?v = 0" "clear_seen (trace_bits s) ?v = ?v"
    using seen_not_fresh assms by (simp_all add: verdict_eq_0_iff clear_seen_not_fresh wf_map_def)
  have "has_new_bits m ?s = (0, (put_virgin m ?v ?s)\<lparr>bitmap_changed := bitmap_changed ?s\<rparr>)"
    using has_new_bits_eq [OF s(3)] unfolding s(1,2) v by simp
  also have "put_virgin m ?v ?s = ?s" using s(2) put_get_virgin [of m ?s] by simp
  finally show ?thesis by simp
qed

lemma skim64_spec:
  assumes "wf_map 32 m s"
  shows "skim64 (get_virgin m s) (trace_bits s) (map_size s)
    \<longleftrightarrow> fresh_hit (map count_class8 (trace_bits s)) (get_virgin m s)"
  using cov64.skim_fresh [of "get_virgin m s" "map_size s div 32" "trace_bits s"] assms
  by (simp add: skim64_def wf_map_def)

lemma classify_counts_trace:
  assumes "wf_map 8 m s"
  shows "classify_counts s = s\<lparr>trace_bits := map count_class8 (trace_bits s)\<rparr>"
  using assms classify_counts64_map [of "map_size s" "trace_bits s"]
  by (simp add: classify_counts_def wf_map_def)

lemma has_new_bits_unclassified_eq:
  assumes "wf_map 32 m s"
  shows "has_new_bits_unclassified m s =
    (case has_new_bits m (classify_counts s) of (r, s') \<Rightarrow> if r = 0 then (0, s) else (r, s'))"
proof -
  have wf: "wf_map 8 m s" using assms by (auto simp: wf_map_def intro: dvd_trans)
  let ?s = "classify_counts s"
  have tr: "trace_bits ?s = map count_class8 (trace_bits s)" "get_virgin m ?s = get_virgin m s"
    by (simp_all add: classify_counts_trace [OF wf])
  have "wf_map 8 m ?s" using wf by (simp add: classify_counts_trace [OF wf] wf_map_def)
  then have "fst (has_new_bits m ?s) = verdict (map count_class8 (trace_bits s)) (get_virgin m s)"
    by (simp add: has_new_bits_eq tr)
  then have "skim64 (get_virgin m s) (trace_bits s) (map_size s) \<longleftrightarrow> fst (has_new_bits m ?s) \<noteq> 0"
    by (simp add: skim64_spec [OF assms] verdict_eq_0_iff)
  then show ?thesis
    by (auto simp: has_new_bits_unclassified_def split: prod.splits)
qed

text \<open>
  C2: the fast path \<^verbatim>\<open>has_new_bits_unclassified\<close> is \<^verbatim>\<open>classify_counts\<close> followed by
  \<^verbatim>\<open>has_new_bits\<close>, except that a run without news leaves the whole state, the raw trace
  included, untouched.
\<close>

theorem has_new_bits_unclassified_refines:
  assumes "wf_map 32 m s"
  shows "has_new_bits_unclassified m s =
    (case has_new_bits m (classify_counts s) of (r, s') \<Rightarrow> if r = 0 then (0, s) else (r, s'))"
  by (rule has_new_bits_unclassified_eq [OF assms])

text \<open>
  A run whose tuples are all hit 64 to 127 or 192 to 255 times is never news, even on an
  untouched virgin map: the classes of the table hide it from the fuzzer.
\<close>

theorem hot_tuples_are_lost:
  assumes "wf_map 32 m s"
    and "\<forall>b \<in> set (trace_bits s). b = 0 \<or> 64 \<le> b \<and> b < 128 \<or> 192 \<le> b"
  shows "has_new_bits_unclassified m s = (0, s)"
proof -
  have "count_class8 b = 0" if "b = 0 \<or> 64 \<le> b \<and> b < 128 \<or> 192 \<le> b" for b
  proof -
    have b: "unat b < 256" using unat_lt2p [of b] by simp
    show ?thesis
      using that count_class8_cases [OF b] by (auto simp: word_le_nat_alt word_less_nat_alt unat_0_iff)
  qed
  then have "\<forall>c \<in> set (map count_class8 (trace_bits s)). c = 0" using assms(2) by auto
  then show ?thesis
    using skim64_spec [OF assms(1)] zero_not_fresh
    by (simp add: has_new_bits_unclassified_def)
qed

definition fresh_state :: "u8 list \<Rightarrow> coverage" where
  "fresh_state tr = \<lparr>map_size = length tr, trace_bits = tr,
     virgin_bits = replicate (length tr) 0xff, virgin_tmout = replicate (length tr) 0xff,
     virgin_crash = replicate (length tr) 0xff, bitmap_changed = False\<rparr>"

theorem hot_tuples_are_lost_witness:
  "has_new_bits_unclassified Virgin_Bits (fresh_state (64 # replicate 31 0))
     = (0, fresh_state (64 # replicate 31 0))"
  by (rule hot_tuples_are_lost) (simp_all add: wf_map_def fresh_state_def)

theorem has_new_bits_unclassified_refines_witness:
  "has_new_bits_unclassified Virgin_Bits (fresh_state (5 # replicate 31 0)) =
    (case has_new_bits Virgin_Bits (classify_counts (fresh_state (5 # replicate 31 0))) of
       (r, s') \<Rightarrow> if r = 0 then (0, fresh_state (5 # replicate 31 0)) else (r, s'))"
  by (rule has_new_bits_unclassified_refines) (simp add: wf_map_def fresh_state_def)

theorem has_new_bits_spec_witness:
  "fst (has_new_bits Virgin_Crash (fresh_state (5 # replicate 7 0))) = 2"
proof -
  have wf: "wf_map 8 Virgin_Crash (fresh_state (5 # replicate 7 0))"
    by (simp add: wf_map_def fresh_state_def)
  have "pristine_hit (5 # replicate 7 0) (replicate 8 0xff)"
    unfolding pristine_hit_def by (intro exI [of _ 0]) simp
  then show ?thesis
    using has_new_bits_spec [OF wf] by (simp add: fresh_state_def verdict_def)
qed

theorem has_new_bits_idempotent_witness:
  "has_new_bits Virgin_Bits (snd (has_new_bits Virgin_Bits (fresh_state (replicate 8 1))))
     = (0, snd (has_new_bits Virgin_Bits (fresh_state (replicate 8 1))))"
  by (rule has_new_bits_idempotent) (simp add: wf_map_def fresh_state_def)

theorem flavours_agree_witness:
  "scan64 8 [1, 0, 0, 0, 0, 0, 0, 7] (replicate 8 255) = scan32 8 [1, 0, 0, 0, 0, 0, 0, 7] (replicate 8 255)"
  using flavours_agree [of 8 "[1, 0, 0, 0, 0, 0, 0, 7]" "replicate 8 255"] by simp

section \<open>What minimize_bits guarantees\<close>

lemma length_minimize_fold [simp]:
  "length (fold (\<lambda>i dst. if src ! i \<noteq> (0 :: u8)
     then dst[drop_bit 3 i := dst ! drop_bit 3 i OR push_bit (i AND 7) (1 :: u8)] else dst) is dst) = length dst"
  by (induction "is" arbitrary: dst) auto

lemma length_minimize_bits [simp]: "length (minimize_bits n dst src) = length dst"
  by (simp add: minimize_bits_def)

lemma minimize_bits_bit:
  assumes "k < length dst" and "b < 8"
  shows "bit (minimize_bits n dst src ! k) b \<longleftrightarrow>
    bit (dst ! k) b \<or> 8 * k + b < n \<and> src ! (8 * k + b) \<noteq> 0"
proof (induction n)
  case 0
  then show ?case by (simp add: minimize_bits_def)
next
  case (Suc n)
  have seven: "(7 :: nat) = mask 3" by (simp add: mask_eq_exp_minus_1)
  have n: "drop_bit 3 n = n div 8" by (simp add: drop_bit_eq_div)
  have m: "n AND 7 = n mod 8"
    by (simp only: seven take_bit_eq_mask [symmetric] take_bit_eq_mod) simp
  define d where "d = minimize_bits n dst src"
  have step: "minimize_bits (Suc n) dst src =
      (if src ! n \<noteq> 0 then d[n div 8 := d ! (n div 8) OR push_bit (n mod 8) 1] else d)"
    by (simp add: d_def minimize_bits_def n m)
  have pos: "8 * k + b = n \<longleftrightarrow> k = n div 8 \<and> b = n mod 8"
    using assms(2) by auto
  have one: "bit ((2 :: u8) ^ (n mod 8)) b \<longleftrightarrow> b = n mod 8"
    using assms(2) by (auto simp: bit_exp_iff)
  have len: "length d = length dst" by (simp add: d_def)
  have "bit (minimize_bits (Suc n) dst src ! k) b \<longleftrightarrow> bit (d ! k) b \<or> src ! n \<noteq> 0 \<and> 8 * k + b = n"
    using assms(1)
    unfolding step pos
    by (cases "k = n div 8") (simp_all add: nth_list_update bit_or_iff len push_bit_of_1 one)
  also have "bit (d ! k) b \<longleftrightarrow> bit (dst ! k) b \<or> 8 * k + b < n \<and> src ! (8 * k + b) \<noteq> 0"
    using Suc.IH by (simp add: d_def)
  finally show ?case by (auto simp: less_Suc_eq)
qed

text \<open>
  The function \<^verbatim>\<open>minimize_bits\<close> into a zeroed bitmap of \<^verbatim>\<open>map_size >> 3\<close> bytes sets exactly the
  bits of the tuples that were hit.
\<close>

theorem minimize_bits_spec:
  assumes "8 dvd n" and "i < n"
  shows "bit (minimize_bits n (replicate (n div 8) 0) src ! (i div 8)) (i mod 8) \<longleftrightarrow> src ! i \<noteq> 0"
proof -
  have "i div 8 < n div 8" using assms by (metis dvd_mult_div_cancel less_mult_imp_div_less mult.commute)
  then show ?thesis
    using minimize_bits_bit [of "i div 8" "replicate (n div 8) 0" "i mod 8" n src] assms(2) by simp
qed

theorem minimize_bits_spec_witness:
  "bit (minimize_bits 16 (replicate (16 div 8) 0) (replicate 9 0 @ [3] @ replicate 6 0) ! (9 div 8)) (9 mod 8)"
proof -
  have "(replicate 9 0 @ [3 :: u8] @ replicate 6 0) ! 9 \<noteq> 0" by (simp add: nth_append)
  then show ?thesis by (subst minimize_bits_spec) simp_all
qed

end
