(* ===== verification/Tmin.thy ===== *)
theory Tmin
  imports Coverage Alloc_Inl
begin

text \<open>
  The test-case minimizer, \<^verbatim>\<open>src/afl-tmin.c\<close>: classification of the trace, the keep-or-drop
  decision of \<^verbatim>\<open>tmin_run_target\<close>, and the four stages of \<^verbatim>\<open>minimize\<close>. The target is a
  parameter, numbered by execution so that it may be non-deterministic; so is the checksum.
\<close>

section \<open>State\<close>

datatype fsrv_run_result = FSRV_RUN_OK | FSRV_RUN_TMOUT | FSRV_RUN_CRASH | FSRV_RUN_ERROR
  | FSRV_RUN_NOINST | FSRV_RUN_NOBITS

text \<open>What one execution shows: the fork server's verdict, the trace it left in shared
  memory, \<^verbatim>\<open>last_run_timed_out\<close>, and whether Ctrl-C arrived.\<close>

record outcome =
  run_result :: fsrv_run_result
  run_trace :: "u8 list"
  run_timed_out :: bool
  run_stop_soon :: bool

record target =
  exec :: "nat \<Rightarrow> u8 list \<Rightarrow> outcome"
  hash64 :: "u8 list \<Rightarrow> u64"

text \<open>The static variables of the file; \<^verbatim>\<open>in_len\<close> is \<open>length in_data\<close>. The map size never
  changes once the target is up.\<close>

record tmin =
  in_data :: "u8 list"
  tm_trace_bits :: "u8 list"
  tm_map_size :: nat
  mask_bitmap :: "u8 list option"
  orig_cksum :: u64
  crash_mode :: bool
  hang_mode :: bool
  edges_only :: bool
  exact_mode :: bool
  last_run_timed_out :: bool
  missed_hangs :: u32
  missed_crashes :: u32
  missed_paths :: u32
  total_execs :: nat

text \<open>How the process can end early: a fatal error, or the user's abort, which writes
  \<^verbatim>\<open>in_data\<close> to the output file.\<close>

datatype tmin_exit = Died fatal | User_Abort "u8 list"

abbreviation ASCII_0 :: u8 where "ASCII_0 \<equiv> 48"

definition TMIN_MAX_FILE :: nat where "TMIN_MAX_FILE = (10 * 1024 * 1024 :: nat)"
definition TMIN_SET_STEPS :: nat where "TMIN_SET_STEPS = (128 :: nat)"
definition TMIN_SET_MIN_SIZE :: nat where "TMIN_SET_MIN_SIZE = (4 :: nat)"
definition TRIM_START_STEPS :: nat where "TRIM_START_STEPS = (16 :: nat)"

section \<open>The trace\<close>

definition tmin_count_class :: "u8 list" where
  "tmin_count_class = designated 256
     [(0, [0]), (1, [1]), (2, [2]), (3, [4]), (4, replicate 4 8), (8, replicate 8 16),
      (16, replicate 16 32), (32, replicate 32 64), (128, replicate 64 128)]"

definition apply_mask :: "nat \<Rightarrow> u8 list \<Rightarrow> u8 list option \<Rightarrow> u8 list" where
  "apply_mask n mem mbits = (case mbits of None \<Rightarrow> mem
     | Some m \<Rightarrow> fold (\<lambda>i t. take (4 * i) t
          @ store_le 4 (load_le (take 4 (drop (4 * i) t)) AND NOT (load_le (take 4 (drop (4 * i) m)) :: u32))
          @ drop (4 * i + 4) t) [0..<n div 4] mem)"

definition tmin_classify_counts :: "tmin \<Rightarrow> tmin" where
  "tmin_classify_counts s = s\<lparr>tm_trace_bits :=
     (let mem = tm_trace_bits s; n = tm_map_size s in
      (if edges_only s then map (\<lambda>b. if b \<noteq> 0 then 1 else b) (take n mem)
       else map (\<lambda>b. tmin_count_class ! unat b) (take n mem)) @ drop n mem)\<rparr>"

fun any_word :: "nat \<Rightarrow> u8 list \<Rightarrow> bool" where
  "any_word 0 mem = False"
| "any_word (Suc i) mem = ((load_le (take 4 mem) :: u32) \<noteq> 0 \<or> any_word i (drop 4 mem))"

definition anything_set :: "tmin \<Rightarrow> bool" where
  "anything_set s = any_word (tm_map_size s div 4) (tm_trace_bits s)"

section \<open>One execution\<close>

definition tmin_run_target :: "target \<Rightarrow> u8 list \<Rightarrow> bool \<Rightarrow> tmin \<Rightarrow> tmin_exit + (bool \<times> tmin)" where
  "tmin_run_target T mem first_run s =
    (let r = exec T (total_execs s) mem;
         s = s\<lparr>tm_trace_bits := run_trace r, last_run_timed_out := run_timed_out r,
               total_execs := Suc (total_execs s)\<rparr>
     in if run_result r = FSRV_RUN_ERROR then Inl (Died (FATAL ''Couldn't run child''))
     else if run_stop_soon r then Inl (User_Abort (in_data s))
     else if hang_mode s then
       (case run_result r of
          FSRV_RUN_TMOUT \<Rightarrow> Inr (True, s)
        | FSRV_RUN_CRASH \<Rightarrow> Inr (False, s\<lparr>missed_crashes := missed_crashes s + 1\<rparr>)
        | _ \<Rightarrow> Inr (False, s\<lparr>missed_hangs := missed_hangs s + 1\<rparr>))
     else
       let s = tmin_classify_counts s;
           s = s\<lparr>tm_trace_bits := apply_mask (tm_map_size s) (tm_trace_bits s) (mask_bitmap s)\<rparr>
       in if run_result r = FSRV_RUN_TMOUT then Inr (False, s\<lparr>missed_hangs := missed_hangs s + 1\<rparr>)
       else
         let crashed = run_result r = FSRV_RUN_CRASH;
             s = (if crashed \<and> first_run then s\<lparr>crash_mode := True\<rparr> else s)
         in if crashed \<and> crash_mode s \<and> \<not> exact_mode s then Inr (True, s)
         else if crashed \<and> \<not> crash_mode s then Inr (False, s\<lparr>missed_crashes := missed_crashes s + 1\<rparr>)
         else if \<not> crashed \<and> crash_mode s then Inr (False, s\<lparr>missed_paths := missed_paths s + 1\<rparr>)
         else if run_result r = FSRV_RUN_NOINST then Inl (Died (FATAL ''Binary not instrumented?''))
         else
           let cksum = hash64 T (tm_trace_bits s);
               s = (if first_run then s\<lparr>orig_cksum := cksum\<rparr> else s)
           in if orig_cksum s = cksum then Inr (True, s)
              else Inr (False, s\<lparr>missed_paths := missed_paths s + 1\<rparr>))"

section \<open>The stages of minimize\<close>

text \<open>
  Buffers are lists, so \<^verbatim>\<open>tmp_buf\<close> is the value it holds at the call. \<^verbatim>\<open>next_pow2\<close> works on
  64-bit words; lengths are below \<^verbatim>\<open>TMIN_MAX_FILE\<close>, so the unsigned 32-bit arithmetic of the
  loops is exact. A loop whose end is not evident is a partial function: \<open>None\<close> would be a
  run that never ends.
\<close>

definition pow2_len :: "nat \<Rightarrow> nat" where
  "pow2_len n = unat (next_pow2 (of_nat n))"

definition zeroed :: "nat \<Rightarrow> nat \<Rightarrow> u8 list \<Rightarrow> u8 list" where
  "zeroed pos n d = take pos d @ replicate n ASCII_0 @ drop (pos + n) d"

partial_function (option) normalize_loop ::
  "target \<Rightarrow> nat \<Rightarrow> nat \<Rightarrow> tmin \<Rightarrow> (tmin_exit + tmin) option" where
  "normalize_loop T set_len set_pos s =
    (if \<not> set_pos < length (in_data s) then Some (Inr s)
     else
       let use_len = min set_len (length (in_data s) - set_pos)
       in if \<forall>b \<in> set (take use_len (drop set_pos (in_data s))). b = ASCII_0
          then normalize_loop T set_len (set_pos + set_len) s
          else
            case tmin_run_target T (zeroed set_pos use_len (in_data s)) False s of
              Inl e \<Rightarrow> Some (Inl e)
            | Inr (res, s) \<Rightarrow>
                if res then normalize_loop T set_len (set_pos + set_len)
                              (s\<lparr>in_data := zeroed set_pos use_len (in_data s)\<rparr>)
                else normalize_loop T set_len (set_pos + set_len) s)"

definition block_normalization :: "target \<Rightarrow> tmin \<Rightarrow> (tmin_exit + tmin) option" where
  "block_normalization T s =
    (let set_len = pow2_len (length (in_data s) div TMIN_SET_STEPS);
         set_len = (if set_len < TMIN_SET_MIN_SIZE then TMIN_SET_MIN_SIZE else set_len)
     in normalize_loop T set_len 0 s)"

text \<open>\<open>tail_len\<close> is a signed difference clamped at zero: natural subtraction.\<close>

partial_function (option) delete_loop ::
  "target \<Rightarrow> nat \<Rightarrow> nat \<Rightarrow> bool \<Rightarrow> bool \<Rightarrow> tmin \<Rightarrow> (tmin_exit + bool \<times> tmin) option" where
  "delete_loop T del_len del_pos prev_del changed_any s =
    (if \<not> del_pos < length (in_data s) then Some (Inr (changed_any, s))
     else
       let tail_len = length (in_data s) - del_pos - del_len
       in if \<not> prev_del \<and> tail_len \<noteq> 0 \<and>
             take del_len (drop (del_pos - del_len) (in_data s)) = take del_len (drop del_pos (in_data s))
          then delete_loop T del_len (del_pos + del_len) prev_del changed_any s
          else
            let tmp_buf = take del_pos (in_data s) @ take tail_len (drop (del_pos + del_len) (in_data s))
            in case tmin_run_target T tmp_buf False s of
                 Inl e \<Rightarrow> Some (Inl e)
               | Inr (res, s) \<Rightarrow>
                   if res then delete_loop T del_len del_pos True True (s\<lparr>in_data := tmp_buf\<rparr>)
                   else delete_loop T del_len (del_pos + del_len) False changed_any s)"

partial_function (option) delete_blocks ::
  "target \<Rightarrow> nat \<Rightarrow> bool \<Rightarrow> tmin \<Rightarrow> (tmin_exit + bool \<times> tmin) option" where
  "delete_blocks T del_len changed_any s =
    (let del_len = (if del_len = 0 then 1 else del_len)
     in Option.bind (delete_loop T del_len 0 True changed_any s) (\<lambda>r.
       case r of
         Inl e \<Rightarrow> Some (Inl e)
       | Inr (changed_any, s) \<Rightarrow>
           if 1 < del_len \<and> 1 \<le> length (in_data s) then delete_blocks T (del_len div 2) changed_any s
           else Some (Inr (changed_any, s))))"

definition block_deletion :: "target \<Rightarrow> tmin \<Rightarrow> (tmin_exit + bool \<times> tmin) option" where
  "block_deletion T s = delete_blocks T (pow2_len (length (in_data s) div TRIM_START_STEPS)) False s"

text \<open>\<^verbatim>\<open>alpha_map\<close> is filled once, before the loop.\<close>

definition alpha_map :: "u8 list \<Rightarrow> nat list" where
  "alpha_map d = map (\<lambda>i. length (filter (\<lambda>b. unat b = i) d)) [0..<256]"

fun alphabet_loop :: "target \<Rightarrow> nat list \<Rightarrow> nat list \<Rightarrow> bool \<Rightarrow> tmin \<Rightarrow> tmin_exit + bool \<times> tmin" where
  "alphabet_loop T amap [] changed_any s = Inr (changed_any, s)"
| "alphabet_loop T amap (i # is) changed_any s =
    (if i = unat ASCII_0 \<or> amap ! i = 0 then alphabet_loop T amap is changed_any s
     else
       let tmp_buf = map (\<lambda>b. if unat b = i then ASCII_0 else b) (in_data s)
       in case tmin_run_target T tmp_buf False s of
            Inl e \<Rightarrow> Inl e
          | Inr (res, s) \<Rightarrow>
              if res then alphabet_loop T amap is True (s\<lparr>in_data := tmp_buf\<rparr>)
              else alphabet_loop T amap is changed_any s)"

definition alphabet_minimization :: "target \<Rightarrow> bool \<Rightarrow> tmin \<Rightarrow> tmin_exit + bool \<times> tmin" where
  "alphabet_minimization T changed_any s =
     alphabet_loop T (alpha_map (in_data s)) [0..<256] changed_any s"

fun character_loop :: "target \<Rightarrow> nat list \<Rightarrow> u8 list \<Rightarrow> bool \<Rightarrow> tmin \<Rightarrow> tmin_exit + bool \<times> tmin" where
  "character_loop T [] tmp_buf changed_any s = Inr (changed_any, s)"
| "character_loop T (i # is) tmp_buf changed_any s =
    (let orig = tmp_buf ! i
     in if orig = ASCII_0 then character_loop T is tmp_buf changed_any s
     else
       let tmp_buf = tmp_buf[i := ASCII_0]
       in case tmin_run_target T tmp_buf False s of
            Inl e \<Rightarrow> Inl e
          | Inr (res, s) \<Rightarrow>
              if res then character_loop T is tmp_buf True (s\<lparr>in_data := (in_data s)[i := ASCII_0]\<rparr>)
              else character_loop T is (tmp_buf[i := orig]) changed_any s)"

definition character_minimization :: "target \<Rightarrow> bool \<Rightarrow> tmin \<Rightarrow> tmin_exit + bool \<times> tmin" where
  "character_minimization T changed_any s =
     character_loop T [0..<length (in_data s)] (in_data s) changed_any s"

text \<open>From the label \<^verbatim>\<open>next_pass\<close> on.\<close>

partial_function (option) passes :: "target \<Rightarrow> nat \<Rightarrow> tmin \<Rightarrow> (tmin_exit + tmin) option" where
  "passes T cur_pass s =
    (let cur_pass = Suc cur_pass
     in Option.bind (block_deletion T s) (\<lambda>r. case r of
          Inl e \<Rightarrow> Some (Inl e)
        | Inr (changed_any, s) \<Rightarrow>
            if 1 < cur_pass \<and> \<not> changed_any then Some (Inr s)
            else case alphabet_minimization T changed_any s of
              Inl e \<Rightarrow> Some (Inl e)
            | Inr (changed_any, s) \<Rightarrow>
                (case character_minimization T changed_any s of
                   Inl e \<Rightarrow> Some (Inl e)
                 | Inr (changed_any, s) \<Rightarrow>
                     if changed_any then passes T cur_pass s else Some (Inr s))))"

definition minimize :: "target \<Rightarrow> tmin \<Rightarrow> (tmin_exit + tmin) option" where
  "minimize T s = Option.bind (block_normalization T s) (\<lambda>r. case r of
     Inl e \<Rightarrow> Some (Inl e) | Inr s \<Rightarrow> passes T 0 s)"

text \<open>What \<^verbatim>\<open>main\<close> does once the target is up: the dry run, its checks, the minimization.
  The result is the content written to the output file.\<close>

definition tmin_main :: "target \<Rightarrow> tmin \<Rightarrow> (tmin_exit + u8 list) option" where
  "tmin_main T s = (case tmin_run_target T (in_data s) True s of
     Inl e \<Rightarrow> Some (Inl e)
   | Inr (_, s) \<Rightarrow>
       if hang_mode s \<and> \<not> last_run_timed_out s
         then Some (Inl (Died (FATAL ''Target binary did not time out but hang minimization mode was set'')))
       else if last_run_timed_out s \<and> \<not> hang_mode s
         then Some (Inl (Died (FATAL ''Target binary times out'')))
       else if \<not> hang_mode s \<and> \<not> crash_mode s \<and> \<not> anything_set s
         then Some (Inl (Died (FATAL ''No instrumentation detected'')))
       else Option.bind (minimize T s) (\<lambda>r. Some (case r of Inl e \<Rightarrow> Inl e | Inr s \<Rightarrow> Inr (in_data s))))"

text \<open>\<^verbatim>\<open>read_initial_file\<close>: the checks on the input before anything runs.\<close>

definition read_initial_file :: "u8 list option \<Rightarrow> fatal + u8 list" where
  "read_initial_file file = (case file of
     None \<Rightarrow> Inl (PFATAL ''Unable to open'')
   | Some d \<Rightarrow> if length d = 0 then Inl (FATAL ''Zero-sized input file.'')
       else if TMIN_MAX_FILE \<le> length d then Inl (FATAL ''Input file is too large'')
       else Inr d)"

section \<open>What one execution decides\<close>

text \<open>The part of the state that says what is being minimized.\<close>

definition job :: "tmin \<Rightarrow> bool \<times> bool \<times> bool \<times> bool \<times> u64 \<times> u8 list option \<times> nat" where
  "job s = (hang_mode s, crash_mode s, exact_mode s, edges_only s, orig_cksum s, mask_bitmap s, tm_map_size s)"

definition trace_cksum :: "target \<Rightarrow> tmin \<Rightarrow> outcome \<Rightarrow> u64" where
  "trace_cksum T s r = hash64 T (apply_mask (tm_map_size s)
     (tm_trace_bits (tmin_classify_counts (s\<lparr>tm_trace_bits := run_trace r\<rparr>))) (mask_bitmap s))"

definition keeps :: "target \<Rightarrow> tmin \<Rightarrow> outcome \<Rightarrow> bool" where
  "keeps T s r \<longleftrightarrow>
     (if hang_mode s then run_result r = FSRV_RUN_TMOUT
      else if crash_mode s then
        run_result r = FSRV_RUN_CRASH \<and> (exact_mode s \<longrightarrow> trace_cksum T s r = orig_cksum s)
      else run_result r \<in> {FSRV_RUN_OK, FSRV_RUN_NOBITS} \<and> trace_cksum T s r = orig_cksum s)"

lemma classify_counts_fields [simp]:
  "in_data (tmin_classify_counts s) = in_data s" "tm_map_size (tmin_classify_counts s) = tm_map_size s"
  "mask_bitmap (tmin_classify_counts s) = mask_bitmap s" "orig_cksum (tmin_classify_counts s) = orig_cksum s"
  "crash_mode (tmin_classify_counts s) = crash_mode s" "hang_mode (tmin_classify_counts s) = hang_mode s"
  "edges_only (tmin_classify_counts s) = edges_only s" "exact_mode (tmin_classify_counts s) = exact_mode s"
  "last_run_timed_out (tmin_classify_counts s) = last_run_timed_out s"
  "total_execs (tmin_classify_counts s) = total_execs s"
  "missed_paths (tmin_classify_counts s) = missed_paths s"
  "missed_crashes (tmin_classify_counts s) = missed_crashes s"
  "missed_hangs (tmin_classify_counts s) = missed_hangs s"
  by (simp_all add: tmin_classify_counts_def)

lemma classified_trace:
  "tm_trace_bits (tmin_classify_counts s) =
   (if edges_only s then map (\<lambda>b. if b \<noteq> 0 then 1 else b) (take (tm_map_size s) (tm_trace_bits s))
    else map (\<lambda>b. tmin_count_class ! unat b) (take (tm_map_size s) (tm_trace_bits s)))
   @ drop (tm_map_size s) (tm_trace_bits s)"
  by (simp add: tmin_classify_counts_def Let_def)

lemma run_target_Inr:
  assumes "tmin_run_target T d False s = Inr (b, s')"
  shows "b = keeps T s (exec T (total_execs s) d)" and "job s' = job s" and "in_data s' = in_data s"
    and "total_execs s' = Suc (total_execs s)"
proof -
  note unf = tmin_run_target_def keeps_def trace_cksum_def job_def classified_trace Let_def
  show "b = keeps T s (exec T (total_execs s) d)"
    using assms
    by (cases "run_result (exec T (total_execs s) d)") (simp_all add: unf split: if_splits)
  show "job s' = job s"
    using assms
    by (cases "run_result (exec T (total_execs s) d)") (auto simp add: unf split: if_splits)
  show "in_data s' = in_data s" "total_execs s' = Suc (total_execs s)"
    using assms
    by (cases "run_result (exec T (total_execs s) d)"; auto simp add: unf split: if_splits)+
qed

lemma run_target_Abort:
  "tmin_run_target T d False s = Inl (User_Abort w) \<Longrightarrow> w = in_data s"
  by (cases "run_result (exec T (total_execs s) d)")
    (auto simp add: tmin_run_target_def Let_def split: if_splits)

section \<open>Runs of executions\<close>

text \<open>The number that every accepted change lowers: the bytes, and those that are not \<open>'0'\<close>.\<close>

definition weight :: "u8 list \<Rightarrow> nat" where
  "weight d = length d + length (filter (\<lambda>b. b \<noteq> ASCII_0) d)"

text \<open>\<open>trims T c s s'\<close>: a sequence of executions leads from \<open>s\<close> to \<open>s'\<close>; \<open>c\<close> tells whether
  a candidate was kept on the way.\<close>

inductive trims :: "target \<Rightarrow> bool \<Rightarrow> tmin \<Rightarrow> tmin \<Rightarrow> bool" for T where
  none: "trims T False s s"
| reject: "trims T c s s1 \<Longrightarrow> tmin_run_target T d False s1 = Inr (False, s2) \<Longrightarrow> trims T c s s2"
| keep: "trims T c s s1 \<Longrightarrow> tmin_run_target T d False s1 = Inr (True, s2) \<Longrightarrow>
    weight d < weight (in_data s1) \<Longrightarrow> length d \<le> length (in_data s1) \<Longrightarrow>
    trims T True s (s2\<lparr>in_data := d\<rparr>)"

lemma trims_mono:
  "trims T c s s' \<Longrightarrow> weight (in_data s') \<le> weight (in_data s) \<and> length (in_data s') \<le> length (in_data s) \<and>
     job s' = job s \<and> (if c then weight (in_data s') < weight (in_data s) else in_data s' = in_data s)"
proof (induction rule: trims.induct)
  case (keep c s s1 d s2)
  then show ?case using run_target_Inr [OF keep.hyps(2)] by (auto simp: job_def split: if_splits)
qed (auto dest: run_target_Inr(2,3))

lemma trims_trans: "trims T c2 s1 s2 \<Longrightarrow> trims T c1 s s1 \<Longrightarrow> trims T (c1 \<or> c2) s s2"
proof (induction rule: trims.induct)
  case none
  then show ?case by simp
next
  case reject
  then show ?case by (blast intro: trims.reject)
next
  case keep
  then show ?case by (auto intro: trims.keep)
qed

text \<open>A stage is explained when it ends in a state its executions lead to, or in the exit one
  of them caused.\<close>

definition died :: "target \<Rightarrow> tmin \<Rightarrow> tmin_exit \<Rightarrow> bool" where
  "died T s e \<longleftrightarrow> (\<exists>c s1 d. trims T c s s1 \<and> tmin_run_target T d False s1 = Inl e)"

definition explains :: "target \<Rightarrow> tmin \<Rightarrow> tmin_exit + bool \<times> tmin \<Rightarrow> bool" where
  "explains T s r \<longleftrightarrow> (case r of Inl e \<Rightarrow> died T s e | Inr (c, s') \<Rightarrow> trims T c s s')"

lemma explains_simps [simp]:
  "explains T s (Inl e) \<longleftrightarrow> died T s e" "explains T s (Inr (c, s')) \<longleftrightarrow> trims T c s s'"
  by (simp_all add: explains_def)

lemma died_trims: "died T s1 e \<Longrightarrow> trims T c s s1 \<Longrightarrow> died T s e"
  unfolding died_def using trims_trans by blast

lemma diedI: "trims T c s s1 \<Longrightarrow> tmin_run_target T d False s1 = Inl e \<Longrightarrow> died T s e"
  unfolding died_def by blast

section \<open>Every loop returns\<close>

lemma weight_zeroed:
  assumes "\<exists>b \<in> set (take n (drop pos d)). b \<noteq> ASCII_0" and "pos + n \<le> length d"
  shows "weight (zeroed pos n d) < weight d" and "length (zeroed pos n d) = length d"
proof -
  have d: "d = take pos d @ take n (drop pos d) @ drop (pos + n) d"
    by (metis append_take_drop_id drop_drop add.commute)
  have "filter (\<lambda>b. b \<noteq> ASCII_0) (take n (drop pos d)) \<noteq> []"
    using assms(1) by (simp add: filter_empty_conv)
  then have "length (filter (\<lambda>b. b \<noteq> ASCII_0) (zeroed pos n d)) < length (filter (\<lambda>b. b \<noteq> ASCII_0) d)"
    by (subst (2) d, simp add: zeroed_def)
  moreover show "length (zeroed pos n d) = length d" using assms(2) by (simp add: zeroed_def)
  ultimately show "weight (zeroed pos n d) < weight d" by (simp add: weight_def)
qed

lemma normalize_loop_returns:
  assumes "0 < set_len" and "trims T c s0 s"
  shows "\<exists>c' r. normalize_loop T set_len set_pos s = Some r \<and>
           explains T s0 (case r of Inl e \<Rightarrow> Inl e | Inr s' \<Rightarrow> Inr (c', s'))"
  using assms(2)
proof (induction "length (in_data s) - set_pos" arbitrary: set_pos c s rule: less_induct)
  case less
  show ?case
  proof (cases "set_pos < length (in_data s)")
    case False
    then show ?thesis using less.prems by (subst normalize_loop.simps) (auto intro: exI [of _ c])
  next
    case True
    define use where "use = min set_len (length (in_data s) - set_pos)"
    define d where "d = zeroed set_pos use (in_data s)"
    have use: "set_pos + use \<le> length (in_data s)" using True by (auto simp: use_def)
    show ?thesis
    proof (cases "\<forall>b \<in> set (take use (drop set_pos (in_data s))). b = ASCII_0")
      case blank: True
      then show ?thesis using True assms(1) less.hyps [OF _ less.prems, of "set_pos + set_len"]
        by (subst normalize_loop.simps) (simp add: use_def [symmetric] Let_def)
    next
      case False
      then have w: "weight d < weight (in_data s)" "length d = length (in_data s)"
        using weight_zeroed [OF _ use] by (auto simp: d_def)
      then have unf: "normalize_loop T set_len set_pos s =
          (case tmin_run_target T d False s of Inl e \<Rightarrow> Some (Inl e)
           | Inr (res, s) \<Rightarrow>
               if res then normalize_loop T set_len (set_pos + set_len)
                             (s\<lparr>in_data := zeroed set_pos use (in_data s)\<rparr>)
               else normalize_loop T set_len (set_pos + set_len) s)"
        using True \<open>\<not> (\<forall>b \<in> set _. b = _)\<close> by (subst normalize_loop.simps)
          (simp only: use_def [symmetric] d_def [symmetric] Let_def simp_thms if_False if_True)
      show ?thesis
      proof (cases "tmin_run_target T d False s")
        case (Inl e)
        with less.prems have "died T s0 e" by (rule diedI)
        then show ?thesis by (intro exI [of _ True]) (simp add: unf Inl)
      next
        case (Inr p)
        obtain b s1 where p: "p = (b, s1)" by (cases p)
        note run = Inr [unfolded p]
        have s1: "in_data s1 = in_data s" by (rule run_target_Inr(3) [OF run])
        define s2 where "s2 = (if b then s1\<lparr>in_data := d\<rparr> else s1)"
        obtain c2 where t: "trims T c2 s0 s2"
          using run less.prems w(1) eq_imp_le [OF w(2)] unfolding s2_def by (cases b) (auto intro: trims.intros)
        have l: "length (in_data s2) = length (in_data s)" using s1 w by (simp add: s2_def)
        have "normalize_loop T set_len set_pos s = normalize_loop T set_len (set_pos + set_len) s2"
          using run s1 by (simp add: unf s2_def d_def)
        then show ?thesis using less.hyps [OF _ t, of "set_pos + set_len"] True assms(1) l by simp
      qed
    qed
  qed
qed

lemma weight_delete:
  assumes "del_pos < length d" and "0 < del_len"
  defines "t \<equiv> take del_pos d @ take (length d - del_pos - del_len) (drop (del_pos + del_len) d)"
  shows "weight t < weight d" and "length t < length d"
proof -
  have t: "t = take del_pos d @ drop (del_pos + del_len) d" by (simp add: t_def)
  have d: "d = take del_pos d @ take del_len (drop del_pos d) @ drop (del_pos + del_len) d"
    by (metis append_take_drop_id drop_drop add.commute)
  have "length (filter (\<lambda>b. b \<noteq> ASCII_0) t) \<le> length (filter (\<lambda>b. b \<noteq> ASCII_0) d)"
    by (subst d, simp only: filter_append length_append t)
  moreover show "length t < length d" using assms(1,2) by (simp add: t)
  ultimately show "weight t < weight d" by (simp add: weight_def)
qed

lemma delete_loop_returns:
  assumes "0 < del_len" and "trims T c s0 s"
  shows "\<exists>r. delete_loop T del_len del_pos prev_del c s = Some r \<and> explains T s0 r"
  using assms(2)
proof (induction "length (in_data s) - del_pos" arbitrary: del_pos prev_del c s rule: less_induct)
  case less
  show ?case
  proof (cases "del_pos < length (in_data s)")
    case False
    then show ?thesis using less.prems by (subst delete_loop.simps) simp
  next
    case True
    define tl where "tl = length (in_data s) - del_pos - del_len"
    define d where "d = take del_pos (in_data s) @ take tl (drop (del_pos + del_len) (in_data s))"
    have w: "weight d < weight (in_data s)" "length d < length (in_data s)"
      using weight_delete [OF True assms(1)] by (simp_all add: d_def tl_def)
    show ?thesis
    proof (cases "\<not> prev_del \<and> tl \<noteq> 0 \<and>
        take del_len (drop (del_pos - del_len) (in_data s)) = take del_len (drop del_pos (in_data s))")
      case same: True
      then have "delete_loop T del_len del_pos prev_del c s =
          delete_loop T del_len (del_pos + del_len) prev_del c s"
        using True by (subst delete_loop.simps) (simp only: tl_def [symmetric] Let_def simp_thms if_True if_False)
      then show ?thesis using less.hyps [OF _ less.prems, of "del_pos + del_len"] True assms(1) by simp
    next
      case False
      then have unf: "delete_loop T del_len del_pos prev_del c s =
          (case tmin_run_target T d False s of Inl e \<Rightarrow> Some (Inl e)
           | Inr (res, s) \<Rightarrow> if res then delete_loop T del_len del_pos True True (s\<lparr>in_data := d\<rparr>)
                 else delete_loop T del_len (del_pos + del_len) False c s)"
        using True by (subst delete_loop.simps) (simp only: tl_def [symmetric] d_def [symmetric] Let_def simp_thms if_False if_True)
      show ?thesis
      proof (cases "tmin_run_target T d False s")
        case (Inl e)
        with less.prems have "died T s0 e" by (rule diedI)
        then show ?thesis by (simp add: unf Inl)
      next
        case (Inr p)
        obtain b s1 where p: "p = (b, s1)" by (cases p)
        note run = Inr [unfolded p]
        have s1: "in_data s1 = in_data s" by (rule run_target_Inr(3) [OF run])
        show ?thesis
        proof (cases b)
          case b: True
          have "trims T True s0 (s1\<lparr>in_data := d\<rparr>)"
            using less.prems run w b by (auto intro: trims.keep)
          from less.hyps [OF _ this, of del_pos True] show ?thesis
            using w True b by (simp add: unf run)
        next
          case b: False
          have "trims T c s0 s1" using less.prems run b by (auto intro: trims.reject)
          from less.hyps [OF _ this, of "del_pos + del_len" False] show ?thesis
            using s1 True assms(1) b by (simp add: unf run)
        qed
      qed
    qed
  qed
qed

lemma delete_blocks_returns:
  "trims T c s0 s \<Longrightarrow> \<exists>r. delete_blocks T del_len c s = Some r \<and> explains T s0 r"
proof (induction del_len arbitrary: c s rule: less_induct)
  case (less del_len)
  define n where "n = (if del_len = 0 then 1 else del_len)"
  have n: "0 < n" "1 < n \<Longrightarrow> n = del_len" "1 < n \<Longrightarrow> n div 2 < del_len"
    by (cases "del_len = 0"; simp add: n_def)+
  obtain r where r: "delete_loop T n 0 True c s = Some r" "explains T s0 r"
    using delete_loop_returns [OF n(1) less.prems] by blast
  have unf: "delete_blocks T del_len c s =
      (case r of Inl e \<Rightarrow> Some (Inl e)
       | Inr (c', s) \<Rightarrow> if 1 < n \<and> 1 \<le> length (in_data s) then delete_blocks T (n div 2) c' s
             else Some (Inr (c', s)))"
    by (subst delete_blocks.simps) (simp only: n_def [symmetric] Let_def r Option.bind.simps)
  show ?case
  proof (cases r)
    case (Inl e)
    then show ?thesis using r by (simp add: unf)
  next
    case (Inr p)
    obtain c' s' where p: "p = (c', s')" by (cases p)
    then show ?thesis using less.IH [of "n div 2" c' s'] n r Inr by (auto simp: unf)
  qed
qed

lemma weight_map_0:
  assumes "\<exists>b \<in> set d. p b \<and> b \<noteq> ASCII_0"
  shows "weight (map (\<lambda>b. if p b then ASCII_0 else b) d) < weight d"
proof -
  have "length (filter (\<lambda>b. b \<noteq> ASCII_0) (map (\<lambda>b. if p b then ASCII_0 else b) xs))
      \<le> length (filter (\<lambda>b. b \<noteq> ASCII_0) xs)" for xs by (induction xs) auto
  moreover obtain as b bs where "d = as @ b # bs" "p b" "b \<noteq> ASCII_0" using assms by (auto simp: in_set_conv_decomp)
  ultimately show ?thesis by (simp add: weight_def add_le_less_mono less_Suc_eq_le add_mono)
qed

lemma weight_update_0:
  assumes "i < length d" and "d ! i \<noteq> ASCII_0"
  shows "weight (d[i := ASCII_0]) < weight d"
proof -
  have "d = take i d @ d ! i # drop (Suc i) d" using assms(1) by (rule id_take_nth_drop)
  then have "length (filter (\<lambda>b. b \<noteq> ASCII_0) d) =
      length (filter (\<lambda>b. b \<noteq> ASCII_0) (take i d @ d ! i # drop (Suc i) d))" by simp
  then show ?thesis using assms by (simp add: weight_def upd_conv_take_nth_drop)
qed

text \<open>Candidates only ever turn bytes into \<open>'0'\<close>, so the counts taken at the start of the
  alphabet stage still say which other bytes occur.\<close>

lemma alphabet_loop_returns:
  assumes "trims T c s0 s" and "\<And>i. i \<in> set is \<Longrightarrow> i \<noteq> unat ASCII_0 \<Longrightarrow> amap ! i \<noteq> 0 \<Longrightarrow> \<exists>b \<in> set (in_data s). unat b = i"
    and "distinct is"
  shows "explains T s0 (alphabet_loop T amap is c s)"
  using assms
proof (induction "is" arbitrary: c s)
  case Nil
  then show ?case by simp
next
  case (Cons i "is")
  have sub: "\<And>j. j \<in> set is \<Longrightarrow> j \<noteq> unat ASCII_0 \<Longrightarrow> amap ! j \<noteq> 0 \<Longrightarrow> \<exists>b \<in> set (in_data s). unat b = j"
    and dist: "distinct is" "i \<notin> set is"
    using Cons.prems by auto
  show ?case
  proof (cases "i = unat ASCII_0 \<or> amap ! i = 0")
    case True
    then show ?thesis using Cons.IH [OF Cons.prems(1) sub dist(1)] by simp
  next
    case False
    define d where "d = map (\<lambda>b. if unat b = i then ASCII_0 else b) (in_data s)"
    have "\<exists>b \<in> set (in_data s). unat b = i" using Cons.prems(2) [of i] False by simp
    then have w: "weight d < weight (in_data s)"
      unfolding d_def using False by (intro weight_map_0) auto
    have l: "length d \<le> length (in_data s)" by (simp add: d_def)
    have unf: "alphabet_loop T amap (i # is) c s =
        (case tmin_run_target T d False s of Inl e \<Rightarrow> Inl e
         | Inr (res, s) \<Rightarrow> if res then alphabet_loop T amap is True (s\<lparr>in_data := d\<rparr>)
               else alphabet_loop T amap is c s)"
      using False by (simp only: alphabet_loop.simps d_def [symmetric] Let_def if_False)
    show ?thesis
    proof (cases "tmin_run_target T d False s")
      case (Inl e)
      with Cons.prems(1) have "died T s0 e" by (rule diedI)
      then show ?thesis by (simp add: unf Inl del: alphabet_loop.simps)
    next
      case (Inr p)
      obtain b s1 where p: "p = (b, s1)" by (cases p)
      note run = Inr [unfolded p]
      have s1: "in_data s1 = in_data s" by (rule run_target_Inr(3) [OF run])
      show ?thesis
      proof (cases b)
        case True
        have t: "trims T True s0 (s1\<lparr>in_data := d\<rparr>)"
          using Cons.prems(1) run w l True by (auto intro: trims.keep)
        have "\<exists>b \<in> set (in_data (s1\<lparr>in_data := d\<rparr>)). unat b = j"
          if j: "j \<in> set is" "j \<noteq> unat ASCII_0" "amap ! j \<noteq> 0" for j
          using sub [OF j] j(1) dist(2) by (force simp: d_def)
        from Cons.IH [OF t this dist(1)] show ?thesis using True by (simp add: unf run del: alphabet_loop.simps)
      next
        case False
        have t: "trims T c s0 s1" using Cons.prems(1) run False by (auto intro: trims.reject)
        from Cons.IH [OF t _ dist(1)] sub s1 show ?thesis using False by (simp add: unf run del: alphabet_loop.simps)
      qed
    qed
  qed
qed

lemma alphabet_minimization_explained:
  assumes "trims T c s0 s" shows "explains T s0 (alphabet_minimization T c s)"
  unfolding alphabet_minimization_def
proof (rule alphabet_loop_returns [OF assms])
  fix i assume "i \<in> set [0..<256]" "alpha_map (in_data s) ! i \<noteq> 0"
  then have "filter (\<lambda>b. unat b = i) (in_data s) \<noteq> []"
    by (simp only: set_upt atLeastLessThan_iff alpha_map_def) simp
  then show "\<exists>b \<in> set (in_data s). unat b = i" by (simp add: filter_empty_conv)
qed (rule distinct_upt)

lemma character_loop_returns:
  assumes "trims T c s0 s" and "tmp = in_data s" and "\<And>i. i \<in> set is \<Longrightarrow> i < length tmp"
  shows "explains T s0 (character_loop T is tmp c s)"
  using assms
proof (induction "is" arbitrary: c s tmp)
  case Nil
  then show ?case by simp
next
  case (Cons i "is")
  have i: "i < length tmp" and rest: "\<And>j. j \<in> set is \<Longrightarrow> j < length tmp" using Cons.prems(3) by auto
  show ?case
  proof (cases "tmp ! i = ASCII_0")
    case True
    then show ?thesis using Cons.IH [OF Cons.prems(1,2) rest] by (simp add: Let_def)
  next
    case False
    define d where "d = tmp[i := ASCII_0]"
    have w: "weight d < weight (in_data s)" "length d = length (in_data s)"
      using weight_update_0 [OF i False] Cons.prems(2) by (simp_all add: d_def)
    have undo: "d[i := tmp ! i] = tmp" by (simp add: d_def)
    have unf: "character_loop T (i # is) tmp c s =
        (case tmp_run of Inl e \<Rightarrow> Inl e
         | Inr (res, s) \<Rightarrow> if res then character_loop T is d True (s\<lparr>in_data := (in_data s)[i := ASCII_0]\<rparr>)
               else character_loop T is tmp c s)" if "tmp_run = tmin_run_target T d False s" for tmp_run
      using False that by (simp only: character_loop.simps d_def [symmetric] Let_def if_False undo)
    show ?thesis
    proof (cases "tmin_run_target T d False s")
      case (Inl e)
      with Cons.prems(1) have "died T s0 e" by (rule diedI)
      then show ?thesis by (simp add: unf [OF Inl [symmetric]] del: character_loop.simps)
    next
      case (Inr p)
      obtain b s1 where p: "p = (b, s1)" by (cases p)
      note run = Inr [unfolded p]
      have s1: "in_data s1 = in_data s" by (rule run_target_Inr(3) [OF run])
      show ?thesis
      proof (cases b)
        case True
        have t: "trims T True s0 (s1\<lparr>in_data := d\<rparr>)"
          using Cons.prems(1) run w(1) eq_imp_le [OF w(2)] True by (auto intro: trims.keep)
        have "explains T s0 (character_loop T is d True (s1\<lparr>in_data := d\<rparr>))"
          by (rule Cons.IH [OF t]) (use rest in \<open>simp_all add: d_def\<close>)
        moreover have "(in_data s1)[i := ASCII_0] = d" using s1 Cons.prems(2) by (simp add: d_def)
        ultimately show ?thesis using True by (simp add: unf [OF run [symmetric]] del: character_loop.simps)
      next
        case False
        have t: "trims T c s0 s1" using Cons.prems(1) run False by (auto intro: trims.reject)
        have "explains T s0 (character_loop T is tmp c s1)"
          using Cons.IH [OF t _ rest] s1 Cons.prems(2) by simp
        then show ?thesis using False by (simp only: unf [OF run [symmetric]] sum.case prod.case if_False)
      qed
    qed
  qed
qed

lemma character_minimization_explained:
  "trims T c s0 s \<Longrightarrow> explains T s0 (character_minimization T c s)"
  unfolding character_minimization_def by (rule character_loop_returns) auto

lemma block_deletion_returns:
  "\<exists>r. block_deletion T s = Some r \<and> explains T s r"
  unfolding block_deletion_def by (rule delete_blocks_returns) (rule trims.none)

text \<open>The state at the end of a run of the stages, or the exit it died of.\<close>

definition ends :: "target \<Rightarrow> tmin \<Rightarrow> tmin_exit + tmin \<Rightarrow> bool" where
  "ends T s r \<longleftrightarrow> (case r of Inl e \<Rightarrow> died T s e | Inr s' \<Rightarrow> (\<exists>c. trims T c s s'))"

lemma ends_simps [simp]:
  "ends T s (Inl e) \<longleftrightarrow> died T s e" "ends T s (Inr s') \<longleftrightarrow> (\<exists>c. trims T c s s')"
  by (simp_all add: ends_def)

lemma ends_trans: "ends T s1 r \<Longrightarrow> trims T c s s1 \<Longrightarrow> ends T s r"
  by (cases r) (auto intro: died_trims trims_trans)

lemma passes_returns: "\<exists>r. passes T n s = Some r \<and> ends T s r"
proof (induction "weight (in_data s)" arbitrary: n s rule: less_induct)
  case less
  obtain r where del: "block_deletion T s = Some r" "explains T s r"
    using block_deletion_returns by blast
  show ?case
  proof (cases r)
    case (Inl e)
    then show ?thesis using del by (subst passes.simps) simp
  next
    case (Inr p)
    obtain c1 s1 where p: "p = (c1, s1)" by (cases p)
    have t1: "trims T c1 s s1" using del Inr p by simp
    show ?thesis
    proof (cases "1 < Suc n \<and> \<not> c1")
      case True
      then show ?thesis using del Inr p t1 by (subst passes.simps) auto
    next
      case more: False
      have ex: "explains T s (alphabet_minimization T c1 s1)"
        by (rule alphabet_minimization_explained [OF t1])
      show ?thesis
      proof (cases "alphabet_minimization T c1 s1")
        case (Inl e)
        then show ?thesis using del Inr p more ex by (subst passes.simps) auto
      next
        case alpha: (Inr q)
        obtain c2 s2 where q: "q = (c2, s2)" by (cases q)
        have t2: "trims T c2 s s2" using ex alpha q by simp
        have ex: "explains T s (character_minimization T c2 s2)"
          by (rule character_minimization_explained [OF t2])
        show ?thesis
        proof (cases "character_minimization T c2 s2")
          case (Inl e)
          then show ?thesis using del Inr p more alpha q ex by (subst passes.simps) auto
        next
          case char: (Inr q3)
          obtain c3 s3 where q3: "q3 = (c3, s3)" by (cases q3)
          have t3: "trims T c3 s s3" using ex char q3 by simp
          have unf: "passes T n s = (if c3 then passes T (Suc n) s3 else Some (Inr s3))"
            using del Inr p more alpha q char q3 by (subst passes.simps) auto
          show ?thesis
          proof (cases c3)
            case True
            then have "weight (in_data s3) < weight (in_data s)" using trims_mono [OF t3] by simp
            then obtain r' where "passes T (Suc n) s3 = Some r'" "ends T s3 r'" using less.hyps by blast
            then show ?thesis using True unf ends_trans [OF _ t3] by simp
          next
            case False
            then show ?thesis using unf t3 by auto
          qed
        qed
      qed
    qed
  qed
qed

lemma minimize_ends: "\<exists>r. minimize T s = Some r \<and> ends T s r"
proof -
  define n where "n = (if pow2_len (length (in_data s) div TMIN_SET_STEPS) < TMIN_SET_MIN_SIZE
    then TMIN_SET_MIN_SIZE else pow2_len (length (in_data s) div TMIN_SET_STEPS))"
  have "0 < n" by (simp add: n_def TMIN_SET_MIN_SIZE_def)
  from normalize_loop_returns [OF this trims.none] obtain c r where
    "normalize_loop T n 0 s = Some r" "explains T s (case r of Inl e \<Rightarrow> Inl e | Inr s' \<Rightarrow> Inr (c, s'))"
    by blast
  then have r: "block_normalization T s = Some r" "ends T s r"
    by (auto simp: block_normalization_def n_def Let_def split: sum.splits)
  show ?thesis
  proof (cases r)
    case (Inl e)
    then show ?thesis using r by (simp add: minimize_def)
  next
    case (Inr s1)
    then obtain c where t: "trims T c s s1" using r by auto
    then show ?thesis using passes_returns [of T 0 s1] r Inr ends_trans [OF _ t] by (auto simp: minimize_def)
  qed
qed

section \<open>A steady target\<close>

text \<open>A target is steady when what it does depends on its input alone. Ctrl-C may still come
  at any moment.\<close>

definition steady :: "target \<Rightarrow> bool" where
  "steady T \<longleftrightarrow> (\<forall>n m d. run_result (exec T n d) = run_result (exec T m d) \<and>
     run_trace (exec T n d) = run_trace (exec T m d))"

definition reproduces :: "target \<Rightarrow> tmin \<Rightarrow> u8 list \<Rightarrow> bool" where
  "reproduces T s d \<longleftrightarrow> keeps T s (exec T 0 d)"

lemma trace_cksum_cong:
  assumes "run_trace r = run_trace r'" and "job s = job s'"
  shows "trace_cksum T s r = trace_cksum T s' r'"
  using assms by (simp add: trace_cksum_def classified_trace job_def)

lemma keeps_cong:
  assumes "steady T" and "job s = job s'"
  shows "keeps T s (exec T n d) = keeps T s' (exec T m d)"
proof -
  have "run_result (exec T n d) = run_result (exec T m d)" "run_trace (exec T n d) = run_trace (exec T m d)"
    using assms(1) by (auto simp: steady_def)
  then show ?thesis
    using assms(2) trace_cksum_cong [OF _ assms(2), of "exec T n d" "exec T m d" T] by (auto simp: keeps_def job_def)
qed

lemma run_target_reproduces:
  assumes "steady T" and "tmin_run_target T d False s = Inr (b, s')"
  shows "b = reproduces T s d"
  using run_target_Inr(1) [OF assms(2)] keeps_cong [OF assms(1) refl, of s] by (simp add: reproduces_def)

lemma reproduces_cong: "steady T \<Longrightarrow> job s = job s' \<Longrightarrow> reproduces T s d = reproduces T s' d"
  unfolding reproduces_def by (rule keeps_cong)

lemma trims_reproduces:
  assumes "steady T"
  shows "trims T c s s' \<Longrightarrow> reproduces T s (in_data s) \<Longrightarrow> reproduces T s (in_data s')"
proof (induction rule: trims.induct)
  case (keep c s s1 d s2)
  have "reproduces T s1 d" using run_target_reproduces [OF assms keep.hyps(2)] by simp
  then show ?case using reproduces_cong [OF assms, of s1 s d] trims_mono [OF keep.hyps(1)] by simp
qed (auto dest: run_target_Inr(3))

lemma died_reproduces:
  assumes "steady T" and "died T s (User_Abort w)" and "reproduces T s (in_data s)"
  shows "reproduces T s w" and "length w \<le> length (in_data s)"
proof -
  obtain c s1 d where t: "trims T c s s1" and "tmin_run_target T d False s1 = Inl (User_Abort w)"
    using assms(2) by (auto simp: died_def)
  then have "w = in_data s1" using run_target_Abort by blast
  then show "reproduces T s w" "length w \<le> length (in_data s)"
    using trims_reproduces [OF assms(1) t assms(3)] trims_mono [OF t] by auto
qed

section \<open>No byte of the result can be deleted\<close>

definition delete_byte :: "nat \<Rightarrow> u8 list \<Rightarrow> u8 list" where
  "delete_byte p d = take p d @ drop (Suc p) d"

definition needed :: "target \<Rightarrow> tmin \<Rightarrow> nat \<Rightarrow> bool" where
  "needed T s p \<longleftrightarrow> \<not> reproduces T s (delete_byte p (in_data s))"

lemma delete_byte_twin:
  assumes "Suc p < length d" and "d ! p = d ! Suc p"
  shows "delete_byte (Suc p) d = delete_byte p d"
proof -
  have "take (Suc p) d = take p d @ [d ! p]" using assms(1) by (simp add: take_Suc_conv_app_nth)
  moreover have "drop (Suc p) d = d ! Suc p # drop (Suc (Suc p)) d" using assms(1) by (simp add: Cons_nth_drop_Suc)
  ultimately show ?thesis using assms(2) by (simp add: delete_byte_def)
qed

lemma delete_loop_changed:
  "delete_loop T n pos prev c s = Some r \<Longrightarrow> r = Inr (c', s') \<Longrightarrow> c \<Longrightarrow> c'"
proof (induction arbitrary: c' s' rule: delete_loop.raw_induct [rotated 1, consumes 1, case_names step])
  case (step loop T n pos prev c s r)
  show ?case
    using step(2-) by (auto simp: Let_def split: if_splits sum.splits prod.splits dest: step(1))
qed

lemma delete_loop_unchanged:
  assumes "0 < n" and "delete_loop T n pos prev c s = Some (Inr (False, s'))"
  shows "\<not> c" and "in_data s' = in_data s" and "job s' = job s"
proof -
  show c: "\<not> c" using delete_loop_changed [OF assms(2) refl] by blast
  obtain r where "delete_loop T n pos prev c s = Some r" "explains T s r"
    using delete_loop_returns [OF assms(1), of T False s s pos prev] c trims.none by auto
  then have "trims T False s s'" using assms(2) by auto
  then show "in_data s' = in_data s" "job s' = job s" using trims_mono [of T False s s'] by simp_all
qed

lemma needed_cong:
  "steady T \<Longrightarrow> job s = job s' \<Longrightarrow> in_data s = in_data s' \<Longrightarrow> needed T s p = needed T s' p"
  by (simp add: needed_def reproduces_cong [of T s s'])

lemma delete_loop_needed:
  assumes "steady T0"
  shows "delete_loop T n pos prev c s = Some r \<Longrightarrow> r = Inr (False, s') \<Longrightarrow> n = 1 \<Longrightarrow> T = T0 \<Longrightarrow>
    prev \<or> 0 < pos \<Longrightarrow>
    \<not> c \<and> ((\<forall>p < pos. p < length (in_data s) \<longrightarrow> needed T s p) \<longrightarrow>
      (\<forall>p < length (in_data s). needed T s p))"
proof (induction arbitrary: s' rule: delete_loop.raw_induct [rotated 1, consumes 1, case_names step])
  case (step loop T n pos prev c s r)
  define tl where "tl = length (in_data s) - pos - n"
  define d where "d = take pos (in_data s) @ take tl (drop (pos + n) (in_data s))"
  define same where "same \<longleftrightarrow> \<not> prev \<and> tl \<noteq> 0 \<and>
    take n (drop (pos - n) (in_data s)) = take n (drop pos (in_data s))"
  note body = step(2) [folded tl_def, unfolded Let_def, folded d_def same_def]
  have d: "d = delete_byte pos (in_data s)" using step(4) by (simp add: d_def tl_def delete_byte_def)
  note n = step(4) and T = step(5) and prev = step(6)
  show ?case
  proof (cases "pos < length (in_data s)")
    case False
    then show ?thesis using body step(3) by simp
  next
    case pos: True
    show ?thesis
    proof (cases same)
      case True
      then have tl: "Suc pos < length (in_data s)" and p: "0 < pos"
        and eq: "take 1 (drop (pos - 1) (in_data s)) = take 1 (drop pos (in_data s))"
        using prev n by (auto simp: same_def tl_def)
      have "in_data s ! (pos - 1) = in_data s ! pos"
        using eq pos p by (simp add: take_Suc_conv_app_nth hd_drop_conv_nth take_Suc)
      then have "delete_byte pos (in_data s) = delete_byte (pos - 1) (in_data s)"
        using delete_byte_twin [of "pos - 1" "in_data s"] pos p by simp
      then have *: "needed T s pos" if "needed T s (pos - 1)" using that by (simp add: needed_def)
      have "loop T n (pos + n) prev c s = Some r" using body pos True by simp
      note IH = step(1) [OF this step(3) n T, unfolded n]
      have "\<forall>p < pos + 1. p < length (in_data s) \<longrightarrow> needed T s p"
        if "\<forall>p < pos. p < length (in_data s) \<longrightarrow> needed T s p"
        using that * p tl by (simp add: less_Suc_eq)
      then show ?thesis using IH by simp
    next
      case False
      then obtain b s1 where run: "tmin_run_target T d False s = Inr (b, s1)"
        using body pos step(3) by (auto split: sum.splits)
      note same_job = run_target_Inr(2,3) [OF run]
      show ?thesis
      proof (cases b)
        case True
        then have "loop T n pos True True (s1\<lparr>in_data := d\<rparr>) = Some r"
          using body pos False run by simp
        from step(1) [OF this step(3) n T] show ?thesis by simp
      next
        case b: False
        then have loop: "loop T n (pos + n) False c s1 = Some r" using body pos False run by simp
        have eq: "needed T s1 p = needed T s p" for p
          using needed_cong [OF assms] same_job T by metis
        have "\<not> reproduces T s d" using run_target_reproduces [OF assms] run b T by blast
        then have "needed T s pos" by (simp add: needed_def d)
        then have "\<forall>p < pos + 1. p < length (in_data s) \<longrightarrow> needed T s p"
          if "\<forall>p < pos. p < length (in_data s) \<longrightarrow> needed T s p"
          using that by (simp add: less_Suc_eq)
        then show ?thesis using step(1) [OF loop step(3) n T, unfolded n] same_job by (simp add: eq)
      qed
    qed
  qed
qed

lemma delete_blocks_needed:
  "delete_blocks T n c s = Some (Inr (False, s')) \<Longrightarrow> steady T \<Longrightarrow>
     \<not> c \<and> in_data s' = in_data s \<and> job s' = job s \<and> (\<forall>p < length (in_data s'). needed T s' p)"
proof (induction n arbitrary: c s rule: less_induct)
  case (less n)
  define m where "m = (if n = 0 then 1 else n)"
  have m: "0 < m" "1 < m \<Longrightarrow> m div 2 < n" "\<not> 1 < m \<Longrightarrow> m = 1" by (cases "n = 0"; auto simp: m_def)+
  have unf: "delete_blocks T n c s = Option.bind (delete_loop T m 0 True c s) (\<lambda>r. case r of
      Inl e \<Rightarrow> Some (Inl e)
    | Inr (c', s) \<Rightarrow> if 1 < m \<and> 1 \<le> length (in_data s) then delete_blocks T (m div 2) c' s
          else Some (Inr (c', s)))"
    by (subst delete_blocks.simps) (simp only: m_def [symmetric] Let_def)
  obtain c1 s1 where loop: "delete_loop T m 0 True c s = Some (Inr (c1, s1))"
    and rest: "(if 1 < m \<and> 1 \<le> length (in_data s1) then delete_blocks T (m div 2) c1 s1
          else Some (Inr (c1, s1))) = Some (Inr (False, s'))"
    using less.prems(1) unfolding unf by (auto split: bind_splits sum.splits)
  show ?case
  proof (cases "1 < m \<and> 1 \<le> length (in_data s1)")
    case True
    then have IH: "\<not> c1 \<and> in_data s' = in_data s1 \<and> job s' = job s1 \<and> (\<forall>p < length (in_data s'). needed T s' p)"
      using less.IH [of "m div 2" c1 s1] m rest less.prems(2) by simp
    then show ?thesis using delete_loop_unchanged [OF m(1), of T 0 True c s s1] loop by simp
  next
    case False
    then have s1: "c1 = False" "s1 = s'" using rest by auto
    note same = delete_loop_unchanged [OF m(1) loop [unfolded s1]]
    have "\<forall>p < length (in_data s'). needed T s' p"
    proof (cases "1 < m")
      case True
      then show ?thesis using False s1 by simp
    next
      case False
      with m have "m = 1" by simp
      with delete_loop_needed [OF less.prems(2) loop [unfolded s1] refl _ refl] same needed_cong [OF less.prems(2), of s' s]
      show ?thesis by simp
    qed
    with same show ?thesis by simp
  qed
qed

lemma alphabet_loop_changed: "alphabet_loop T amap is c s = Inr (c', s') \<Longrightarrow> c \<Longrightarrow> c'"
  by (induction T amap "is" c s rule: alphabet_loop.induct) (auto simp: Let_def split: if_splits sum.splits)

lemma character_loop_changed: "character_loop T is tmp c s = Inr (c', s') \<Longrightarrow> c \<Longrightarrow> c'"
  by (induction T "is" tmp c s rule: character_loop.induct) (auto simp: Let_def split: if_splits sum.splits)

lemma pass_unchanged:
  assumes "block_deletion T s = Some (Inr (c1, s1))" and "alphabet_minimization T c1 s1 = Inr (c2, s2)"
    and "character_minimization T c2 s2 = Inr (False, s3)"
  shows "\<not> c1" and "in_data s3 = in_data s" and "job s3 = job s"
proof -
  show "\<not> c1"
    using alphabet_loop_changed [OF assms(2) [unfolded alphabet_minimization_def]]
      character_loop_changed [OF assms(3) [unfolded character_minimization_def]] by blast
  have "trims T c1 s s1" using block_deletion_returns [of T s] assms(1) by auto
  then have "trims T c2 s s2" using alphabet_minimization_explained assms(2) by (metis explains_simps(2))
  then have "trims T False s s3" using character_minimization_explained assms(3) by (metis explains_simps(2))
  then show "in_data s3 = in_data s" "job s3 = job s" using trims_mono [of T False s s3] by simp_all
qed

lemma passes_needed:
  "passes T n s = Some r \<Longrightarrow> r = Inr s' \<Longrightarrow> steady T \<Longrightarrow> \<forall>p < length (in_data s'). needed T s' p"
proof (induction arbitrary: s' rule: passes.raw_induct [rotated 1, consumes 1, case_names step])
  case (step loop T n s r)
  obtain c1 s1 where del: "block_deletion T s = Some (Inr (c1, s1))"
    using step(2,3) by (auto simp: Let_def split: bind_splits sum.splits)
  have need: "\<not> c1 \<Longrightarrow> in_data s1 = in_data s \<and> job s1 = job s \<and> (\<forall>p < length (in_data s1). needed T s1 p)"
    using delete_blocks_needed [OF _ step(4)] del by (auto simp: block_deletion_def)
  show ?case
  proof (cases "1 < Suc n \<and> \<not> c1")
    case True
    then have "s1 = s'" using step(2,3) del by (simp add: Let_def)
    then show ?thesis using need True by simp
  next
    case more: False
    then obtain c2 s2 where alpha: "alphabet_minimization T c1 s1 = Inr (c2, s2)"
      using step(2,3) del by (auto simp: Let_def split: sum.splits)
    then obtain c3 s3 where char: "character_minimization T c2 s2 = Inr (c3, s3)"
      using step(2,3) del more by (auto simp: Let_def split: sum.splits)
    have body: "(if c3 then loop T (Suc n) s3 else Some (Inr s3)) = Some r"
      using step(2) del more alpha char by (auto simp: Let_def)
    show ?thesis
    proof (cases c3)
      case True
      then show ?thesis using body step(1) [OF _ step(3,4)] by simp
    next
      case False
      note same = pass_unchanged [OF del alpha char [unfolded eq_False [THEN iffD2, OF False]]]
      have "s3 = s'" using body False step(3) by simp
      then show ?thesis using need same needed_cong [OF step(4), of s' s1] by simp
    qed
  qed
qed

lemma minimize_needed:
  "minimize T s = Some (Inr s') \<Longrightarrow> steady T \<Longrightarrow> \<forall>p < length (in_data s'). needed T s' p"
  unfolding minimize_def using passes_needed [of T 0] by (auto split: bind_splits sum.splits)

section \<open>Properties\<close>

text \<open>
  C7: the decision of \<^verbatim>\<open>tmin_run_target\<close>. When the target ran, is instrumented and nobody
  pressed Ctrl-C, a candidate is kept exactly when it shows the behaviour being minimized: the
  timeout in hang mode, the crash in crash mode (with the same checksum in exact mode), the
  same checksum of the classified and masked trace otherwise; and nothing else of the job changes.
\<close>

theorem tmin_run_target_decides:
  assumes "run_result (exec T (total_execs s) d) \<notin> {FSRV_RUN_ERROR, FSRV_RUN_NOINST}"
    and "\<not> run_stop_soon (exec T (total_execs s) d)"
  shows "\<exists>s'. tmin_run_target T d False s = Inr (keeps T s (exec T (total_execs s) d), s') \<and>
    in_data s' = in_data s \<and> job s' = job s"
proof -
  have "\<not> isl (tmin_run_target T d False s)"
    using assms
    by (cases "run_result (exec T (total_execs s) d)") (simp_all add: tmin_run_target_def Let_def)
  then obtain b s' where run: "tmin_run_target T d False s = Inr (b, s')"
    by (cases "tmin_run_target T d False s") auto
  then show ?thesis using run_target_Inr [OF run] by auto
qed

text \<open>
  C4: minimization always returns, whatever the target does, be it random: every accepted
  candidate has fewer bytes, or fewer bytes that are not \<open>'0'\<close>, so only finitely many passes
  change anything.
\<close>

theorem minimize_terminates: "minimize T s \<noteq> None \<and> tmin_main T s \<noteq> None"
proof
  show m: "minimize T s \<noteq> None" for s using minimize_ends [of T s] by auto
  show "tmin_main T s \<noteq> None"
    by (auto simp: tmin_main_def m split: sum.splits bind_splits)
qed

text \<open>
  C5: on a steady target, what \<^verbatim>\<open>minimize\<close> leaves in \<^verbatim>\<open>in_data\<close>, and what a Ctrl-C in its
  midst writes to the output file, still shows the behaviour of the input and is no longer than it.
\<close>

theorem minimize_reproduces:
  assumes "steady T" and "reproduces T s (in_data s)"
    and "minimize T s = Some (Inr s') \<and> d = in_data s' \<or> minimize T s = Some (Inl (User_Abort d))"
  shows "reproduces T s d \<and> length d \<le> length (in_data s)"
proof -
  obtain r where r: "minimize T s = Some r" "ends T s r" using minimize_ends by blast
  show ?thesis using assms(3)
  proof
    assume "minimize T s = Some (Inr s') \<and> d = in_data s'"
    with r obtain c where "trims T c s s'" "d = in_data s'" by auto
    then show ?thesis using trims_reproduces [OF assms(1) _ assms(2)] trims_mono by blast
  next
    assume "minimize T s = Some (Inl (User_Abort d))"
    with r have "died T s (User_Abort d)" by auto
    then show ?thesis using died_reproduces [OF assms(1) _ assms(2)] by blast
  qed
qed

text \<open>
  C3: on a steady target the result of \<^verbatim>\<open>minimize\<close> is minimal for the deletion of single
  bytes: without any one of its bytes it no longer shows the behaviour. The block lengths, the
  skipping of a block equal to its predecessor and the early end of the second pass do not cost
  this.
\<close>

theorem minimize_one_minimal:
  assumes "steady T" and "minimize T s = Some (Inr s')" and "p < length (in_data s')"
  shows "\<not> reproduces T s (delete_byte p (in_data s'))"
proof -
  obtain c where "trims T c s s'" using minimize_ends [of T s] assms(2) by auto
  then have "job s' = job s" using trims_mono by blast
  moreover have "needed T s' p" using minimize_needed [OF assms(2,1)] assms(3) by blast
  ultimately show ?thesis using reproduces_cong [OF assms(1), of s' s] by (simp add: needed_def)
qed

text \<open>The fork server kills a target that times out, and reports that as a timeout.\<close>

definition timeouts_kill :: "target \<Rightarrow> bool" where
  "timeouts_kill T \<longleftrightarrow> (\<forall>n d. run_timed_out (exec T n d) \<longleftrightarrow> run_result (exec T n d) = FSRV_RUN_TMOUT)"

lemma dry_run_reproduces:
  assumes "steady T" and "timeouts_kill T" and "\<not> crash_mode s"
    and "tmin_run_target T (in_data s) True s = Inr (b, s1)" and "last_run_timed_out s1 \<longleftrightarrow> hang_mode s1"
  shows "reproduces T s1 (in_data s1)" and "in_data s1 = in_data s"
proof -
  define r where "r = exec T (total_execs s) (in_data s)"
  have t: "run_timed_out r \<longleftrightarrow> run_result r = FSRV_RUN_TMOUT" using assms(2) by (simp add: timeouts_kill_def r_def)
  note unf = tmin_run_target_def r_def [symmetric] Let_def
  show d: "in_data s1 = in_data s"
    using assms(4) by (cases "run_result r") (auto simp: unf split: if_splits)
  have "keeps T s1 r"
    using assms(3-5) t
    by (cases "run_result r")
      (auto simp: unf keeps_def trace_cksum_def classified_trace split: if_splits)
  then show "reproduces T s1 (in_data s1)"
    unfolding reproduces_def d r_def using keeps_cong [OF assms(1) refl] by blast
qed

text \<open>
  C6: the whole tool, from the dry run to the output file, on a steady target: the file
  written shows the behaviour that the dry run observed for the input, is no longer, and is minimal
  for the deletion of single bytes.
\<close>

theorem tmin_main_output:
  assumes "steady T" and "timeouts_kill T" and "\<not> crash_mode s" and "tmin_main T s = Some (Inr out)"
  shows "\<exists>b s1. tmin_run_target T (in_data s) True s = Inr (b, s1) \<and> reproduces T s1 (in_data s) \<and>
    reproduces T s1 out \<and> length out \<le> length (in_data s) \<and>
    (\<forall>p < length out. \<not> reproduces T s1 (delete_byte p out))"
proof -
  obtain b s1 where dry: "tmin_run_target T (in_data s) True s = Inr (b, s1)"
    using assms(4) by (auto simp: tmin_main_def split: sum.splits)
  then obtain s2 where to: "last_run_timed_out s1 \<longleftrightarrow> hang_mode s1"
    and m: "minimize T s1 = Some (Inr s2)" "out = in_data s2"
    using assms(4) by (auto simp: tmin_main_def split: if_splits bind_splits sum.splits)
  note r = dry_run_reproduces [OF assms(1-3) dry to]
  obtain c where t: "trims T c s1 s2" using minimize_ends [of T s1] m by auto
  then have "reproduces T s1 out" "length out \<le> length (in_data s)" "job s2 = job s1"
    using trims_reproduces [OF assms(1) t r(1)] trims_mono [OF t] m r by auto
  moreover have "\<forall>p < length out. \<not> reproduces T s1 (delete_byte p out)"
    using minimize_needed [OF m(1) assms(1)] reproduces_cong [OF assms(1) \<open>job s2 = job s1\<close>] m
    by (simp add: needed_def)
  ultimately show ?thesis using dry r by auto
qed

text \<open>A target that crashes on inputs with a byte 7, and a session on it.\<close>

definition crash7 :: target where
  "crash7 = \<lparr>exec = (\<lambda>n d. \<lparr>run_result = if 7 \<in> set d then FSRV_RUN_CRASH else FSRV_RUN_OK,
     run_trace = [], run_timed_out = False, run_stop_soon = False\<rparr>), hash64 = (\<lambda>t. 0)\<rparr>"

definition session :: "bool \<Rightarrow> u8 list \<Rightarrow> tmin" where
  "session cm d = \<lparr>in_data = d, tm_trace_bits = [], tm_map_size = 0, mask_bitmap = None, orig_cksum = 0,
     crash_mode = cm, hang_mode = False, edges_only = False, exact_mode = False,
     last_run_timed_out = False, missed_hangs = 0, missed_crashes = 0, missed_paths = 0, total_execs = 0\<rparr>"

lemma steady_crash7: "steady crash7" "timeouts_kill crash7"
  by (simp_all add: steady_def timeouts_kill_def crash7_def)

declare normalize_loop.simps [code] delete_loop.simps [code] delete_blocks.simps [code] passes.simps [code]

lemma minimize_crash7: "map_option (map_sum id in_data) (minimize crash7 (session True [1, 7, 2])) = Some (Inr [7])"
  by code_simp

lemma main_crash7: "tmin_main crash7 (session False [1, 7, 2]) = Some (Inr [7])"
  by code_simp

theorem tmin_run_target_decides_witness:
  "\<exists>s'. tmin_run_target crash7 [3, 7] False (session True [1, 7, 2]) =
     Inr (keeps crash7 (session True [1, 7, 2]) (exec crash7 0 [3, 7]), s') \<and>
     in_data s' = [1, 7, 2] \<and> job s' = job (session True [1, 7, 2])"
  using tmin_run_target_decides [of crash7 "session True [1, 7, 2]" "[3, 7]"]
  by (simp add: crash7_def session_def)

theorem minimize_reproduces_witness:
  "reproduces crash7 (session True [1, 7, 2]) [7] \<and> length [7 :: u8] \<le> 3"
proof -
  obtain s' where "minimize crash7 (session True [1, 7, 2]) = Some (Inr s')" "in_data s' = [7]"
    using minimize_crash7 by (cases "minimize crash7 (session True [1, 7, 2])" rule: option.exhaust)
      (auto simp: map_sum_def split: sum.splits)
  moreover have "reproduces crash7 (session True [1, 7, 2]) (in_data (session True [1, 7, 2]))"
    by (simp add: reproduces_def keeps_def crash7_def session_def)
  ultimately show ?thesis
    using minimize_reproduces [OF steady_crash7(1), of "session True [1, 7, 2]" s' "[7]"] by (simp add: session_def)
qed

theorem minimize_one_minimal_witness:
  "\<not> reproduces crash7 (session True [1, 7, 2]) (delete_byte 0 [7])"
proof -
  obtain s' where "minimize crash7 (session True [1, 7, 2]) = Some (Inr s')" "in_data s' = [7]"
    using minimize_crash7 by (cases "minimize crash7 (session True [1, 7, 2])" rule: option.exhaust)
      (auto simp: map_sum_def split: sum.splits)
  then show ?thesis using minimize_one_minimal [OF steady_crash7(1), of "session True [1, 7, 2]" s' 0] by simp
qed

theorem tmin_main_output_witness:
  "\<exists>b s1. tmin_run_target crash7 [1, 7, 2] True (session False [1, 7, 2]) = Inr (b, s1) \<and>
    reproduces crash7 s1 [1, 7, 2] \<and> reproduces crash7 s1 [7] \<and> length [7 :: u8] \<le> 3 \<and>
    (\<forall>p < length [7 :: u8]. \<not> reproduces crash7 s1 (delete_byte p [7]))"
  using tmin_main_output [OF steady_crash7 _ main_crash7] by (simp add: session_def)

end
