(* ===== verification/Ranges.thy ===== *)
theory Ranges
  imports Prelude
begin

text \<open>
  Instrumentation ranges of the FRIDA mode, \<^verbatim>\<open>frida_mode/src/ranges.c\<close>: parsing of the range
  lists, interval arithmetic on 64-bit addresses, and the set-up that decides which
  code is left uninstrumented. GLib, the module list of the process and the bounds of the main
  executable are parameters.
\<close>

section \<open>Data\<close>

record mem_range =
  base_address :: u64
  range_size :: u64

text \<open>What the file takes from GLib and from the process.\<close>

record glib =
  g_strsplit :: "string \<Rightarrow> char \<Rightarrow> nat \<Rightarrow> string list"
  g_ascii_strtoull :: "string \<Rightarrow> u64"
  g_array_sort :: "(mem_range \<Rightarrow> mem_range \<Rightarrow> int) \<Rightarrow> mem_range list \<Rightarrow> mem_range list"

record range_details =
  detail_range :: mem_range
  detail_file :: "string option"

record process_info =
  enumerate_modules :: "range_details list"
  enumerate_ranges :: "range_details list"
  enumerate_executable :: "range_details list"
  lib_text_base :: u64
  lib_text_limit :: u64
  getenv :: "string \<Rightarrow> string option"

record ranges_state =
  ranges_inst_libs :: bool
  ranges_inst_jit :: bool
  include_ranges :: "mem_range list"
  exclude_ranges :: "mem_range list"
  module_ranges :: "mem_range list"
  final_ranges :: "mem_range list option"

definition MAX_RANGES :: nat where "MAX_RANGES = (20 :: nat)"

definition limit :: "mem_range \<Rightarrow> u64" where
  "limit r = base_address r + range_size r"

section \<open>Parsing\<close>

definition isxdigit :: "char \<Rightarrow> bool" where
  "isxdigit c \<longleftrightarrow> c \<in> set ''0123456789abcdefABCDEF''"

definition has_prefix :: "string \<Rightarrow> string \<Rightarrow> bool" where
  "has_prefix s p \<longleftrightarrow> take (length p) s = p"

definition has_suffix :: "string \<Rightarrow> string \<Rightarrow> bool" where
  "has_suffix s p \<longleftrightarrow> length p \<le> length s \<and> drop (length s - length p) s = p"

definition convert_address_token :: "glib \<Rightarrow> string \<Rightarrow> fatal + mem_range" where
  "convert_address_token G token =
    (case g_strsplit G token (CHR ''-'') 2 of
       [from_str, to_str] \<Rightarrow>
         if \<not> has_prefix from_str ''0x'' then Inl (FATAL ''Start address should have 0x prefix'')
         else if \<not> has_prefix to_str ''0x'' then Inl (FATAL ''End address should have 0x prefix'')
         else
           let from_str = drop 2 from_str; to_str = drop 2 to_str
           in if \<not> list_all isxdigit from_str then Inl (FATAL ''Start address not formed of hex digits'')
           else if \<not> list_all isxdigit to_str then Inl (FATAL ''End address not formed of hex digits'')
           else
             let start = g_ascii_strtoull G from_str; stop = g_ascii_strtoull G to_str
             in if start = 0 then Inl (FATAL ''Start failed hex conversion'')
             else if stop = 0 then Inl (FATAL ''End failed hex conversion'')
             else if stop \<le> start then Inl (FATAL ''Start must be less than end'')
             else Inr \<lparr>base_address = start, range_size = stop - start\<rparr>
     | _ \<Rightarrow> Inl (FATAL ''Invalid range (should have two addresses seperated by a '-')''))"

text \<open>The callback stops the enumeration at the first module whose path has the suffix.\<close>

fun convert_name_token_for_module :: "range_details list \<Rightarrow> string \<Rightarrow> mem_range option" where
  "convert_name_token_for_module [] suffix = None"
| "convert_name_token_for_module (d # ds) suffix =
    (case detail_file d of
       None \<Rightarrow> convert_name_token_for_module ds suffix
     | Some path \<Rightarrow> if \<not> has_suffix path suffix then convert_name_token_for_module ds suffix
         else Some (detail_range d))"

definition convert_name_token :: "process_info \<Rightarrow> string \<Rightarrow> fatal + mem_range" where
  "convert_name_token P token =
    (case convert_name_token_for_module (enumerate_modules P) (CHR ''/'' # token) of
       None \<Rightarrow> Inl (FATAL ''Failed to resolve module'') | Some r \<Rightarrow> Inr r)"

definition convert_token :: "glib \<Rightarrow> process_info \<Rightarrow> string \<Rightarrow> fatal + mem_range" where
  "convert_token G P token =
    (if has_prefix token ''0x'' then convert_address_token G token else convert_name_token P token)"

text \<open>The comparator returns a C \<^verbatim>\<open>int\<close>: the difference of the addresses, cut to 32 bits.\<close>

definition range_sort :: "mem_range \<Rightarrow> mem_range \<Rightarrow> int" where
  "range_sort a b = sint (ucast (base_address a - base_address b) :: 32 word)"

fun check_for_overlaps :: "mem_range list \<Rightarrow> fatal + unit" where
  "check_for_overlaps (prev # cur # rs) =
    (if base_address cur < limit prev then Inl (FATAL ''OVerlapping ranges'')
     else check_for_overlaps (cur # rs))"
| "check_for_overlaps _ = Inr ()"

definition add_range :: "glib \<Rightarrow> mem_range \<Rightarrow> mem_range list \<Rightarrow> fatal + mem_range list" where
  "add_range G r rs = (let rs = g_array_sort G range_sort (rs @ [r])
     in and_then (check_for_overlaps rs) (\<lambda>_. Inr rs))"

definition ranges_add_include :: "glib \<Rightarrow> mem_range \<Rightarrow> ranges_state \<Rightarrow> fatal + ranges_state" where
  "ranges_add_include G r s =
     and_then (add_range G r (include_ranges s)) (\<lambda>rs. Inr (s\<lparr>include_ranges := rs\<rparr>))"

definition ranges_add_exclude :: "glib \<Rightarrow> mem_range \<Rightarrow> ranges_state \<Rightarrow> fatal + ranges_state" where
  "ranges_add_exclude G r s =
     and_then (add_range G r (exclude_ranges s)) (\<lambda>rs. Inr (s\<lparr>exclude_ranges := rs\<rparr>))"

fun convert_tokens :: "glib \<Rightarrow> process_info \<Rightarrow> string list \<Rightarrow> fatal + mem_range list" where
  "convert_tokens G P [] = Inr []"
| "convert_tokens G P (t # ts) =
     and_then (convert_token G P t) (\<lambda>r. and_then (convert_tokens G P ts) (\<lambda>rs. Inr (r # rs)))"

definition collect_ranges :: "glib \<Rightarrow> process_info \<Rightarrow> string \<Rightarrow> fatal + mem_range list" where
  "collect_ranges G P env_key =
    (case getenv P env_key of
       None \<Rightarrow> Inr []
     | Some v \<Rightarrow> and_then (convert_tokens G P (g_strsplit G v (CHR '','') MAX_RANGES)) (\<lambda>rs.
         let rs = g_array_sort G range_sort rs
         in and_then (check_for_overlaps rs) (\<lambda>_. Inr rs)))"

definition ranges_config :: "glib \<Rightarrow> process_info \<Rightarrow> ranges_state \<Rightarrow> fatal + ranges_state" where
  "ranges_config G P s =
    (let s = (if getenv P ''AFL_INST_LIBS'' \<noteq> None then s\<lparr>ranges_inst_libs := True\<rparr> else s);
         s = (if getenv P ''AFL_FRIDA_INST_JIT'' \<noteq> None then s\<lparr>ranges_inst_jit := True\<rparr> else s)
     in and_then (collect_ranges G P ''AFL_FRIDA_INST_RANGES'') (\<lambda>inc.
        and_then (collect_ranges G P ''AFL_FRIDA_EXCLUDE_RANGES'') (\<lambda>exc.
          Inr (s\<lparr>include_ranges := inc, exclude_ranges := exc\<rparr>))))"

section \<open>Interval arithmetic\<close>

definition intersect_range :: "mem_range \<Rightarrow> mem_range \<Rightarrow> mem_range \<times> bool" where
  "intersect_range ra rb =
    (let rab = base_address ra; ral = rab + range_size ra;
         rbb = base_address rb; rbl = rbb + range_size rb
     in if ral < rbb then (\<lparr>base_address = 0, range_size = 0\<rparr>, False)
     else if rbl < rab then (\<lparr>base_address = 0, range_size = 0\<rparr>, True)
     else
       let rrb = (if rbb < rab then rab else rbb); rrl = (if ral < rbl then ral else rbl)
       in (\<lparr>base_address = rrb, range_size = rrl - rrb\<rparr>, True))"

fun intersect_row :: "mem_range \<Rightarrow> mem_range list \<Rightarrow> mem_range list" where
  "intersect_row ra [] = []"
| "intersect_row ra (rb # rbs) =
    (case intersect_range ra rb of (ri, go) \<Rightarrow>
       if \<not> go then [] else if range_size ri = 0 then intersect_row ra rbs
       else ri # intersect_row ra rbs)"

definition intersect_ranges :: "mem_range list \<Rightarrow> mem_range list \<Rightarrow> mem_range list" where
  "intersect_ranges a b = concat (map (\<lambda>ra. intersect_row ra b) a)"

text \<open>The inner loop of \<^verbatim>\<open>subtract_ranges\<close> moves \<^verbatim>\<open>ra\<close> along; \<^verbatim>\<open>ral\<close> is fixed before it.\<close>

fun subtract_row :: "u64 \<Rightarrow> mem_range \<Rightarrow> mem_range list \<Rightarrow> mem_range list \<times> mem_range" where
  "subtract_row ral ra [] = ([], ra)"
| "subtract_row ral ra (rb # rbs) =
    (case intersect_range ra rb of (ri, go) \<Rightarrow>
       if \<not> go then ([], ra) else if range_size ri = 0 then subtract_row ral ra rbs
       else
         let out = (if base_address ra < base_address ri
                    then [\<lparr>base_address = base_address ra, range_size = base_address ri - base_address ra\<rparr>]
                    else [])
         in if ral < limit ri then (out, \<lparr>base_address = ral, range_size = 0\<rparr>)
         else
           let ra = \<lparr>base_address = limit ri, range_size = ral - limit ri\<rparr>
           in (case subtract_row ral ra rbs of (rs, ra) \<Rightarrow> (out @ rs, ra)))"

text \<open>The result, and what is left of the first argument, which is updated in place.\<close>

definition subtract_ranges :: "mem_range list \<Rightarrow> mem_range list \<Rightarrow> mem_range list \<times> mem_range list" where
  "subtract_ranges a b =
    (let rows = map (\<lambda>ra. subtract_row (limit ra) ra b) a
     in (concat (map (\<lambda>(rs, ra). rs @ (if range_size ra \<noteq> 0 then [ra] else [])) rows), map snd rows))"

fun merge_loop :: "mem_range \<Rightarrow> mem_range list \<Rightarrow> mem_range list" where
  "merge_loop rp [] = [rp]"
| "merge_loop rp (r # rs) =
    (if limit rp = base_address r then merge_loop (rp\<lparr>range_size := range_size rp + range_size r\<rparr>) rs
     else rp # merge_loop r rs)"

definition merge_ranges :: "mem_range list \<Rightarrow> mem_range list" where
  "merge_ranges a = (case a of [] \<Rightarrow> [] | rp # rs \<Rightarrow> merge_loop rp rs)"

section \<open>Set-up and query\<close>

definition collect_module_ranges :: "process_info \<Rightarrow> mem_range list" where
  "collect_module_ranges P = map detail_range (enumerate_ranges P)"

definition collect_libs_ranges :: "process_info \<Rightarrow> bool \<Rightarrow> mem_range list" where
  "collect_libs_ranges P inst_libs =
    [if inst_libs then \<lparr>base_address = 0, range_size = 0xffffffffffffffff\<rparr>
     else \<lparr>base_address = lib_text_base P, range_size = lib_text_limit P - lib_text_base P\<rparr>]"

definition collect_jit_ranges :: "process_info \<Rightarrow> bool \<Rightarrow> mem_range list" where
  "collect_jit_ranges P inst_jit =
    (if \<not> inst_jit then map detail_range (filter (\<lambda>d. detail_file d = None) (enumerate_executable P)) else [])"

definition ranges_init :: "process_info \<Rightarrow> ranges_state \<Rightarrow> ranges_state" where
  "ranges_init P s =
    (let modules = collect_module_ranges P;
         libs = collect_libs_ranges P (ranges_inst_libs s);
         jit = collect_jit_ranges P (ranges_inst_jit s);
         inc = (if include_ranges s = []
                then include_ranges s @ [\<lparr>base_address = 0, range_size = 0xffffffffffffffff\<rparr>]
                else include_ranges s);
         step1 = intersect_ranges modules libs;
         step2 = intersect_ranges step1 inc;
         step3 = fst (subtract_ranges step2 (exclude_ranges s));
         step4 = fst (subtract_ranges step3 jit);
         (step5, modules) = subtract_ranges modules step4
     in s\<lparr>include_ranges := inc, module_ranges := modules, final_ranges := Some (merge_ranges step5)\<rparr>)"

fun excluded_loop :: "u64 \<Rightarrow> mem_range list \<Rightarrow> bool" where
  "excluded_loop test [] = False"
| "excluded_loop test (cur # rs) =
    (if test < base_address cur then False
     else if test < limit cur then True
     else excluded_loop test rs)"

definition range_is_excluded :: "ranges_state \<Rightarrow> u64 \<Rightarrow> bool" where
  "range_is_excluded s address =
    (case final_ranges s of None \<Rightarrow> False | Some rs \<Rightarrow> excluded_loop address rs)"

section \<open>Ranges as sets of addresses\<close>

abbreviation lo :: "mem_range \<Rightarrow> nat" where "lo r \<equiv> unat (base_address r)"
abbreviation hi :: "mem_range \<Rightarrow> nat" where "hi r \<equiv> unat (base_address r) + unat (range_size r)"

definition covers :: "mem_range \<Rightarrow> u64 \<Rightarrow> bool" where
  "covers r x \<longleftrightarrow> lo r \<le> unat x \<and> unat x < hi r"

definition covered :: "mem_range list \<Rightarrow> u64 \<Rightarrow> bool" where
  "covered rs x \<longleftrightarrow> (\<exists>r \<in> set rs. covers r x)"

text \<open>A range does not wrap around the address space; a list of ranges is in order and
  free of overlaps.\<close>

definition no_wrap :: "mem_range \<Rightarrow> bool" where
  "no_wrap r \<longleftrightarrow> hi r < 2 ^ 64"

definition in_order :: "mem_range list \<Rightarrow> bool" where
  "in_order rs \<longleftrightarrow> (\<forall>r \<in> set rs. no_wrap r) \<and> sorted_wrt (\<lambda>r s. hi r \<le> lo s) rs"

lemma covered_simps [simp]:
  "covered [] x = False" "covered (r # rs) x = (covers r x \<or> covered rs x)"
  "covered (rs @ rs') x = (covered rs x \<or> covered rs' x)"
  by (auto simp: covered_def)

lemma in_order_Nil [simp]: "in_order []"
  by (simp add: in_order_def)

lemma in_order_Cons: "in_order (r # rs) \<longleftrightarrow> no_wrap r \<and> (\<forall>s \<in> set rs. hi r \<le> lo s) \<and> in_order rs"
  by (auto simp: in_order_def)

lemma in_order_append:
  "in_order (rs @ rs') \<longleftrightarrow> in_order rs \<and> in_order rs' \<and> (\<forall>r \<in> set rs. \<forall>s \<in> set rs'. hi r \<le> lo s)"
  by (auto simp: in_order_def sorted_wrt_append)

lemma unat_add_64: "unat x + unat y < 2 ^ 64 \<Longrightarrow> unat (x + y :: u64) = unat x + unat y"
  by (simp add: unat_plus_if' word_less_nat_alt)

lemma unat_limit: "no_wrap r \<Longrightarrow> unat (limit r) = hi r"
  unfolding no_wrap_def limit_def by (rule unat_add_64)

lemma unat_minus_64: "unat y \<le> unat x \<Longrightarrow> unat (x - y :: u64) = unat x - unat y"
  by (simp add: unat_sub word_le_nat_alt)

lemma unat_eq_0_64: "x = (0 :: u64) \<longleftrightarrow> unat x = 0"
  by (simp add: unat_eq_0)

text \<open>What \<^verbatim>\<open>intersect_range\<close> computes, on natural numbers.\<close>

lemma intersect_range_cases:
  assumes "no_wrap ra" and "no_wrap rb" and "intersect_range ra rb = (ri, go)"
  shows "\<not> go \<longleftrightarrow> hi ra < lo rb"
    and "go \<Longrightarrow> range_size ri = 0 \<longleftrightarrow> min (hi ra) (hi rb) \<le> max (lo ra) (lo rb)"
    and "go \<Longrightarrow> range_size ri \<noteq> 0 \<Longrightarrow> lo ri = max (lo ra) (lo rb) \<and> hi ri = min (hi ra) (hi rb) \<and> no_wrap ri"
proof -
  note lims = unat_limit [OF assms(1), unfolded limit_def] unat_limit [OF assms(2), unfolded limit_def]
  note cmp = word_less_nat_alt word_le_nat_alt lims
  define b where "b = (if base_address rb < base_address ra then base_address ra else base_address rb)"
  define l where "l = (if base_address ra + range_size ra < base_address rb + range_size rb
    then base_address ra + range_size ra else base_address rb + range_size rb)"
  have b: "unat b = max (lo ra) (lo rb)" by (auto simp: b_def cmp)
  have l: "unat l = min (hi ra) (hi rb)" by (auto simp: l_def cmp)
  have def_unf: "intersect_range ra rb =
    (if hi ra < lo rb then (\<lparr>base_address = 0, range_size = 0\<rparr>, False)
     else if hi rb < lo ra then (\<lparr>base_address = 0, range_size = 0\<rparr>, True)
     else (\<lparr>base_address = b, range_size = l - b\<rparr>, True))"
  proof -
    have "base_address ra + range_size ra < base_address rb \<longleftrightarrow> hi ra < lo rb"
      and "base_address rb + range_size rb < base_address ra \<longleftrightarrow> hi rb < lo ra"
      by (simp_all add: cmp)
    then show ?thesis
      by (simp only: intersect_range_def Let_def b_def [symmetric] l_def [symmetric])
  qed
  show "\<not> go \<longleftrightarrow> hi ra < lo rb" using assms(3) by (auto simp: def_unf split: if_splits)
  have le: "unat b \<le> unat l" if "\<not> hi ra < lo rb" "\<not> hi rb < lo ra" using that by (auto simp: b l)
  show "range_size ri = 0 \<longleftrightarrow> min (hi ra) (hi rb) \<le> max (lo ra) (lo rb)" if go
  proof (cases "hi rb < lo ra")
    case True
    then show ?thesis using assms(3) that by (auto simp: def_unf split: if_splits)
  next
    case False
    then have "ri = \<lparr>base_address = b, range_size = l - b\<rparr>" "\<not> hi ra < lo rb"
      using assms(3) that by (auto simp: def_unf split: if_splits)
    then show ?thesis using le False b l by (simp add: unat_eq_0_64 unat_minus_64)
  qed
  show "lo ri = max (lo ra) (lo rb) \<and> hi ri = min (hi ra) (hi rb) \<and> no_wrap ri"
    if go "range_size ri \<noteq> 0"
  proof -
    have "\<not> hi rb < lo ra" "\<not> hi ra < lo rb" and ri: "ri = \<lparr>base_address = b, range_size = l - b\<rparr>"
      using assms(3) that by (auto simp: def_unf split: if_splits)
    then have "unat b \<le> unat l" using le by blast
    then have "hi ri = unat l" "lo ri = unat b" by (simp_all add: ri unat_minus_64)
    then show ?thesis using unat_lt2p [of l] by (simp add: b l no_wrap_def)
  qed
qed

lemma intersect_range_covers:
  assumes "no_wrap ra" and "no_wrap rb" and "intersect_range ra rb = (ri, go)"
  shows "go \<and> range_size ri \<noteq> 0 \<and> covers ri x \<longleftrightarrow> covers ra x \<and> covers rb x"
proof (cases "go \<and> range_size ri \<noteq> 0")
  case True
  then have "lo ri = max (lo ra) (lo rb)" "hi ri = min (hi ra) (hi rb)"
    using intersect_range_cases(3) [OF assms] by auto
  then show ?thesis using True unfolding covers_def by auto
next
  case False
  then have "min (hi ra) (hi rb) \<le> max (lo ra) (lo rb)"
    using intersect_range_cases(1,2) [OF assms] by auto
  then show ?thesis using False unfolding covers_def by auto
qed

section \<open>Intersection\<close>

lemma intersect_row_spec:
  assumes "no_wrap ra" and "in_order rbs"
  shows "covered (intersect_row ra rbs) x \<longleftrightarrow> covers ra x \<and> covered rbs x"
    and "in_order (intersect_row ra rbs)"
    and "r \<in> set (intersect_row ra rbs) \<Longrightarrow> range_size r \<noteq> 0 \<and> lo ra \<le> lo r \<and> hi r \<le> hi ra \<and> (\<exists>rb \<in> set rbs. lo rb \<le> lo r)"
  using assms(2)
proof (induction rbs arbitrary: x r)
  case Nil
  { case 1 then show ?case by simp next case 2 then show ?case by simp next case 3 then show ?case by simp }
next
  case (Cons rb rbs)
  obtain ri go where i: "intersect_range ra rb = (ri, go)" by (cases "intersect_range ra rb")
  have nw: "no_wrap rb" and tl: "in_order rbs" and after: "\<forall>s \<in> set rbs. hi rb \<le> lo s"
    if "in_order (rb # rbs)" using that by (auto simp: in_order_Cons)
  note c = intersect_range_cases [OF assms(1) _ i] and cov = intersect_range_covers [OF assms(1) _ i]
  {
    case 1
    show ?case
    proof (cases go)
      case True
      then show ?thesis using cov [OF nw [OF 1], of x] Cons.IH(1) [OF tl [OF 1], of x] by (auto simp: i)
    next
      case False
      then have "hi ra < lo rb" using c(1) [OF nw [OF 1]] by simp
      then have "\<not> covered (rb # rbs) x" if "covers ra x"
        using that after [OF 1] by (fastforce simp: covered_def covers_def)
      then show ?thesis using False by (auto simp: i)
    qed
  next
    case 2
    have "hi ri \<le> lo s" if s: "s \<in> set (intersect_row ra rbs)" "go" "range_size ri \<noteq> 0" for s
    proof -
      have "\<exists>rb' \<in> set rbs. lo rb' \<le> lo s" using Cons.IH(3) [OF s(1) tl [OF 2]] by blast
      then show ?thesis using c(3) [OF nw [OF 2]] s after [OF 2] by fastforce
    qed
    then show ?case using Cons.IH(2) [OF tl [OF 2]] c(3) [OF nw [OF 2]] by (auto simp: i in_order_Cons)
  next
    case 3
    show ?case
    proof (cases "go \<and> range_size ri \<noteq> 0 \<and> r = ri")
      case True
      then show ?thesis using c(3) [OF nw [OF 3(2)]] by auto
    next
      case False
      then have "r \<in> set (intersect_row ra rbs)" using 3(1) by (auto simp: i split: if_splits)
      then show ?thesis using Cons.IH(3) [OF _ tl [OF 3(2)]] by auto
    qed
  }
qed

lemma intersect_ranges_spec:
  assumes "in_order a" and "in_order b"
  shows "covered (intersect_ranges a b) x \<longleftrightarrow> covered a x \<and> covered b x"
    and "in_order (intersect_ranges a b)"
    and "\<forall>r \<in> set (intersect_ranges a b). range_size r \<noteq> 0 \<and> (\<exists>ra \<in> set a. lo ra \<le> lo r)"
  using assms(1)
proof (induction a)
  case Nil
  { case 1 then show ?case by (simp add: intersect_ranges_def) 
  next case 2 then show ?case by (simp add: intersect_ranges_def)
  next case 3 then show ?case by (simp add: intersect_ranges_def) }
next
  case (Cons ra a)
  have unf: "intersect_ranges (ra # a) b = intersect_row ra b @ intersect_ranges a b"
    by (simp add: intersect_ranges_def)
  note row = intersect_row_spec [OF _ assms(2), of ra]
  {
    case 1
    then show ?case using Cons.IH(1) row(1) by (auto simp: unf in_order_Cons)
  next
    case 2
    then have "hi r \<le> lo s" if "r \<in> set (intersect_row ra b)" "s \<in> set (intersect_ranges a b)" for r s
      using row(3) [OF _ that(1)] Cons.IH(3) that(2) by (fastforce simp: in_order_Cons)
    then show ?case using 2 Cons.IH(2) row(2) by (auto simp: unf in_order_Cons in_order_append)
  next
    case 3
    then show ?case using Cons.IH(3) row(3) by (fastforce simp: unf in_order_Cons)
  }
qed

section \<open>Subtraction\<close>

lemma covers_empty: "range_size r = 0 \<Longrightarrow> \<not> covers r x"
  by (simp add: covers_def)

definition row_list :: "mem_range list \<times> mem_range \<Rightarrow> mem_range list" where
  "row_list p = (case p of (rs, ra) \<Rightarrow> rs @ (if range_size ra \<noteq> 0 then [ra] else []))"

lemma subtract_ranges_row_list:
  "fst (subtract_ranges a b) = concat (map (\<lambda>ra. row_list (subtract_row (limit ra) ra b)) a)"
  by (induction a) (simp_all add: subtract_ranges_def row_list_def Let_def split_beta)

definition within :: "mem_range \<Rightarrow> mem_range list \<Rightarrow> bool" where
  "within ra rs \<longleftrightarrow> in_order rs \<and> (\<forall>r \<in> set rs. range_size r \<noteq> 0 \<and> lo ra \<le> lo r \<and> hi r \<le> hi ra)"

lemma row_list_append: "row_list (out @ rs, ra) = out @ row_list (rs, ra)"
  by (simp add: row_list_def)

lemma subtract_row_spec:
  assumes "no_wrap ra" and "unat ral = hi ra" and "in_order rbs"
  shows "(covered (row_list (subtract_row ral ra rbs)) x \<longleftrightarrow> covers ra x \<and> \<not> covered rbs x) \<and>
    within ra (row_list (subtract_row ral ra rbs))"
  using assms
proof (induction rbs arbitrary: ra)
  case Nil
  then show ?case by (auto simp: row_list_def within_def covers_empty in_order_Cons)
next
  case (Cons rb rbs)
  have nw: "no_wrap rb" and tl: "in_order rbs" and after: "\<forall>s \<in> set rbs. hi rb \<le> lo s"
    using Cons.prems(3) by (auto simp: in_order_Cons)
  obtain ri go where i: "intersect_range ra rb = (ri, go)" by (cases "intersect_range ra rb")
  note c = intersect_range_cases [OF Cons.prems(1) nw i]
  have late: "\<not> covered rbs x" if "unat x < hi rb" using that after by (fastforce simp: covered_def covers_def)
  consider (stop) "\<not> go" | (skip) "go" "range_size ri = 0" | (cut) "go" "range_size ri \<noteq> 0" by blast
  then show ?case
  proof cases
    case stop
    then have "hi ra < lo rb" using c(1) by simp
    then have "covers ra x \<Longrightarrow> \<not> covered (rb # rbs) x"
      using late by (auto simp: covers_def)
    then show ?thesis using stop Cons.prems(1)
      by (auto simp: i row_list_def within_def covers_empty in_order_Cons)
  next
    case skip
    then have "\<not> (covers ra x \<and> covers rb x)" using c(2) by (auto simp: covers_def)
    then show ?thesis using skip Cons.IH [OF Cons.prems(1,2) tl] by (auto simp: i)
  next
    case cut
    then have ri: "lo ri = max (lo ra) (lo rb)" "hi ri = min (hi ra) (hi rb)" "no_wrap ri"
      and pos: "max (lo ra) (lo rb) < min (hi ra) (hi rb)"
      using c(2,3) by auto
    have lim: "unat (limit ri) = hi ri" using ri(3) by (rule unat_limit)
    define ra' where "ra' = \<lparr>base_address = limit ri, range_size = ral - limit ri\<rparr>"
    define out where "out = (if base_address ra < base_address ri
      then [\<lparr>base_address = base_address ra, range_size = base_address ri - base_address ra\<rparr>] else [])"
    have no_past: "\<not> ral < limit ri" using ri(2) Cons.prems(2) by (simp add: word_less_nat_alt lim)
    obtain rs ra2 where rest: "subtract_row ral ra' rbs = (rs, ra2)" by (cases "subtract_row ral ra' rbs")
    have unf: "row_list (subtract_row ral ra (rb # rbs)) = out @ row_list (subtract_row ral ra' rbs)"
      using cut no_past rest
      by (simp add: i Let_def ra'_def [symmetric] out_def [symmetric] row_list_append)
    have ra': "lo ra' = hi ri" "hi ra' = hi ra" "no_wrap ra'" "unat ral = hi ra'"
      using ri(2) Cons.prems(1,2) by (simp_all add: ra'_def lim unat_minus_64 no_wrap_def)
    note IH = Cons.IH [OF ra'(3,4) tl]
    have out: "covered out x \<longleftrightarrow> lo ra \<le> unat x \<and> unat x < lo rb"
      using ri(1) by (auto simp: out_def covers_def word_less_nat_alt unat_minus_64)
    have ra'_cov: "covers ra' x \<longleftrightarrow> hi rb \<le> unat x \<and> unat x < hi ra"
    proof -
      have "covers ra' x \<longleftrightarrow> hi ri \<le> unat x \<and> unat x < hi ra"
        by (simp only: covers_def ra'(2)) (simp only: ra'(1))
      then show ?thesis using ri(2) by auto
    qed
    have cov: "covered out x \<or> covers ra' x \<and> \<not> covered rbs x \<longleftrightarrow> covers ra x \<and> \<not> covered (rb # rbs) x"
      using out ra'_cov pos late by (auto simp: covers_def [of ra] covers_def [of rb])
    have o: "\<forall>r \<in> set out. range_size r \<noteq> 0 \<and> no_wrap r \<and> lo r = lo ra \<and> hi r = lo ri"
      using ri(3) by (auto simp: out_def word_less_nat_alt unat_minus_64 unat_eq_0_64 no_wrap_def)
    have "within ra (out @ row_list (subtract_row ral ra' rbs))"
      using IH o ra' ri pos
      by (auto simp: within_def in_order_append in_order_Cons out_def split: if_splits)
    with IH cov show ?thesis unfolding unf by simp
  qed
qed

lemma subtract_ranges_spec:
  assumes "in_order a" and "in_order b"
  shows "(covered (fst (subtract_ranges a b)) x \<longleftrightarrow> covered a x \<and> \<not> covered b x) \<and>
    in_order (fst (subtract_ranges a b)) \<and>
    (\<forall>r \<in> set (fst (subtract_ranges a b)). range_size r \<noteq> 0 \<and> (\<exists>ra \<in> set a. lo ra \<le> lo r))"
  using assms(1)
proof (induction a)
  case Nil
  then show ?case by (simp add: subtract_ranges_def)
next
  case (Cons ra a)
  define row where "row = row_list (subtract_row (limit ra) ra b)"
  have unf: "fst (subtract_ranges (ra # a) b) = row @ fst (subtract_ranges a b)"
    by (simp add: subtract_ranges_row_list row_def)
  have ra: "no_wrap ra" "in_order a" "\<forall>s \<in> set a. hi ra \<le> lo s"
    using Cons.prems by (auto simp: in_order_Cons)
  have row: "(covered row x \<longleftrightarrow> covers ra x \<and> \<not> covered b x) \<and> within ra row"
    unfolding row_def by (rule subtract_row_spec [OF ra(1) unat_limit [OF ra(1)] assms(2)])
  note IH = Cons.IH [OF ra(2)]
  have "hi r \<le> lo s" if "r \<in> set row" "s \<in> set (fst (subtract_ranges a b))" for r s
    using row IH that ra(3) by (fastforce simp: within_def)
  then show ?case using row IH by (auto simp: unf within_def in_order_append)
qed

section \<open>Merging and the query\<close>

lemma merge_loop_spec:
  "in_order (rp # rs) \<Longrightarrow>
    (covered (merge_loop rp rs) x \<longleftrightarrow> covered (rp # rs) x) \<and> (\<forall>r \<in> set (merge_loop rp rs). no_wrap r \<and> lo rp \<le> lo r) \<and>
    sorted_wrt (\<lambda>r s. hi r < lo s) (merge_loop rp rs)"
proof (induction rp rs rule: merge_loop.induct)
  case (1 rp)
  then show ?case by (simp add: in_order_Cons)
next
  case (2 rp r rs)
  have nw: "no_wrap rp" "no_wrap r" and le: "hi rp \<le> lo r" and tl: "in_order (r # rs)"
    and after: "\<forall>s \<in> set rs. hi r \<le> lo s"
    using 2(3) by (auto simp: in_order_Cons)
  have lim: "unat (limit rp) = hi rp" using nw(1) by (rule unat_limit)
  show ?case
  proof (cases "limit rp = base_address r")
    case True
    define m where "m = rp\<lparr>range_size := range_size rp + range_size r\<rparr>"
    have eq: "hi rp = lo r" using True lim by simp
    then have "unat (range_size m) = unat (range_size rp) + unat (range_size r)"
      using nw(2) unfolding m_def no_wrap_def by (simp add: unat_add_64)
    then have m: "lo m = lo rp" "hi m = hi r" using eq by (simp_all add: m_def)
    then have "in_order (m # rs)"
      using 2(3) nw(2) by (auto simp: in_order_Cons no_wrap_def)
    moreover have "covers m x \<longleftrightarrow> covers rp x \<or> covers r x"
    proof -
      have "covers m x \<longleftrightarrow> lo rp \<le> unat x \<and> unat x < hi r"
        by (simp only: covers_def m(2)) (simp only: m(1))
      then show ?thesis using eq by (auto simp: covers_def)
    qed
    ultimately show ?thesis using 2(1) [OF True] True m(1) by (simp add: m_def [symmetric])
  next
    case False
    then have "hi rp \<noteq> lo r" using lim by (metis word_unat_eq_iff)
    then have "hi rp < lo r" using le by simp
    then show ?thesis using 2(2) [OF False tl] False nw by fastforce
  qed
qed

lemma merge_ranges_spec:
  assumes "in_order a"
  shows "(covered (merge_ranges a) x \<longleftrightarrow> covered a x) \<and> (\<forall>r \<in> set (merge_ranges a). no_wrap r) \<and>
    sorted_wrt (\<lambda>r s. hi r < lo s) (merge_ranges a)"
  using assms by (cases a) (auto simp: merge_ranges_def dest: merge_loop_spec)

lemma gaps_in_order:
  "\<forall>r \<in> set rs. no_wrap r \<Longrightarrow> sorted_wrt (\<lambda>r s. hi r < lo s) rs \<Longrightarrow> in_order rs"
  unfolding in_order_def using sorted_wrt_mono_rel [of rs "\<lambda>r s. hi r < lo s" "\<lambda>r s. hi r \<le> lo s"]
  by (simp add: less_imp_le)

lemma excluded_loop_spec: "in_order rs \<Longrightarrow> excluded_loop x rs \<longleftrightarrow> covered rs x"
proof (induction rs)
  case (Cons r rs)
  then have r: "no_wrap r" "in_order rs" "\<forall>s \<in> set rs. hi r \<le> lo s" by (auto simp: in_order_Cons)
  have "unat x < lo r \<Longrightarrow> \<not> covered rs x" using r(3) by (fastforce simp: covered_def covers_def)
  then show ?case using Cons.IH [OF r(2)]
    by (auto simp: word_less_nat_alt unat_limit [OF r(1)] covers_def)
qed simp

section \<open>Parsed ranges\<close>

lemma check_for_overlaps_in_order:
  "\<forall>r \<in> set rs. no_wrap r \<Longrightarrow> check_for_overlaps rs = Inr () \<longleftrightarrow> in_order rs"
proof (induction rs rule: check_for_overlaps.induct)
  case (1 p c rs)
  have nw: "no_wrap p" "no_wrap c" and IH: "check_for_overlaps (c # rs) = Inr () \<longleftrightarrow> in_order (c # rs)"
    if "\<not> base_address c < limit p"
    using 1 that by auto
  have lim: "unat (limit p) = hi p" using 1(2) by (intro unat_limit) simp
  show ?case
  proof (cases "base_address c < limit p")
    case True
    then show ?thesis by (simp add: in_order_Cons word_less_nat_alt lim)
  next
    case False
    then have "hi p \<le> lo c" by (simp add: word_less_nat_alt lim)
    then have "in_order (p # c # rs) \<longleftrightarrow> in_order (c # rs)"
      using nw(1) [OF False] by (fastforce simp: in_order_Cons)
    then show ?thesis using IH [OF False] False by simp
  qed
qed (auto simp: in_order_Cons)

lemma convert_address_token_range:
  assumes "convert_address_token G token = Inr r"
  shows "no_wrap r" and "range_size r \<noteq> 0" and "\<exists>a b. g_strsplit G token (CHR ''-'') 2 = [a, b] \<and>
    base_address r = g_ascii_strtoull G (drop 2 a) \<and> limit r = g_ascii_strtoull G (drop 2 b)"
proof -
  obtain a b where ab: "g_strsplit G token (CHR ''-'') 2 = [a, b]"
    using assms by (auto simp: convert_address_token_def split: list.splits)
  define x where "x = g_ascii_strtoull G (drop 2 a)"
  define y where "y = g_ascii_strtoull G (drop 2 b)"
  have r: "r = \<lparr>base_address = x, range_size = y - x\<rparr>" and xy: "x < y"
    using assms ab by (auto simp: convert_address_token_def Let_def x_def y_def split: if_splits)
  then have "unat (y - x) = unat y - unat x" "unat x < unat y"
    by (simp_all add: unat_minus_64 word_less_nat_alt)
  then show "no_wrap r" "range_size r \<noteq> 0"
    using unat_lt2p [of y] by (auto simp: r no_wrap_def unat_eq_0_64)
  show "\<exists>a b. g_strsplit G token (CHR ''-'') 2 = [a, b] \<and>
    base_address r = g_ascii_strtoull G (drop 2 a) \<and> limit r = g_ascii_strtoull G (drop 2 b)"
    using ab by (simp add: r limit_def x_def y_def)
qed

lemma convert_name_token_for_module_in:
  "convert_name_token_for_module ds sfx = Some r \<Longrightarrow> \<exists>d \<in> set ds. r = detail_range d"
  by (induction ds sfx rule: convert_name_token_for_module.induct) (auto split: option.splits if_splits)

text \<open>The modules of a process do not wrap around, and its mappings are enumerated in order.\<close>

definition process_ok :: "process_info \<Rightarrow> bool" where
  "process_ok P \<longleftrightarrow> (\<forall>d \<in> set (enumerate_modules P). no_wrap (detail_range d)) \<and>
     in_order (map detail_range (enumerate_ranges P)) \<and>
     in_order (map detail_range (enumerate_executable P)) \<and>
     lib_text_base P \<le> lib_text_limit P"

lemma convert_token_no_wrap:
  assumes "process_ok P" and "convert_token G P token = Inr r" shows "no_wrap r"
  using assms convert_address_token_range(1)
  by (auto simp: convert_token_def convert_name_token_def process_ok_def split: if_splits option.splits
      dest!: convert_name_token_for_module_in)

lemma convert_tokens_no_wrap:
  "process_ok P \<Longrightarrow> convert_tokens G P ts = Inr rs \<Longrightarrow> \<forall>r \<in> set rs. no_wrap r"
proof (induction G P ts arbitrary: rs rule: convert_tokens.induct)
  case (2 G P t ts)
  then show ?case by (auto simp: and_then_Inr_iff dest: convert_token_no_wrap)
qed simp

lemma collect_ranges_ok:
  assumes "process_ok P" and "sorter (g_array_sort G)" and "collect_ranges G P key = Inr rs"
  shows "in_order rs"
proof (cases "getenv P key")
  case None
  then show ?thesis using assms(3) by (simp add: collect_ranges_def)
next
  case (Some v)
  then obtain xs where xs: "convert_tokens G P (g_strsplit G v (CHR '','') MAX_RANGES) = Inr xs"
    and rs: "rs = g_array_sort G range_sort xs" "check_for_overlaps rs = Inr ()"
    using assms(3) by (auto simp: collect_ranges_def and_then_Inr_iff Let_def)
  have "\<forall>r \<in> set rs. no_wrap r"
    using convert_tokens_no_wrap [OF assms(1) xs] sorter.sort_by_set [OF assms(2)] by (simp add: rs(1))
  then show ?thesis using check_for_overlaps_in_order rs(2) by blast
qed

section \<open>Properties\<close>

text \<open>
  C11: the intervals of \<^verbatim>\<open>subtract_ranges\<close> are the set difference of its arguments, in order
  and without empty ones.
\<close>

theorem subtract_ranges_difference:
  assumes "in_order a" and "in_order b"
  shows "(\<forall>x. covered (fst (subtract_ranges a b)) x \<longleftrightarrow> covered a x \<and> \<not> covered b x) \<and>
    in_order (fst (subtract_ranges a b)) \<and> (\<forall>r \<in> set (fst (subtract_ranges a b)). range_size r \<noteq> 0)"
  using subtract_ranges_spec [OF assms] by blast

text \<open>
  C12: the intervals of \<^verbatim>\<open>intersect_ranges\<close> are the set intersection of its arguments, in
  order and without empty ones.
\<close>

theorem intersect_ranges_intersection:
  assumes "in_order a" and "in_order b"
  shows "(\<forall>x. covered (intersect_ranges a b) x \<longleftrightarrow> covered a x \<and> covered b x) \<and>
    in_order (intersect_ranges a b) \<and> (\<forall>r \<in> set (intersect_ranges a b). range_size r \<noteq> 0)"
  using intersect_ranges_spec [OF assms] by blast

text \<open>
  C13: \<^verbatim>\<open>merge_ranges\<close> covers the same addresses with intervals that no longer touch.
\<close>

theorem merge_ranges_canonical:
  assumes "in_order a"
  shows "(\<forall>x. covered (merge_ranges a) x \<longleftrightarrow> covered a x) \<and> sorted_wrt (\<lambda>r s. hi r < lo s) (merge_ranges a)"
  using merge_ranges_spec [OF assms] by blast

text \<open>
  C14: a list of ranges that \<^verbatim>\<open>collect_ranges\<close> accepts from the environment is in order
  and free of overlaps, whatever the sort made of it: the check after the sort is enough.
\<close>

theorem collect_ranges_in_order:
  assumes "process_ok P" and "sorter (g_array_sort G)" and "collect_ranges G P key = Inr rs"
  shows "in_order rs"
  using assms by (rule collect_ranges_ok)

lemma everything_covers:
  "unat x < 2 ^ 64 - 1 \<Longrightarrow> covers \<lparr>base_address = 0, range_size = 0xffffffffffffffff\<rparr> x"
  by (simp add: covers_def)

lemma everything_in_order: "in_order [\<lparr>base_address = 0, range_size = 0xffffffffffffffff\<rparr>]"
  by (simp add: in_order_Cons no_wrap_def)

lemma covered_not_last: "in_order a \<Longrightarrow> covered a x \<Longrightarrow> unat x < 2 ^ 64 - 1"
  by (fastforce simp: covered_def covers_def in_order_def no_wrap_def)

lemma libs_ok:
  assumes "process_ok P"
  shows "in_order (collect_libs_ranges P libs)"
    and "unat x < 2 ^ 64 - 1 \<Longrightarrow> covered (collect_libs_ranges P libs) x \<longleftrightarrow>
           libs \<or> lib_text_base P \<le> x \<and> x < lib_text_limit P"
proof -
  have "unat (lib_text_limit P - lib_text_base P) = unat (lib_text_limit P) - unat (lib_text_base P)"
    "unat (lib_text_base P) \<le> unat (lib_text_limit P)"
    using assms by (simp_all add: process_ok_def unat_minus_64 word_le_nat_alt)
  then have "covers \<lparr>base_address = lib_text_base P, range_size = lib_text_limit P - lib_text_base P\<rparr> x \<longleftrightarrow>
      lib_text_base P \<le> x \<and> x < lib_text_limit P"
    and "no_wrap \<lparr>base_address = lib_text_base P, range_size = lib_text_limit P - lib_text_base P\<rparr>"
    using unat_lt2p [of "lib_text_limit P"]
    by (auto simp: covers_def no_wrap_def word_le_nat_alt word_less_nat_alt)
  then show "in_order (collect_libs_ranges P libs)"
    and "unat x < 2 ^ 64 - 1 \<Longrightarrow> covered (collect_libs_ranges P libs) x \<longleftrightarrow>
           libs \<or> lib_text_base P \<le> x \<and> x < lib_text_limit P"
    using everything_in_order everything_covers [of x]
    by (auto simp: collect_libs_ranges_def in_order_Cons)
qed

lemma in_order_filter: "in_order (map f xs) \<Longrightarrow> in_order (map f (filter p xs))"
  by (induction xs) (auto simp: in_order_Cons)

lemma jit_in_order: "process_ok P \<Longrightarrow> in_order (collect_jit_ranges P inst_jit)"
  by (simp add: collect_jit_ranges_def process_ok_def in_order_filter)

text \<open>
  C10: end to end. After \<^verbatim>\<open>ranges_config\<close> accepted the environment and \<^verbatim>\<open>ranges_init\<close> ran, an
  address is excluded from instrumentation exactly when it is mapped and not selected: outside
  the main executable's text (unless libraries are instrumented), outside the include list
  (unless that is empty), inside the exclude list, or in anonymous executable memory (unless JIT
  code is instrumented).
\<close>

theorem range_is_excluded_correct:
  assumes "process_ok P" and "sorter (g_array_sort G)" and "ranges_config G P s0 = Inr s"
  shows "range_is_excluded (ranges_init P s) x \<longleftrightarrow>
    covered (collect_module_ranges P) x \<and>
    \<not> ((ranges_inst_libs s \<or> lib_text_base P \<le> x \<and> x < lib_text_limit P) \<and>
       (include_ranges s = [] \<or> covered (include_ranges s) x) \<and>
       \<not> covered (exclude_ranges s) x \<and>
       \<not> covered (collect_jit_ranges P (ranges_inst_jit s)) x)"
proof -
  define m where "m = collect_module_ranges P"
  define l where "l = collect_libs_ranges P (ranges_inst_libs s)"
  define j where "j = collect_jit_ranges P (ranges_inst_jit s)"
  define i where "i = (if include_ranges s = []
    then include_ranges s @ [\<lparr>base_address = 0, range_size = 0xffffffffffffffff\<rparr>] else include_ranges s)"
  define s1 where "s1 = intersect_ranges m l"
  define s2 where "s2 = intersect_ranges s1 i"
  define s3 where "s3 = fst (subtract_ranges s2 (exclude_ranges s))"
  define s4 where "s4 = fst (subtract_ranges s3 j)"
  define s5 where "s5 = fst (subtract_ranges m s4)"
  have inc: "in_order (include_ranges s)" and exc: "in_order (exclude_ranges s)"
    using assms(3) collect_ranges_ok [OF assms(1,2)]
    by (auto simp: ranges_config_def Let_def and_then_Inr_iff)
  have m: "in_order m" using assms(1) by (simp add: m_def collect_module_ranges_def process_ok_def)
  have l: "in_order l" and j: "in_order j"
    using assms(1) by (simp_all add: l_def j_def libs_ok jit_in_order)
  have i: "in_order i" using inc everything_in_order by (simp add: i_def)
  have s1: "in_order s1" unfolding s1_def by (rule intersect_ranges_spec(2) [OF m l])
  have s2: "in_order s2" unfolding s2_def by (rule intersect_ranges_spec(2) [OF s1 i])
  have s3: "in_order s3" unfolding s3_def using subtract_ranges_spec [OF s2 exc] by blast
  have s4: "in_order s4" unfolding s4_def using subtract_ranges_spec [OF s3 j] by blast
  have s5: "in_order s5" unfolding s5_def using subtract_ranges_spec [OF m s4] by blast
  have "final_ranges (ranges_init P s) = Some (merge_ranges s5)"
    by (simp add: ranges_init_def Let_def s5_def s4_def s3_def s2_def s1_def m_def l_def j_def i_def split_beta)
  then have "range_is_excluded (ranges_init P s) x \<longleftrightarrow> covered s5 x"
    using merge_ranges_spec [OF s5] gaps_in_order [of "merge_ranges s5"]
    by (simp add: range_is_excluded_def excluded_loop_spec)
  also have "\<dots> \<longleftrightarrow> covered m x \<and> \<not> (covered l x \<and> covered i x \<and> \<not> covered (exclude_ranges s) x \<and> \<not> covered j x)"
    using subtract_ranges_spec [OF m s4] subtract_ranges_spec [OF s3 j] subtract_ranges_spec [OF s2 exc]
      intersect_ranges_spec(1) [OF s1 i] intersect_ranges_spec(1) [OF m l]
    by (simp add: s5_def s4_def s3_def s2_def s1_def) blast
  also have "\<dots> \<longleftrightarrow> covered m x \<and> \<not> ((ranges_inst_libs s \<or> lib_text_base P \<le> x \<and> x < lib_text_limit P) \<and>
       (include_ranges s = [] \<or> covered (include_ranges s) x) \<and>
       \<not> covered (exclude_ranges s) x \<and> \<not> covered j x)"
    using covered_not_last [OF m, of x] libs_ok(2) [OF assms(1)] everything_covers [of x]
    by (auto simp: l_def i_def)
  finally show ?thesis by (simp add: m_def j_def)
qed

section \<open>The comparator\<close>

lemma mod_eqI: "x = k * m + y \<Longrightarrow> 0 \<le> y \<Longrightarrow> y < m \<Longrightarrow> x mod m = (y :: int)"
  by simp

lemma mod_64_32: "(x mod 2 ^ 64 + c) mod 2 ^ 32 = (x + c) mod (2 ^ 32 :: int)"
proof -
  have "x mod 2 ^ 64 mod 2 ^ 32 = x mod (2 ^ 32 :: int)"
    by (rule mod_mod_cancel) (rule le_imp_power_dvd, simp)
  then show ?thesis by (metis mod_add_left_eq)
qed

lemma range_sort_mod:
  "range_sort a b = (int (lo a) - int (lo b) + 2 ^ 31) mod 2 ^ 32 - 2 ^ 31"
proof -
  have u: "uint (base_address a - base_address b) = (int (lo a) - int (lo b)) mod 2 ^ 64"
    by (simp add: uint_word_ariths(2))
  have "range_sort a b = sint (word_of_int (uint (base_address a - base_address b)) :: 32 word)"
    by (simp add: range_sort_def)
  also have "\<dots> = ((int (lo a) - int (lo b)) mod 2 ^ 64 + 2 ^ 31) mod 2 ^ 32 - 2 ^ 31"
    unfolding u by (subst int_word_sint) simp
  also have "\<dots> = (int (lo a) - int (lo b) + 2 ^ 31) mod 2 ^ 32 - 2 ^ 31"
    unfolding mod_64_32 ..
  finally show ?thesis .
qed

lemma range_sort_far:
  assumes "2 ^ 31 < (int (lo b) - int (lo a)) mod 2 ^ 32"
  shows "range_sort b a < 0" and "0 < range_sort a b"
proof -
  define d where "d = int (lo b) - int (lo a)"
  define q r where "q = d div 2 ^ 32" and "r = d mod 2 ^ 32"
  have d: "d = q * 2 ^ 32 + r" by (simp add: q_def r_def)
  have r: "2 ^ 31 < r" "r < 2 ^ 32" using assms by (simp_all add: d_def r_def)
  have "(d + 2 ^ 31) mod 2 ^ 32 = r + 2 ^ 31 - 2 ^ 32"
    using d r by (intro mod_eqI [of _ "q + 1"]) (auto simp: algebra_simps)
  moreover have "range_sort b a = (d + 2 ^ 31) mod 2 ^ 32 - 2 ^ 31" by (simp only: range_sort_mod d_def)
  ultimately show "range_sort b a < 0" using r by simp
  have "(- d + 2 ^ 31) mod 2 ^ 32 = 2 ^ 32 + 2 ^ 31 - r"
    using d r by (intro mod_eqI [of _ "- q - 1"]) (auto simp: algebra_simps)
  moreover have "range_sort a b = (- d + 2 ^ 31) mod 2 ^ 32 - 2 ^ 31" by (simp add: range_sort_mod d_def)
  ultimately show "0 < range_sort a b" using r by simp
qed


section \<open>Witnesses\<close>

text \<open>A process with one module, and GLib's functions on it.\<close>

fun sample_split :: "char \<Rightarrow> nat \<Rightarrow> string \<Rightarrow> string \<Rightarrow> string list" where
  "sample_split c n acc [] = [acc]"
| "sample_split c n acc (x # xs) =
    (if x = c \<and> 1 < n then acc # sample_split c (n - 1) [] xs else sample_split c n (acc @ [x]) xs)"

definition sample_hex :: "string \<Rightarrow> u64" where
  "sample_hex s = fold (\<lambda>c v. 16 * v + (if (of_char c :: nat) < 58 then of_char c - 48 else of_char c - 87)) s 0"

definition sample_glib :: glib where
  "sample_glib = \<lparr>g_strsplit = (\<lambda>s c n. sample_split c n [] s), g_ascii_strtoull = sample_hex, g_array_sort = qsort\<rparr>"

definition sample_process :: process_info where
  "sample_process = \<lparr>enumerate_modules = [], 
     enumerate_ranges = [\<lparr>detail_range = \<lparr>base_address = 0x1000, range_size = 0x2000\<rparr>, detail_file = None\<rparr>],
     enumerate_executable = [], lib_text_base = 0x1000, lib_text_limit = 0x2800,
     getenv = (\<lambda>k. if k = ''AFL_FRIDA_INST_RANGES'' then Some ''0x1000-0x2000,0x2000-0x2400'' else None)\<rparr>"

definition sample_state :: ranges_state where
  "sample_state = \<lparr>ranges_inst_libs = False, ranges_inst_jit = False, include_ranges = [],
     exclude_ranges = [], module_ranges = [], final_ranges = None\<rparr>"

lemma sample_ok: "process_ok sample_process" "sorter (g_array_sort sample_glib)"
  by (simp_all add: process_ok_def sample_process_def sample_glib_def in_order_Cons no_wrap_def qs.sorter_axioms)

lemma sample_config:
  "collect_ranges sample_glib sample_process ''AFL_FRIDA_INST_RANGES'' =
     Inr [\<lparr>base_address = 0x1000, range_size = 0x1000\<rparr>, \<lparr>base_address = 0x2000, range_size = 0x400\<rparr>]"
  "ranges_config sample_glib sample_process sample_state = Inr (sample_state\<lparr>include_ranges :=
     [\<lparr>base_address = 0x1000, range_size = 0x1000\<rparr>, \<lparr>base_address = 0x2000, range_size = 0x400\<rparr>]\<rparr>)"
  by code_simp+

theorem subtract_ranges_difference_witness:
  "covered (fst (subtract_ranges [\<lparr>base_address = 10, range_size = 20\<rparr>] [\<lparr>base_address = 15, range_size = 5\<rparr>])) 12"
  using subtract_ranges_difference [of "[\<lparr>base_address = 10, range_size = 20\<rparr>]" "[\<lparr>base_address = 15, range_size = 5\<rparr>]"]
  by (simp add: in_order_Cons no_wrap_def covers_def)

theorem intersect_ranges_intersection_witness:
  "\<not> covered (intersect_ranges [\<lparr>base_address = 10, range_size = 20\<rparr>] [\<lparr>base_address = 15, range_size = 5\<rparr>]) 12"
  using intersect_ranges_intersection [of "[\<lparr>base_address = 10, range_size = 20\<rparr>]" "[\<lparr>base_address = 15, range_size = 5\<rparr>]"]
  by (simp add: in_order_Cons no_wrap_def covers_def)

theorem merge_ranges_canonical_witness:
  "covered (merge_ranges [\<lparr>base_address = 10, range_size = 5\<rparr>, \<lparr>base_address = 15, range_size = 5\<rparr>]) 17"
  using merge_ranges_canonical [of "[\<lparr>base_address = 10, range_size = 5\<rparr>, \<lparr>base_address = 15, range_size = 5\<rparr>]"]
  by (simp add: in_order_Cons no_wrap_def covers_def)

theorem collect_ranges_in_order_witness:
  "in_order [\<lparr>base_address = 0x1000, range_size = 0x1000\<rparr>, \<lparr>base_address = 0x2000, range_size = 0x400\<rparr>]"
  by (rule collect_ranges_in_order [OF sample_ok sample_config(1)])

theorem range_is_excluded_correct_witness:
  "range_is_excluded (ranges_init sample_process (sample_state\<lparr>include_ranges :=
     [\<lparr>base_address = 0x1000, range_size = 0x1000\<rparr>, \<lparr>base_address = 0x2000, range_size = 0x400\<rparr>]\<rparr>)) 0x2400"
  by (subst range_is_excluded_correct [OF sample_ok sample_config(2)])
    (simp add: sample_process_def sample_state_def collect_module_ranges_def covers_def)


end
