(* ===== verification/Extras.thy ===== *)
theory Extras
  imports Performance
begin

text \<open>
  Dictionaries, \<^verbatim>\<open>src/afl-fuzz-extras.c\<close>: the parser of dictionary files, the list of user
  tokens (\<^verbatim>\<open>extras\<close>, kept sorted by length) and the table of tokens found automatically
  (\<^verbatim>\<open>a_extras\<close>, at most \<^verbatim>\<open>MAX_AUTO_EXTRAS\<close>). Files are a parameter; warnings are dropped;
  memory never runs out.
\<close>

section \<open>State and tables\<close>

record auto_extra =
  ae_data :: "u8 list"
  hit_cnt :: nat

record extras_state =
  extras :: "u8 list list"
  a_extras :: "auto_extra list"
  auto_changed :: bool
  ex_rng :: rng

definition MAX_DICT_FILE :: nat where "MAX_DICT_FILE = (128 :: nat)"
definition MIN_AUTO_EXTRA :: nat where "MIN_AUTO_EXTRA = (3 :: nat)"
definition MAX_AUTO_EXTRA :: nat where "MAX_AUTO_EXTRA = (32 :: nat)"
definition USE_AUTO_EXTRAS :: nat where "USE_AUTO_EXTRAS = (128 :: nat)"
definition MAX_AUTO_EXTRAS :: nat where "MAX_AUTO_EXTRAS = USE_AUTO_EXTRAS * 64"
definition MAX_LINE :: nat where "MAX_LINE = (8192 :: nat)"

definition interesting_8 :: "int list" where
  "interesting_8 = [-128, -1, 0, 1, 16, 32, 64, 100, 127]"

definition interesting_16 :: "int list" where
  "interesting_16 = interesting_8 @ [-32768, -129, 128, 255, 256, 512, 1000, 1024, 4096, 32767]"

definition interesting_32 :: "int list" where
  "interesting_32 = interesting_16 @ [-2147483648, -100663046, -32769, 32768, 65535, 65536, 100663045, 2147483647]"

text \<open>The comparators return the difference of two unsigned numbers as an \<^verbatim>\<open>int\<close>; lengths are
  below \<open>2 ^ 31\<close>.\<close>

definition compare_auto_extras_len :: "auto_extra \<Rightarrow> auto_extra \<Rightarrow> int" where
  "compare_auto_extras_len ae1 ae2 = int (length (ae_data ae1)) - int (length (ae_data ae2))"

definition compare_auto_extras_use_d :: "auto_extra \<Rightarrow> auto_extra \<Rightarrow> int" where
  "compare_auto_extras_use_d ae1 ae2 = int (hit_cnt ae2) - int (hit_cnt ae1)"

definition compare_extras_len :: "u8 list \<Rightarrow> u8 list \<Rightarrow> int" where
  "compare_extras_len e1 e2 = int (length e1) - int (length e2)"

section \<open>Characters\<close>

definition isspace :: "u8 \<Rightarrow> bool" where
  "isspace c \<longleftrightarrow> c = 32 \<or> 9 \<le> c \<and> c \<le> 13"

definition isdigit :: "u8 \<Rightarrow> bool" where
  "isdigit c \<longleftrightarrow> 48 \<le> c \<and> c \<le> 57"

definition isalnum :: "u8 \<Rightarrow> bool" where
  "isalnum c \<longleftrightarrow> isdigit c \<or> 65 \<le> c \<and> c \<le> 90 \<or> 97 \<le> c \<and> c \<le> 122"

definition isxdigit :: "u8 \<Rightarrow> bool" where
  "isxdigit c \<longleftrightarrow> isdigit c \<or> 65 \<le> c \<and> c \<le> 70 \<or> 97 \<le> c \<and> c \<le> 102"

definition tolower :: "u8 \<Rightarrow> u8" where
  "tolower c = (if 65 \<le> c \<and> c \<le> 90 then c + 32 else c)"

text \<open>\<^verbatim>\<open>strchr(hexdigits, tolower(c)) - hexdigits\<close>\<close>

definition hexval :: "u8 \<Rightarrow> u8" where
  "hexval c = (let c = tolower c in if c \<le> 57 then c - 48 else c - 87)"

fun digits_value :: "int \<Rightarrow> u8 list \<Rightarrow> int" where
  "digits_value v [] = v"
| "digits_value v (c # cs) = (if isdigit c then digits_value (10 * v + (uint c - 48)) cs else v)"

definition atoi :: "u8 list \<Rightarrow> int" where
  "atoi s = (case dropWhile isspace s of
     [] \<Rightarrow> 0
   | c # cs \<Rightarrow> if c = 45 then - digits_value 0 cs else if c = 43 then digits_value 0 cs
       else digits_value 0 (c # cs))"

section \<open>The dictionary parser\<close>

text \<open>
  The copy loop between the quotes. Its \<^verbatim>\<open>continue\<close> on a non-printable byte does not advance
  \<^verbatim>\<open>lptr\<close>, so the loop never ends there: \<open>None\<close>. After an invalid escape the backslash is already
  consumed.
\<close>

partial_function (option) unescape :: "u8 list \<Rightarrow> u8 list \<Rightarrow> u8 list option" where
  "unescape lptr w = (case lptr of
     [] \<Rightarrow> Some w
   | c # l \<Rightarrow>
       if 1 \<le> c \<and> c \<le> 31 \<or> 128 \<le> c then unescape lptr w
       else if c = 92 then
         (case l of
            [] \<Rightarrow> unescape [] w
          | d # l' \<Rightarrow>
              if d = 92 \<or> d = 34 then unescape l' (w @ [d])
              else
                (case l' of
                   h1 # h2 # l'' \<Rightarrow>
                     if d \<noteq> 120 \<or> \<not> isxdigit h1 \<or> \<not> isxdigit h2 then unescape l w
                     else unescape l'' (w @ [push_bit 4 (hexval h1) OR hexval h2])
                 | _ \<Rightarrow> unescape l w))
       else unescape l (w @ [c]))"

datatype dict_line = Skip_Line | Malformed | Keyword "u8 list"

definition trim :: "u8 list \<Rightarrow> u8 list" where
  "trim s = rev (dropWhile isspace (rev (dropWhile isspace s)))"

text \<open>From the trimmed line to the text between the quotes.\<close>

definition keyword_of_line :: "int \<Rightarrow> u8 list \<Rightarrow> dict_line" where
  "keyword_of_line dict_level buf =
    (let s = trim (takeWhile (\<lambda>c. c \<noteq> 0) buf)
     in if s = [] \<or> hd s = 35 then Skip_Line
     else if last s \<noteq> 34 then Malformed
     else
       let l = dropWhile (\<lambda>c. isalnum c \<or> c = 95) (butlast s)
       in if l \<noteq> [] \<and> hd l = 64 \<and> dict_level < atoi (tl l) then Skip_Line
       else
         let l = (if l \<noteq> [] \<and> hd l = 64 then dropWhile isdigit (tl l) else l);
             l = (if l \<noteq> [] \<and> hd l = 91
                  then let l = dropWhile isdigit (tl l) in if l \<noteq> [] \<and> hd l = 93 then tl l else l
                  else l);
             l = dropWhile (\<lambda>c. isspace c \<or> c = 61) l
         in if l = [] \<or> hd l \<noteq> 34 then Malformed
         else if tl l = [] then Malformed
         else Keyword (tl l))"

text \<open>\<^verbatim>\<open>fgets\<close>: up to a newline, at most \<open>n - 1\<close> bytes.\<close>

fun fgets :: "nat \<Rightarrow> u8 list \<Rightarrow> u8 list \<times> u8 list" where
  "fgets n [] = ([], [])"
| "fgets n (c # cs) =
    (if n \<le> 1 then ([], c # cs) else if c = 10 then ([c], cs)
     else (case fgets (n - 1) cs of (a, b) \<Rightarrow> (c # a, b)))"

lemma fgets_append: "fgets n cs = (a, b) \<Longrightarrow> cs = a @ b"
proof (induction n cs arbitrary: a b rule: fgets.induct)
  case (2 n c cs)
  then show ?case by (cases "fgets (n - 1) cs") (auto split: if_splits)
qed simp

lemma fgets_progress: "1 < n \<Longrightarrow> cs \<noteq> [] \<Longrightarrow> length (snd (fgets n cs)) < length cs"
  using fgets_append [of n cs "fst (fgets n cs)" "snd (fgets n cs)"]
  by (cases cs) (auto split: prod.splits dest: fgets_append)

lemma fgets_shorter: "length (snd (fgets MAX_LINE (c # cs))) < Suc (length cs)"
  using fgets_progress [of MAX_LINE "c # cs"] by (simp add: MAX_LINE_def del: fgets.simps)

text \<open>The lines of a file, as the \<^verbatim>\<open>while\<close> loop reads them.\<close>

function file_lines :: "u8 list \<Rightarrow> u8 list list" where
  "file_lines [] = []"
| "file_lines (c # cs) = fst (fgets MAX_LINE (c # cs)) # file_lines (snd (fgets MAX_LINE (c # cs)))"
  by pat_completeness auto
termination by (relation "measure length") (simp_all add: fgets_shorter del: fgets.simps)

fun load_lines :: "int \<Rightarrow> u8 list list \<Rightarrow> u8 list list \<Rightarrow> u8 list list option" where
  "load_lines dict_level [] ex = Some ex"
| "load_lines dict_level (buf # bufs) ex =
    (case keyword_of_line dict_level buf of
       Keyword l \<Rightarrow> Option.bind (unescape l []) (\<lambda>w.
         if MAX_DICT_FILE < length w then load_lines dict_level bufs ex
         else load_lines dict_level bufs (ex @ [w]))
     | _ \<Rightarrow> load_lines dict_level bufs ex)"

definition load_extras_file :: "u8 list \<Rightarrow> int \<Rightarrow> extras_state \<Rightarrow> extras_state option" where
  "load_extras_file content dict_level s =
     map_option (\<lambda>ex. s\<lparr>extras := ex\<rparr>) (load_lines dict_level (file_lines content) (extras s))"

definition extras_check_and_sort :: "extras_state \<Rightarrow> extras_state" where
  "extras_check_and_sort s = (if extras s = [] then s else s\<lparr>extras := qsort compare_extras_len (extras s)\<rparr>)"

text \<open>The path given to \<^verbatim>\<open>-x\<close>, and what it may name.\<close>

datatype dir_entry = Unreadable | Not_Regular | Reg_File "u8 list"

datatype path_node = Missing | Plain_File "u8 list" | Directory "dir_entry list"

fun load_dir :: "dir_entry list \<Rightarrow> u8 list list \<Rightarrow> fatal + u8 list list" where
  "load_dir [] ex = Inr ex"
| "load_dir (Unreadable # des) ex = Inl (PFATAL ''Unable to access'')"
| "load_dir (Not_Regular # des) ex = load_dir des ex"
| "load_dir (Reg_File d # des) ex =
    (if d = [] then load_dir des ex
     else if MAX_DICT_FILE < length d then load_dir des ex
     else load_dir des (ex @ [d]))"

definition load_extras :: "(u8 list \<Rightarrow> path_node) \<Rightarrow> u8 list \<Rightarrow> extras_state \<Rightarrow> (fatal + extras_state) option" where
  "load_extras fs dir s =
    (let path = takeWhile (\<lambda>c. c \<noteq> 64) dir;
         x = dropWhile (\<lambda>c. c \<noteq> 64) dir;
         dict_level = (if x \<noteq> [] then atoi (tl x) else 0)
     in case fs path of
          Plain_File content \<Rightarrow>
            map_option (\<lambda>s. Inr (extras_check_and_sort s)) (load_extras_file content dict_level s)
        | Missing \<Rightarrow> Some (Inl (PFATAL ''Unable to open''))
        | Directory des \<Rightarrow>
            if x \<noteq> [] then Some (Inl (FATAL ''Dictionary levels not supported for directories.''))
            else Some (and_then (load_dir des (extras s)) (\<lambda>ex. Inr (extras_check_and_sort (s\<lparr>extras := ex\<rparr>)))))"

section \<open>The list of tokens\<close>

definition memcmp_nocase :: "u8 list \<Rightarrow> u8 list \<Rightarrow> bool" where
  "memcmp_nocase m1 m2 \<longleftrightarrow> (\<exists>(a, b) \<in> set (zip m1 m2). tolower a XOR tolower b \<noteq> 0)"

definition add_extra_nocheck :: "u8 list \<Rightarrow> extras_state \<Rightarrow> extras_state" where
  "add_extra_nocheck mem s = s\<lparr>extras := extras s @ [mem]\<rparr>"

definition zeros_at :: "(nat \<Rightarrow> bool) \<Rightarrow> u8 list \<Rightarrow> nat" where
  "zeros_at p d = length (filter (\<lambda>j. p j \<and> d ! j = 0) [0..<length d])"

definition bytes_at :: "(nat \<Rightarrow> bool) \<Rightarrow> u8 list \<Rightarrow> u8 list" where
  "bytes_at p d = map ((!) d) (filter p [0..<length d])"

text \<open>What \<^verbatim>\<open>deunicode_extras\<close> adds for one token.\<close>

definition deunicode_one :: "u8 list \<Rightarrow> extras_state \<Rightarrow> extras_state" where
  "deunicode_one d s =
    (let len = length d in
     if len < 6 \<or> 64 < len \<or> len mod 2 \<noteq> 0 then s
     else
       let half = len div 2; quarter = half div 2;
           z1 = zeros_at (\<lambda>j. j mod 4 = 0 \<or> j mod 4 = 2) d;
           z2 = zeros_at (\<lambda>j. j mod 4 = 1 \<or> j mod 4 = 3) d;
           z3 = zeros_at (\<lambda>j. j mod 4 = 2) d;
           z4 = zeros_at (\<lambda>j. j mod 4 = 3) d
       in if z1 < half \<and> z2 < half \<or> z1 + z2 = len then s
       else
         let s = (if len mod 4 = 0 \<and> 12 \<le> len \<and> (z3 = quarter \<or> z4 = quarter) \<and> z1 + z2 = quarter * 3
                  then add_extra_nocheck (bytes_at (\<lambda>j. j mod 4 =
                    (if z4 < quarter then 3 else if z3 < quarter then 2 else if z2 < half then 1 else 0)) d) s
                  else s)
         in add_extra_nocheck (bytes_at (\<lambda>j. j mod 2 = (if z1 < half then 0 else 1)) d) s)"

definition deunicode_extras :: "extras_state \<Rightarrow> extras_state" where
  "deunicode_extras s =
    (if extras s = [] then s
     else
       let s' = fold (\<lambda>i s. deunicode_one (extras s ! i) s) [0..<length (extras s)] s
       in s'\<lparr>extras := qsort compare_extras_len (extras s')\<rparr>)"

text \<open>The loops of \<^verbatim>\<open>dedup_extras\<close>: the inner one removes from the tail the copies of \<open>e\<close> until the
  first token of another length.\<close>

fun dedup_row :: "u8 list \<Rightarrow> u8 list list \<Rightarrow> u8 list list" where
  "dedup_row e [] = []"
| "dedup_row e (f # fs) =
    (if length e \<noteq> length f then f # fs
     else if e = f then dedup_row e fs
     else f # dedup_row e fs)"

lemma length_dedup_row: "length (dedup_row e fs) \<le> length fs"
  by (induction e fs rule: dedup_row.induct) auto

function dedup_loop :: "u8 list list \<Rightarrow> u8 list list" where
  "dedup_loop [] = []"
| "dedup_loop (e # fs) = e # dedup_loop (dedup_row e fs)"
  by pat_completeness auto
termination by (relation "measure length") (auto simp: le_imp_less_Suc length_dedup_row)

definition dedup_extras :: "extras_state \<Rightarrow> extras_state" where
  "dedup_extras s = (if length (extras s) < 2 then s else s\<lparr>extras := dedup_loop (extras s)\<rparr>)"

text \<open>The search of \<^verbatim>\<open>add_extra\<close>: it stops after the tokens of the same length.\<close>

fun known_extra :: "u8 list \<Rightarrow> bool \<Rightarrow> u8 list list \<Rightarrow> bool" where
  "known_extra mem found [] = False"
| "known_extra mem found (e # es) =
    (if length e = length mem then (if e = mem then True else known_extra mem True es)
     else if found then False
     else known_extra mem found es)"

definition add_extra :: "u8 list \<Rightarrow> extras_state \<Rightarrow> extras_state" where
  "add_extra mem s =
    (if known_extra mem False (extras s) then s
     else if MAX_DICT_FILE < length mem then s
     else
       let s = add_extra_nocheck mem s
       in s\<lparr>extras := qsort compare_extras_len (extras s)\<rparr>)"

section \<open>Automatic tokens\<close>

definition builtin_16 :: "u8 list \<Rightarrow> bool" where
  "builtin_16 mem \<longleftrightarrow> (\<exists>v \<in> set interesting_16. let m = uint (load_le mem :: u16) in
     m = v \<or> m = uint (SWAP16 (word_of_int v)))"

definition builtin_32 :: "u8 list \<Rightarrow> bool" where
  "builtin_32 mem \<longleftrightarrow> (\<exists>v \<in> set interesting_32. let m = (load_le mem :: u32) in
     m = word_of_int v \<or> m = SWAP32 (word_of_int v))"

definition sort_a_extras :: "extras_state \<Rightarrow> extras_state" where
  "sort_a_extras s =
    (let a = qsort compare_auto_extras_use_d (a_extras s);
         n = min USE_AUTO_EXTRAS (length a)
     in s\<lparr>a_extras := qsort compare_auto_extras_len (take n a) @ drop n a\<rparr>)"

fun find_auto :: "u8 list \<Rightarrow> nat \<Rightarrow> auto_extra list \<Rightarrow> nat option" where
  "find_auto mem i [] = None"
| "find_auto mem i (a # as) =
    (if length (ae_data a) = length mem \<and> \<not> memcmp_nocase (ae_data a) mem then Some i
     else find_auto mem (Suc i) as)"

definition maybe_add_auto :: "u8 list \<Rightarrow> extras_state \<Rightarrow> extras_state option" where
  "maybe_add_auto mem s =
    (let len = length mem in
     if mem \<noteq> [] \<and> (\<forall>b \<in> set mem. b = mem ! 0) \<or> MAX_AUTO_EXTRA < len then Some s
     else if len = 2 \<and> builtin_16 mem then Some s
     else if len = 4 \<and> builtin_32 mem then Some s
     else if \<exists>e \<in> set (takeWhile (\<lambda>e. length e = len) (dropWhile (\<lambda>e. length e < len) (extras s))).
               \<not> memcmp_nocase e mem then Some s
     else
       let s = s\<lparr>auto_changed := True\<rparr>
       in case find_auto mem 0 (a_extras s) of
            Some i \<Rightarrow> Some (sort_a_extras (s\<lparr>a_extras :=
              (a_extras s)[i := (a_extras s ! i)\<lparr>hit_cnt := Suc (hit_cnt (a_extras s ! i))\<rparr>]\<rparr>))
          | None \<Rightarrow>
              if length (a_extras s) < MAX_AUTO_EXTRAS
              then Some (sort_a_extras (s\<lparr>a_extras := a_extras s @ [\<lparr>ae_data = mem, hit_cnt = 0\<rparr>]\<rparr>))
              else
                map_option (\<lambda>(r, rng).
                  let i = MAX_AUTO_EXTRAS div 2 + unat r
                  in sort_a_extras (s\<lparr>ex_rng := rng, a_extras := (a_extras s)[i := \<lparr>ae_data = mem, hit_cnt = 0\<rparr>]\<rparr>))
                (rand_below (ex_rng s) (of_nat ((MAX_AUTO_EXTRAS + 1) div 2))))"

text \<open>\<^verbatim>\<open>save_auto\<close>: the contents of the files \<^verbatim>\<open>auto_000000\<close>, \<^verbatim>\<open>auto_000001\<close>, ... it writes.\<close>

definition save_auto :: "extras_state \<Rightarrow> u8 list list \<times> extras_state" where
  "save_auto s =
    (if \<not> auto_changed s then ([], s)
     else (map ae_data (take (min USE_AUTO_EXTRAS (length (a_extras s))) (a_extras s)),
           s\<lparr>auto_changed := False\<rparr>))"

text \<open>\<^verbatim>\<open>load_auto\<close>: the files by number, \<open>Inl\<close> when one exists and cannot be read.\<close>

fun load_auto_loop :: "(nat \<Rightarrow> (fatal + u8 list) option) \<Rightarrow> nat list \<Rightarrow> extras_state \<Rightarrow> (fatal + extras_state) option" where
  "load_auto_loop files [] s = Some (Inr s)"
| "load_auto_loop files (i # is) s =
    (case files i of
       None \<Rightarrow> Some (Inr s)
     | Some (Inl e) \<Rightarrow> Some (Inl e)
     | Some (Inr content) \<Rightarrow>
         let tmp = take (MAX_AUTO_EXTRA + 1) content
         in if MIN_AUTO_EXTRA \<le> length tmp \<and> length tmp \<le> MAX_AUTO_EXTRA
            then Option.bind (maybe_add_auto tmp s) (load_auto_loop files is)
            else load_auto_loop files is s)"

definition load_auto :: "(nat \<Rightarrow> (fatal + u8 list) option) \<Rightarrow> extras_state \<Rightarrow> (fatal + extras_state) option" where
  "load_auto files s = load_auto_loop files [0..<USE_AUTO_EXTRAS] s"

definition destroy_extras :: "extras_state \<Rightarrow> extras_state" where
  "destroy_extras s = s\<lparr>extras := []\<rparr>"

section \<open>The copy loop\<close>

definition printable :: "u8 \<Rightarrow> bool" where
  "printable c \<longleftrightarrow> 32 \<le> c \<and> c < 128"

lemma not_printable: "c \<noteq> 0 \<Longrightarrow> 1 \<le> c \<and> c \<le> 31 \<or> 128 \<le> c \<longleftrightarrow> \<not> printable c"
  unfolding printable_def by (simp add: word_le_nat_alt word_less_nat_alt unat_gt_0 [symmetric] del: unat_gt_0) arith

lemma xdigit_printable: "isxdigit c \<Longrightarrow> printable c"
  unfolding printable_def isxdigit_def isdigit_def by (auto simp: word_le_nat_alt word_less_nat_alt)

lemma unescape_Some_printable:
  "unescape l w = Some r \<Longrightarrow> 0 \<notin> set l \<Longrightarrow> \<forall>c \<in> set l. printable c"
proof (induction rule: unescape.raw_induct [rotated 1, consumes 1, case_names step])
  case (step loop l w r)
  show ?case
  proof (cases l)
    case Nil
    then show ?thesis by simp
  next
    case (Cons c l1)
    have c: "c \<noteq> 0" and l1: "0 \<notin> set l1" using step(3) Cons by auto
    have IH: "\<And>k v. loop k v = Some r \<Longrightarrow> 0 \<notin> set k \<Longrightarrow> \<forall>c \<in> set k. printable c" by (rule step(1))
    show ?thesis
    proof (cases "printable c")
      case False
      then have "1 \<le> c \<and> c \<le> 31 \<or> 128 \<le> c" using not_printable [OF c] by blast
      then have "loop l w = Some r" using step(2) Cons by simp
      then show ?thesis using IH step(3) by blast
    next
      case True
      then have pr: "\<not> (1 \<le> c \<and> c \<le> 31 \<or> 128 \<le> c)" using not_printable [OF c] by blast
      have "\<forall>c \<in> set l1. printable c"
      proof (cases "c = 92")
        case False
        then have "loop l1 (w @ [c]) = Some r" using step(2) Cons pr by simp
        then show ?thesis using IH l1 by blast
      next
        case True
        show ?thesis
        proof (cases l1)
          case Nil
          then show ?thesis by simp
        next
          case l1': (Cons d l2)
          have body: "(if d = 92 \<or> d = 34 then loop l2 (w @ [d])
              else (case l2 of h1 # h2 # l3 \<Rightarrow>
                  if d \<noteq> 120 \<or> \<not> isxdigit h1 \<or> \<not> isxdigit h2 then loop (d # l2) w
                  else loop l3 (w @ [push_bit 4 (hexval h1) OR hexval h2])
                | _ \<Rightarrow> loop (d # l2) w)) = Some r"
            using step(2) [unfolded Cons l1' True] pr True by (simp only: list.case if_True if_False simp_thms)
          consider (esc) "d = 92 \<or> d = 34" "loop l2 (w @ [d]) = Some r"
            | (bad) "loop (d # l2) w = Some r"
            | (hex) h1 h2 l3 v where "d = 120" "l2 = h1 # h2 # l3" "isxdigit h1" "isxdigit h2" "loop l3 v = Some r"
            using body by (auto split: if_splits list.splits)
          then show ?thesis
          proof cases
            case esc
            then have "printable d" by (auto simp: printable_def)
            then show ?thesis using IH [OF esc(2)] l1 l1' by simp
          next
            case bad
            then show ?thesis using IH l1 l1' by blast
          next
            case hex
            then show ?thesis using IH [OF hex(5)] l1 l1' xdigit_printable by (auto simp: printable_def)
          qed
        qed
      qed
      then show ?thesis using Cons True by simp
    qed
  qed
qed

lemma unescape_printable_Some:
  "\<forall>c \<in> set l. printable c \<Longrightarrow> \<exists>r. unescape l w = Some r"
proof (induction "length l" arbitrary: l w rule: less_induct)
  case less
  show ?case
  proof (cases l)
    case Nil
    then show ?thesis by (subst unescape.simps) simp
  next
    case (Cons c l1)
    have "printable c" "c \<noteq> 0" using less.prems Cons by (auto simp: printable_def)
    then have c: "\<not> (1 \<le> c \<and> c \<le> 31 \<or> 128 \<le> c)" using not_printable [of c] by blast
    have IH: "\<And>k v. length k < length l \<Longrightarrow> set k \<subseteq> set l \<Longrightarrow> \<exists>r. unescape k v = Some r"
      using less.hyps less.prems by blast
    have unf: "unescape l w =
       (if c = 92 then
         (case l1 of
            [] \<Rightarrow> unescape [] w
          | d # l' \<Rightarrow>
              if d = 92 \<or> d = 34 then unescape l' (w @ [d])
              else
                (case l' of
                   h1 # h2 # l'' \<Rightarrow>
                     if d \<noteq> 120 \<or> \<not> isxdigit h1 \<or> \<not> isxdigit h2 then unescape l1 w
                     else unescape l'' (w @ [push_bit 4 (hexval h1) OR hexval h2])
                 | _ \<Rightarrow> unescape l1 w))
       else unescape l1 (w @ [c]))"
      by (subst unescape.simps) (simp only: Cons list.case c if_False)
    show ?thesis unfolding unf using Cons
      by (auto split: list.splits intro!: IH)
  qed
qed

lemma unescape_returns_iff:
  "0 \<notin> set l \<Longrightarrow> unescape l w \<noteq> None \<longleftrightarrow> (\<forall>c \<in> set l. printable c)"
  using unescape_Some_printable unescape_printable_Some by (metis not_None_eq)

section \<open>Writing tokens so that they are read back\<close>

definition hexdigit :: "u8 \<Rightarrow> u8" where
  "hexdigit n = (if n < 10 then n + 48 else n + 87)"

definition quote_byte :: "u8 \<Rightarrow> u8 list" where
  "quote_byte c = (if c = 92 \<or> c = 34 then [92, c] else if printable c then [c]
     else [92, 120, hexdigit (drop_bit 4 c), hexdigit (take_bit 4 c)])"

definition quote :: "u8 list \<Rightarrow> u8 list" where
  "quote w = concat (map quote_byte w)"

definition token_line :: "u8 list \<Rightarrow> u8 list" where
  "token_line w = 34 # quote w @ [34, 10]"

lemma word8_less_16: "n < (16 :: u8) \<Longrightarrow> n \<in> {0, 1, 2, 3, 4, 5, 6, 7, 8, 9, 10, 11, 12, 13, 14, 15}"
proof -
  assume "n < 16"
  then have "unat n < 16" by (simp add: word_less_nat_alt)
  then have "unat n \<in> {0, 1, 2, 3, 4, 5, 6, 7, 8, 9, 10, 11, 12, 13, 14, 15}"
    by (simp only: insert_iff empty_iff) arith
  then show ?thesis by (simp add: word_unat_eq_iff)
qed

lemma hexdigit_facts:
  assumes "n < (16 :: u8)"
  shows "hexval (hexdigit n) = n" and "isxdigit (hexdigit n)"
proof -
  from word8_less_16 [OF assms] show "hexval (hexdigit n) = n"
    by (elim insertE emptyE) (simp_all add: hexval_def hexdigit_def tolower_def)
  from word8_less_16 [OF assms] show "isxdigit (hexdigit n)"
    by (elim insertE emptyE) (simp_all add: isxdigit_def hexdigit_def isdigit_def)
qed

lemma nibbles:
  fixes c :: u8
  shows "drop_bit 4 c < 16" and "take_bit 4 c < 16" and "push_bit 4 (drop_bit 4 c) OR take_bit 4 c = c"
proof -
  have "unat c < 256" using unat_lt2p [of c] by simp
  then show "drop_bit 4 c < 16" by (simp add: word_less_nat_alt drop_bit_eq_div unat_div)
  show "take_bit 4 c < 16" by (simp add: word_less_nat_alt unat_mod take_bit_eq_mod)
  show "push_bit 4 (drop_bit 4 c) OR take_bit 4 c = c"
    by (rule bit_word_eqI) (auto simp: bit_simps)
qed

lemma unescape_quote: "unescape (quote w @ l) v = unescape l (v @ w)"
proof (induction w arbitrary: v)
  case Nil
  then show ?case by (simp add: quote_def)
next
  case (Cons c w)
  have "unescape (quote_byte c @ l') v = unescape l' (v @ [c])" for l'
  proof -
    consider (esc) "c = 92 \<or> c = 34" | (plain) "c \<noteq> 92" "c \<noteq> 34" "printable c" | (hex) "c \<noteq> 92" "c \<noteq> 34" "\<not> printable c"
      by blast
    then show ?thesis
    proof cases
      case esc
      then show ?thesis by (subst unescape.simps) (auto simp: quote_byte_def)
    next
      case plain
      then have "c \<noteq> 0" by (auto simp: printable_def)
      then have c: "\<not> (1 \<le> c \<and> c \<le> 31 \<or> 128 \<le> c)" using plain not_printable [of c] by blast
      have "quote_byte c = [c]" using plain by (simp add: quote_byte_def)
      then show ?thesis using plain
        by (subst unescape.simps) (simp only: c append.simps list.case if_False)
    next
      case hex
      note d = hexdigit_facts [OF nibbles(1), of c] and t = hexdigit_facts [OF nibbles(2), of c]
      show ?thesis using hex nibbles(3) [of c]
        by (subst unescape.simps) (simp add: quote_byte_def d t)
    qed
  qed
  then show ?case using Cons.IH by (simp add: quote_def)
qed

lemma quote_printable: "c \<in> set (quote w) \<Longrightarrow> printable c"
proof -
  have "printable d" if "d \<in> set (quote_byte b)" for b d
    using that hexdigit_facts(2) [OF nibbles(1)] hexdigit_facts(2) [OF nibbles(2)] xdigit_printable
    by (auto simp: quote_byte_def printable_def split: if_splits)
  then show "c \<in> set (quote w) \<Longrightarrow> printable c" by (auto simp: quote_def)
qed

lemma length_quote: "length (quote w) \<le> 4 * length w"
  by (induction w) (auto simp: quote_def quote_byte_def)

lemma quote_eq_Nil [simp]: "quote w = [] \<longleftrightarrow> w = []"
  by (cases w) (simp_all add: quote_def quote_byte_def)

lemma keyword_of_token_line:
  assumes "w \<noteq> []"
  shows "keyword_of_line lvl (token_line w) = Keyword (quote w)"
proof -
  have no0: "takeWhile (\<lambda>c. c \<noteq> 0) (token_line w) = token_line w"
    using quote_printable by (fastforce simp: token_line_def takeWhile_eq_all_conv printable_def)
  have trim: "trim (token_line w) = 34 # quote w @ [34]"
    by (simp add: trim_def token_line_def isspace_def)
  show ?thesis using assms
    by (simp add: keyword_of_line_def no0 trim Let_def isalnum_def isdigit_def isspace_def butlast_append)
qed

lemma fgets_line:
  "10 \<notin> set l \<Longrightarrow> length l + 1 < n \<Longrightarrow> fgets n (l @ 10 # rest) = (l @ [10], rest)"
proof (induction l arbitrary: n)
  case (Cons c l)
  then have "fgets (n - 1) (l @ 10 # rest) = (l @ [10], rest)" by simp
  then show ?case using Cons.prems by simp
qed simp

lemma file_lines_token_line:
  assumes "length w \<le> MAX_DICT_FILE"
  shows "file_lines (token_line w @ rest) = token_line w # file_lines rest"
proof -
  have "10 \<notin> set (34 # quote w @ [34])" using quote_printable [of 10 w] by (auto simp: printable_def)
  moreover have "length (34 # quote w @ [34]) + 1 < MAX_LINE"
    using assms length_quote [of w] by (simp add: MAX_LINE_def MAX_DICT_FILE_def)
  ultimately have "fgets MAX_LINE ((34 # quote w @ [34]) @ 10 # rest) = ((34 # quote w @ [34]) @ [10], rest)"
    by (rule fgets_line)
  then have "fgets MAX_LINE (34 # quote w @ 34 # 10 # rest) = (34 # quote w @ [34, 10], rest)" by simp
  then show ?thesis by (simp add: token_line_def del: fgets.simps)
qed

lemma load_token_lines:
  "\<forall>w \<in> set ws. w \<noteq> [] \<and> length w \<le> MAX_DICT_FILE \<Longrightarrow>
    load_lines lvl (file_lines (concat (map token_line ws))) ex = Some (ex @ ws)"
proof (induction ws arbitrary: ex)
  case (Cons w ws)
  have "unescape (quote w) [] = Some w"
    using unescape_quote [of w "[]" "[]"] by (simp add: unescape.simps)
  then show ?case using Cons by (simp add: file_lines_token_line keyword_of_token_line)
qed simp

section \<open>The sorted list of tokens\<close>

abbreviation by_length :: "u8 list list \<Rightarrow> bool" where
  "by_length es \<equiv> sorted (map length es)"

lemma by_length_Cons: "by_length (e # es) \<longleftrightarrow> by_length es \<and> (\<forall>f \<in> set es. length e \<le> length f)"
  by auto

lemma by_length_qsort: "by_length (qsort compare_extras_len es)"
  by (rule qs.sort_by_sorted_nat) (simp add: compare_extras_len_def)

lemma distinct_qsort: "distinct (qsort c xs) = distinct xs"
  using mset_qsort [of c xs] by (rule mset_eq_imp_distinct_iff)

lemma dedup_row_filter: "by_length (e # fs) \<Longrightarrow> dedup_row e fs = filter (\<lambda>f. f \<noteq> e) fs"
proof (induction e fs rule: dedup_row.induct)
  case (2 e f fs)
  show ?case
  proof (cases "length e = length f")
    case True
    then show ?thesis using 2 by auto
  next
    case False
    then have "\<forall>g \<in> set (f # fs). g \<noteq> e" using 2(3) by fastforce
    then have "filter (\<lambda>g. g \<noteq> e) (f # fs) = f # fs" by (simp add: filter_id_conv)
    then show ?thesis using False by simp
  qed
qed simp

lemma by_length_filter: "by_length es \<Longrightarrow> by_length (filter p es)"
  by (rule sorted_filter)

lemma dedup_loop_spec:
  "by_length es \<Longrightarrow> distinct (dedup_loop es) \<and> set (dedup_loop es) = set es \<and> by_length (dedup_loop es)"
proof (induction es rule: dedup_loop.induct)
  case (2 e fs)
  have row: "dedup_row e fs = filter (\<lambda>f. f \<noteq> e) fs" using 2(2) by (rule dedup_row_filter)
  have "by_length (filter (\<lambda>f. f \<noteq> e) fs)" using 2(2) by (intro by_length_filter) simp
  with 2(1) have IH: "distinct (dedup_loop (dedup_row e fs))"
    "set (dedup_loop (dedup_row e fs)) = set fs - {e}" "by_length (dedup_loop (dedup_row e fs))"
    by (auto simp: row)
  then show ?case using 2(2) by auto
qed simp

lemma known_extra_iff:
  "by_length es \<Longrightarrow> (found \<longrightarrow> (\<forall>e \<in> set es. length mem \<le> length e)) \<Longrightarrow> known_extra mem found es \<longleftrightarrow> mem \<in> set es"
proof (induction mem found es rule: known_extra.induct)
  case (2 mem found e es)
  have tl: "by_length es" and le: "\<forall>f \<in> set es. length e \<le> length f" using 2(3) by auto
  consider (hit) "e = mem" | (same) "length e = length mem" "e \<noteq> mem" | (past) "length e \<noteq> length mem" found
    | (before) "length e \<noteq> length mem" "\<not> found" by blast
  then show ?case
  proof cases
    case same
    then show ?thesis using 2(1) [OF same] tl le by auto
  next
    case past
    then have "length mem < length e" using 2(4) by (simp add: le_neq_implies_less)
    then have "mem \<notin> set (e # es)" using le by fastforce
    then show ?thesis using past by simp
  next
    case before
    then show ?thesis using 2(2) tl by auto
  qed simp
qed simp

text \<open>What every operation on the list keeps.\<close>

definition dict_ok :: "u8 list list \<Rightarrow> bool" where
  "dict_ok es \<longleftrightarrow> by_length es \<and> distinct es \<and> (\<forall>e \<in> set es. length e \<le> MAX_DICT_FILE)"

section \<open>Automatic tokens\<close>

definition lowered :: "auto_extra \<Rightarrow> u8 list" where
  "lowered a = map tolower (ae_data a)"

definition auto_ok :: "auto_extra list \<Rightarrow> bool" where
  "auto_ok as \<longleftrightarrow> length as \<le> MAX_AUTO_EXTRAS \<and> (\<forall>a \<in> set as. length (ae_data a) \<le> MAX_AUTO_EXTRA) \<and>
     distinct (map lowered as)"

lemma xor_eq_0_iff_u8: "a XOR b = 0 \<longleftrightarrow> a = (b :: u8)"
  by (metis xor.assoc xor.left_neutral xor_self_eq)

lemma memcmp_nocase_iff:
  "length m1 = length m2 \<Longrightarrow> \<not> memcmp_nocase m1 m2 \<longleftrightarrow> map tolower m1 = map tolower m2"
  unfolding memcmp_nocase_def
  by (induction m1 m2 rule: list_induct2) (auto simp: xor_eq_0_iff_u8)

lemma find_auto_Some:
  "find_auto mem i as = Some k \<Longrightarrow> i \<le> k \<and> k - i < length as \<and> lowered (as ! (k - i)) = map tolower mem"
proof (induction mem i as rule: find_auto.induct)
  case (2 mem i a as)
  show ?case
  proof (cases "length (ae_data a) = length mem \<and> \<not> memcmp_nocase (ae_data a) mem")
    case True
    then show ?thesis using 2(2) memcmp_nocase_iff by (auto simp: lowered_def)
  next
    case False
    then have "Suc i \<le> k \<and> k - Suc i < length as \<and> lowered (as ! (k - Suc i)) = map tolower mem"
      using 2 by (metis find_auto.simps(2))
    then show ?thesis by (auto simp: Suc_diff_Suc nth_Cons')
  qed
qed simp

lemma find_auto_None: "find_auto mem i as = None \<Longrightarrow> map tolower mem \<notin> set (map lowered as)"
proof (induction mem i as rule: find_auto.induct)
  case (2 mem i a as)
  have no: "\<not> (length (ae_data a) = length mem \<and> \<not> memcmp_nocase (ae_data a) mem)"
    using 2(2) by (auto split: if_splits)
  have "map tolower mem \<noteq> lowered a"
  proof
    assume *: "map tolower mem = lowered a"
    then have "length (ae_data a) = length mem" by (metis length_map lowered_def)
    with * no memcmp_nocase_iff show False by (auto simp: lowered_def)
  qed
  moreover have "map tolower mem \<notin> set (map lowered as)" using 2(1) [OF no] 2(2) no by auto
  ultimately show ?case by simp
qed simp

lemma mset_sort_a_extras: "mset (a_extras (sort_a_extras s)) = mset (a_extras s)"
proof -
  define a where "a = qsort compare_auto_extras_use_d (a_extras s)"
  define n where "n = min USE_AUTO_EXTRAS (length a)"
  have "a_extras (sort_a_extras s) = qsort compare_auto_extras_len (take n a) @ drop n a"
    by (simp add: sort_a_extras_def Let_def a_def n_def)
  then have "mset (a_extras (sort_a_extras s)) = mset (take n a @ drop n a)"
    by (simp only: mset_append mset_qsort)
  then show ?thesis by (simp add: a_def mset_qsort)
qed

lemma auto_ok_mset: "mset as = mset bs \<Longrightarrow> auto_ok as = auto_ok bs"
proof -
  assume m: "mset as = mset bs"
  then have "mset (map lowered as) = mset (map lowered bs)" by simp
  then show ?thesis
    using mset_eq_length [OF m] mset_eq_setD [OF m] mset_eq_imp_distinct_iff
    unfolding auto_ok_def by metis
qed

lemma auto_ok_sort [simp]: "auto_ok (a_extras (sort_a_extras s)) = auto_ok (a_extras s)"
  by (rule auto_ok_mset) (rule mset_sort_a_extras)

lemma sort_a_extras_fields [simp]:
  "extras (sort_a_extras s) = extras s" "ex_rng (sort_a_extras s) = ex_rng s"
  by (simp_all add: sort_a_extras_def Let_def)

lemma evict_index:
  assumes "rand_below rng (of_nat ((MAX_AUTO_EXTRAS + 1) div 2)) = Some (r, rng')"
  shows "MAX_AUTO_EXTRAS div 2 \<le> MAX_AUTO_EXTRAS div 2 + unat r" and "MAX_AUTO_EXTRAS div 2 + unat r < MAX_AUTO_EXTRAS"
proof -
  have u: "unat (of_nat ((MAX_AUTO_EXTRAS + 1) div 2) :: u32) = 4096"
    by (simp add: MAX_AUTO_EXTRAS_def USE_AUTO_EXTRAS_def)
  have "unat r < 4096" using rb.below_unat [OF assms] unfolding u by simp
  then show "MAX_AUTO_EXTRAS div 2 + unat r < MAX_AUTO_EXTRAS"
    by (simp add: MAX_AUTO_EXTRAS_def USE_AUTO_EXTRAS_def)
qed simp

text \<open>The ways \<^verbatim>\<open>maybe_add_auto\<close> can go: the token is refused, counted, appended, or put in
  place of a rarely used one.\<close>

lemma maybe_add_auto_cases:
  assumes "maybe_add_auto mem s = Some s'"
  obtains (refused) "s' = s"
  | (counted) i where "i < length (a_extras s)" "lowered (a_extras s ! i) = map tolower mem"
      "s' = sort_a_extras (s\<lparr>auto_changed := True, a_extras :=
         (a_extras s)[i := (a_extras s ! i)\<lparr>hit_cnt := Suc (hit_cnt (a_extras s ! i))\<rparr>]\<rparr>)"
  | (appended) "length mem \<le> MAX_AUTO_EXTRA" "map tolower mem \<notin> set (map lowered (a_extras s))"
      "length (a_extras s) < MAX_AUTO_EXTRAS"
      "s' = sort_a_extras (s\<lparr>auto_changed := True, a_extras := a_extras s @ [\<lparr>ae_data = mem, hit_cnt = 0\<rparr>]\<rparr>)"
  | (evicted) i rng' where "length mem \<le> MAX_AUTO_EXTRA" "map tolower mem \<notin> set (map lowered (a_extras s))"
      "MAX_AUTO_EXTRAS \<le> length (a_extras s)" "MAX_AUTO_EXTRAS div 2 \<le> i" "i < MAX_AUTO_EXTRAS"
      "s' = sort_a_extras (s\<lparr>auto_changed := True, ex_rng := rng',
         a_extras := (a_extras s)[i := \<lparr>ae_data = mem, hit_cnt = 0\<rparr>]\<rparr>)"
proof (cases "mem \<noteq> [] \<and> (\<forall>b \<in> set mem. b = mem ! 0) \<or> MAX_AUTO_EXTRA < length mem \<or>
    length mem = 2 \<and> builtin_16 mem \<or> length mem = 4 \<and> builtin_32 mem \<or>
    (\<exists>e \<in> set (takeWhile (\<lambda>e. length e = length mem) (dropWhile (\<lambda>e. length e < length mem) (extras s))).
               \<not> memcmp_nocase e mem)")
  case True
  then have "s' = s" using assms unfolding maybe_add_auto_def Let_def by (auto split: if_splits)
  then show thesis by (rule refused)
next
  case no: False
  then have len: "length mem \<le> MAX_AUTO_EXTRA" by auto
  have body: "(case find_auto mem 0 (a_extras s) of
            Some i \<Rightarrow> Some (sort_a_extras (s\<lparr>auto_changed := True, a_extras :=
              (a_extras s)[i := (a_extras s ! i)\<lparr>hit_cnt := Suc (hit_cnt (a_extras s ! i))\<rparr>]\<rparr>))
          | None \<Rightarrow>
              if length (a_extras s) < MAX_AUTO_EXTRAS
              then Some (sort_a_extras (s\<lparr>auto_changed := True, a_extras := a_extras s @ [\<lparr>ae_data = mem, hit_cnt = 0\<rparr>]\<rparr>))
              else
                map_option (\<lambda>(r, rng).
                  sort_a_extras (s\<lparr>auto_changed := True, ex_rng := rng,
                    a_extras := (a_extras s)[MAX_AUTO_EXTRAS div 2 + unat r := \<lparr>ae_data = mem, hit_cnt = 0\<rparr>]\<rparr>))
                (rand_below (ex_rng s) (of_nat ((MAX_AUTO_EXTRAS + 1) div 2)))) = Some s'"
  proof -
    from no have n: "\<not> (mem \<noteq> [] \<and> (\<forall>b \<in> set mem. b = mem ! 0) \<or> MAX_AUTO_EXTRA < length mem)"
      "\<not> (length mem = 2 \<and> builtin_16 mem)" "\<not> (length mem = 4 \<and> builtin_32 mem)"
      "\<not> (\<exists>e \<in> set (takeWhile (\<lambda>e. length e = length mem) (dropWhile (\<lambda>e. length e < length mem) (extras s))).
               \<not> memcmp_nocase e mem)" by blast+
    show ?thesis
      using assms unfolding maybe_add_auto_def Let_def if_not_P [OF n(1)] if_not_P [OF n(2)]
        if_not_P [OF n(3)] if_not_P [OF n(4)]
      by (cases "length (a_extras s) < MAX_AUTO_EXTRAS") (simp_all cong: option.case_cong)
  qed
  show thesis
  proof (cases "find_auto mem 0 (a_extras s)")
    case (Some i)
    then show thesis using body find_auto_Some [OF Some] by (intro counted [of i]) simp_all
  next
    case None
    note fresh = find_auto_None [OF None]
    show thesis
    proof (cases "length (a_extras s) < MAX_AUTO_EXTRAS")
      case True
      then show thesis using body None len fresh by (intro appended) simp_all
    next
      case False
      then obtain r rng' where r: "rand_below (ex_rng s) (of_nat ((MAX_AUTO_EXTRAS + 1) div 2)) = Some (r, rng')"
        and s': "s' = sort_a_extras (s\<lparr>auto_changed := True, ex_rng := rng',
                    a_extras := (a_extras s)[MAX_AUTO_EXTRAS div 2 + unat r := \<lparr>ae_data = mem, hit_cnt = 0\<rparr>]\<rparr>)"
        using body None by auto
      show thesis using evict_index [OF r] False len fresh by (intro evicted [OF _ _ _ _ _ s']) simp_all
    qed
  qed
qed

lemma maybe_add_auto_preserves:
  assumes "maybe_add_auto mem s = Some s'" and "auto_ok (a_extras s)"
  shows "auto_ok (a_extras s')" and "extras s' = extras s"
proof -
  let ?new = "\<lparr>ae_data = mem, hit_cnt = 0\<rparr>"
  have low: "lowered ?new = map tolower mem" by (simp add: lowered_def)
  have "auto_ok (a_extras s') \<and> extras s' = extras s"
    using assms(1)
  proof (cases rule: maybe_add_auto_cases)
    case refused
    then show ?thesis using assms(2) by simp
  next
    case (counted i)
    let ?a = "(a_extras s ! i)\<lparr>hit_cnt := Suc (hit_cnt (a_extras s ! i))\<rparr>"
    have "map lowered ((a_extras s)[i := ?a]) = map lowered (a_extras s)"
      using counted(1) by (simp add: map_update lowered_def list_update_same_conv)
    moreover have "\<forall>a \<in> set ((a_extras s)[i := ?a]). length (ae_data a) \<le> MAX_AUTO_EXTRA"
      using assms(2) counted(1) set_update_subset_insert [of "a_extras s" i ?a] by (auto simp: auto_ok_def)
    ultimately have "auto_ok ((a_extras s)[i := ?a])" using assms(2) by (simp add: auto_ok_def)
    then show ?thesis by (simp add: counted(3))
  next
    case appended
    then have "auto_ok (a_extras s @ [?new])" using assms(2) low by (auto simp: auto_ok_def)
    then show ?thesis by (simp add: appended(4))
  next
    case (evicted i rng')
    have "distinct (map lowered ((a_extras s)[i := ?new]))"
      using assms(2) evicted(2) low by (simp add: map_update distinct_list_update auto_ok_def)
    moreover have "\<forall>a \<in> set ((a_extras s)[i := ?new]). length (ae_data a) \<le> MAX_AUTO_EXTRA"
      using assms(2) evicted(1) set_update_subset_insert [of "a_extras s" i ?new] by (auto simp: auto_ok_def)
    ultimately have "auto_ok ((a_extras s)[i := ?new])" using assms(2) by (simp add: auto_ok_def)
    then show ?thesis by (simp add: evicted(6))
  qed
  then show "auto_ok (a_extras s')" "extras s' = extras s" by simp_all
qed

lemma load_auto_loop_preserves:
  "load_auto_loop files is s = Some (Inr s') \<Longrightarrow> auto_ok (a_extras s) \<Longrightarrow> auto_ok (a_extras s')"
proof (induction files "is" s rule: load_auto_loop.induct)
  case (2 files i "is" s)
  then show ?case
    by (auto simp: Let_def bind_eq_Some_conv maybe_add_auto_preserves split: option.splits sum.splits if_splits)
qed simp

section \<open>Tokens in UTF-16\<close>

definition utf16le :: "u8 list \<Rightarrow> u8 list" where
  "utf16le cs = concat (map (\<lambda>c. [c, 0]) cs)"

definition utf16be :: "u8 list \<Rightarrow> u8 list" where
  "utf16be cs = concat (map (\<lambda>c. [0, c]) cs)"

lemma upt_Suc_Suc: "[0..<Suc (Suc n)] = 0 # 1 # map (\<lambda>j. j + 2) [0..<n]"
proof -
  have "[2..<Suc (Suc n)] = map (\<lambda>j. j + 2) [0..<n]" using map_add_upt [of 2 n] by (simp del: upt_Suc)
  moreover have "[0..<Suc (Suc n)] = 0 # [1..<Suc (Suc n)]" "[1..<Suc (Suc n)] = 1 # [2..<Suc (Suc n)]"
    by (simp_all add: upt_conv_Cons numeral_2_eq_2 del: upt_Suc)
  ultimately show ?thesis by simp
qed

lemma bytes_at_Cons2:
  "bytes_at p (a # b # r) = (if p 0 then [a] else []) @ (if p 1 then [b] else []) @ bytes_at (\<lambda>j. p (j + 2)) r"
  unfolding bytes_at_def length_Cons upt_Suc_Suc by (auto simp: filter_map o_def)

lemma zeros_at_Cons2:
  "zeros_at p (a # b # r) = (if p 0 \<and> a = 0 then 1 else 0) + (if p 1 \<and> b = 0 then 1 else 0) + zeros_at (\<lambda>j. p (j + 2)) r"
  unfolding zeros_at_def length_Cons upt_Suc_Suc by (auto simp: filter_map o_def)

lemma parity_classes:
  "(\<lambda>j :: nat. j mod 4 = 0 \<or> j mod 4 = 2) = even" "(\<lambda>j :: nat. j mod 4 = 1 \<or> j mod 4 = 3) = odd"
  "(\<lambda>j :: nat. j mod 2 = 0) = even" "(\<lambda>j :: nat. j mod 2 = 1) = odd"
  by (rule ext, presburger)+

lemma at_Nil [simp]: "bytes_at p [] = []" "zeros_at p [] = 0"
  by (simp_all add: bytes_at_def zeros_at_def)

lemma utf16le_facts:
  "length (utf16le cs) = 2 * length cs" "bytes_at even (utf16le cs) = cs"
  "0 \<notin> set cs \<Longrightarrow> zeros_at even (utf16le cs) = 0" "zeros_at odd (utf16le cs) = length cs"
  by (induction cs) (simp_all add: utf16le_def bytes_at_Cons2 zeros_at_Cons2)

lemma utf16be_facts:
  "length (utf16be cs) = 2 * length cs" "bytes_at odd (utf16be cs) = cs"
  "zeros_at even (utf16be cs) = length cs" "0 \<notin> set cs \<Longrightarrow> zeros_at odd (utf16be cs) = 0"
  by (induction cs) (simp_all add: utf16be_def bytes_at_Cons2 zeros_at_Cons2)

lemma deunicode_one_appends: "\<exists>ys. extras (deunicode_one d s) = extras s @ ys"
proof -
  have "\<exists>ys. extras (if a then s else if b then s
      else add_extra_nocheck m (if c then add_extra_nocheck m' s else s)) = extras s @ ys" for a b c m m'
    by (auto simp: add_extra_nocheck_def)
  then show ?thesis unfolding deunicode_one_def Let_def .
qed

lemma deunicode_one_grows: "set (extras s) \<subseteq> set (extras (deunicode_one d s))"
  using deunicode_one_appends [of d s] by auto

lemma deunicode_one_utf16:
  assumes "3 \<le> length cs" and "length cs \<le> 32" and "0 \<notin> set cs" and "d = utf16le cs \<or> d = utf16be cs"
  shows "cs \<in> set (extras (deunicode_one d s))"
proof -
  define n where "n = length cs"
  have n: "3 \<le> n" "n \<le> 32" using assms(1,2) by (simp_all add: n_def)
  have len: "length d = 2 * n" using assms(4) utf16le_facts(1) utf16be_facts(1) by (auto simp: n_def)
  have not32: "\<not> (12 \<le> 2 * n \<and> n = n div 2 * 3)" using n by presburger
  from assms(4) show ?thesis
  proof
    assume d: "d = utf16le cs"
    then have z: "zeros_at even d = 0" "zeros_at odd d = n" using utf16le_facts assms(3) by (simp_all add: n_def)
    have b: "bytes_at (\<lambda>j. j mod 2 = 0) d = cs" unfolding parity_classes d by (rule utf16le_facts(2))
    have "\<exists>s'. deunicode_one d s = add_extra_nocheck (bytes_at (\<lambda>j. j mod 2 = (if 0 < n then 0 else 1)) d) s'"
      unfolding deunicode_one_def Let_def len parity_classes(1,2) z using n not32 by auto
    then show ?thesis using n b by (auto simp: add_extra_nocheck_def)
  next
    assume d: "d = utf16be cs"
    then have z: "zeros_at even d = n" "zeros_at odd d = 0" using utf16be_facts assms(3) by (simp_all add: n_def)
    have b: "bytes_at (\<lambda>j. j mod 2 = 1) d = cs" unfolding parity_classes d by (rule utf16be_facts(2))
    have "\<exists>s'. deunicode_one d s = add_extra_nocheck (bytes_at (\<lambda>j. j mod 2 = (if n < n then 0 else 1)) d) s'"
      unfolding deunicode_one_def Let_def len parity_classes(1,2) z using n not32 by auto
    then show ?thesis using b by (auto simp: add_extra_nocheck_def)
  qed
qed

text \<open>The loop reads the tokens from the list it appends to; the old ones stay where they are.\<close>

lemma deunicode_fold_static:
  "\<forall>i \<in> set is. i < length ex \<Longrightarrow> extras s = ex @ ys \<Longrightarrow>
    fold (\<lambda>i s. deunicode_one (extras s ! i) s) is s = fold (\<lambda>i s. deunicode_one (ex ! i) s) is s"
proof (induction "is" arbitrary: s ys)
  case (Cons i "is")
  obtain zs where "extras (deunicode_one (ex ! i) s) = ex @ (ys @ zs)"
    using deunicode_one_appends [of "ex ! i" s] Cons.prems(2) by auto
  moreover have "extras s ! i = ex ! i" using Cons.prems by (simp add: nth_append)
  ultimately show ?case using Cons.IH [of "deunicode_one (ex ! i) s"] Cons.prems(1) by simp
qed simp

lemma deunicode_fold_grows: "set (extras s) \<subseteq> set (extras (fold (\<lambda>i s. deunicode_one (f i) s) is s))"
proof (induction "is" arbitrary: s)
  case (Cons i "is")
  then show ?case using deunicode_one_grows [of s "f i"] by (simp, blast)
qed simp

lemma deunicode_fold_utf16:
  assumes "i \<in> set is" and "\<And>s. cs \<in> set (extras (deunicode_one (f i) s))"
  shows "cs \<in> set (extras (fold (\<lambda>i s. deunicode_one (f i) s) is s))"
  using assms(1)
proof (induction "is" arbitrary: s)
  case (Cons j "is")
  show ?case
  proof (cases "i = j")
    case True
    then show ?thesis
      using assms(2) deunicode_fold_grows [of "deunicode_one (f j) s" f "is"] by auto
  next
    case False
    then show ?thesis using Cons by simp
  qed
qed simp

text \<open>The text between the quotes is part of a C string, so it has no zero byte.\<close>

lemma set_trim: "set (trim s) \<subseteq> set s"
  unfolding trim_def using set_dropWhileD by (auto dest!: set_dropWhileD)

lemma keyword_no_nul: "keyword_of_line lvl buf = Keyword l \<Longrightarrow> 0 \<notin> set l"
proof
  assume kw: "keyword_of_line lvl buf = Keyword l" and "0 \<in> set l"
  define s where "s = trim (takeWhile (\<lambda>c. c \<noteq> 0) buf)"
  define l1 where "l1 = dropWhile (\<lambda>c. isalnum c \<or> c = 95) (butlast s)"
  define l2 where "l2 = (if l1 \<noteq> [] \<and> hd l1 = 64 then dropWhile isdigit (tl l1) else l1)"
  define l3 where "l3 = dropWhile isdigit (tl l2)"
  define l4 where "l4 = (if l2 \<noteq> [] \<and> hd l2 = 91 then if l3 \<noteq> [] \<and> hd l3 = 93 then tl l3 else l3 else l2)"
  define l5 where "l5 = dropWhile (\<lambda>c. isspace c \<or> c = 61) l4"
  have tl: "set (tl xs) \<subseteq> set xs" for xs :: "u8 list" by (cases xs) auto
  have dw: "set (dropWhile p xs) \<subseteq> set xs" for p and xs :: "u8 list" by (auto dest: set_dropWhileD)
  have "l = tl l5"
    using kw unfolding keyword_of_line_def Let_def s_def [symmetric] l1_def [symmetric] l2_def [symmetric]
      l3_def [symmetric] l4_def [symmetric] l5_def [symmetric]
    by (simp split: if_splits)
  then have "set l \<subseteq> set l4" using tl [of l5] dw l5_def by fastforce
  also have "set l4 \<subseteq> set l2" unfolding l4_def l3_def using tl dw by (auto split: if_splits) fastforce+
  also have "set l2 \<subseteq> set l1" unfolding l2_def using tl [of l1] dw [of isdigit "tl l1"] by auto
  also have "set l1 \<subseteq> set s" unfolding l1_def using dw by (fastforce dest: in_set_butlastD)
  also have "set s \<subseteq> {c. c \<noteq> 0}" unfolding s_def using set_trim by (fastforce dest: set_takeWhileD)
  finally show False using \<open>0 \<in> set l\<close> by blast
qed

section \<open>Properties\<close>

text \<open>
  C16: tokens written to a dictionary file, each on a line of its own in quotes with
  backslashes, quotes and non-printable bytes escaped, are loaded back unchanged and in order,
  whatever bytes they hold.
\<close>

theorem dictionary_round_trip:
  assumes "\<forall>w \<in> set ws. w \<noteq> [] \<and> length w \<le> MAX_DICT_FILE"
  shows "load_extras_file (concat (map token_line ws)) lvl s = Some (s\<lparr>extras := extras s @ ws\<rparr>)"
  by (simp add: load_extras_file_def load_token_lines [OF assms])

text \<open>
  C17: loading a dictionary file returns exactly when every keyword in it consists of
  printable bytes. On a tab, a control character or a byte above 127 between the quotes the copy
  loop never advances again.
\<close>

theorem load_extras_file_returns_iff:
  "load_extras_file content lvl s \<noteq> None \<longleftrightarrow>
    (\<forall>buf \<in> set (file_lines content). \<forall>l. keyword_of_line lvl buf = Keyword l \<longrightarrow> (\<forall>c \<in> set l. printable c))"
proof -
  have "load_lines lvl bufs ex \<noteq> None \<longleftrightarrow>
      (\<forall>buf \<in> set bufs. \<forall>l. keyword_of_line lvl buf = Keyword l \<longrightarrow> (\<forall>c \<in> set l. printable c))"
    for bufs ex
  proof (induction bufs arbitrary: ex)
    case (Cons buf bufs)
    note IH = Cons.IH
    show ?case
    proof (cases "keyword_of_line lvl buf")
      case (Keyword l)
      then have "unescape l [] \<noteq> None \<longleftrightarrow> (\<forall>c \<in> set l. printable c)"
        by (intro unescape_returns_iff keyword_no_nul)
      then show ?thesis using Keyword IH by (cases "unescape l []") auto
    qed (use IH in simp_all)
  qed simp
  from this [of "file_lines content" "extras s"] show ?thesis by (simp add: load_extras_file_def)
qed

text \<open>
  The function \<^verbatim>\<open>dedup_extras\<close> on a list sorted by length keeps one copy of every token and the
  order by length, though it compares neighbours of equal length only.
\<close>

theorem dedup_extras_spec:
  assumes "by_length (extras s)"
  shows "distinct (extras (dedup_extras s)) \<and> set (extras (dedup_extras s)) = set (extras s) \<and>
    by_length (extras (dedup_extras s))"
proof (cases "length (extras s) < 2")
  case True
  then have "distinct (extras s)" by (cases "extras s") auto
  then show ?thesis using True assms by (simp add: dedup_extras_def)
next
  case False
  then show ?thesis using dedup_loop_spec [OF assms] by (simp add: dedup_extras_def)
qed

text \<open>
  C19: \<^verbatim>\<open>add_extra\<close> keeps the list of tokens sorted by length, free of duplicates and
  within the size limit, and the token is in it afterwards unless it is too long.
\<close>

theorem add_extra_keeps_dict:
  assumes "dict_ok (extras s)"
  shows "dict_ok (extras (add_extra mem s)) \<and>
    set (extras (add_extra mem s)) = (if length mem \<le> MAX_DICT_FILE then insert mem (set (extras s)) else set (extras s))"
proof (cases "known_extra mem False (extras s) \<or> MAX_DICT_FILE < length mem")
  case True
  then show ?thesis
    using assms known_extra_iff [of "extras s" False mem] by (auto simp: add_extra_def dict_ok_def)
next
  case False
  then have "mem \<notin> set (extras s)" using assms known_extra_iff [of "extras s" False mem] by (auto simp: dict_ok_def)
  moreover have "extras (add_extra mem s) = qsort compare_extras_len (extras s @ [mem])"
    using False by (simp add: add_extra_def add_extra_nocheck_def)
  ultimately show ?thesis
    using assms False by (auto simp: dict_ok_def by_length_qsort distinct_qsort)
qed

text \<open>
  C18: \<^verbatim>\<open>maybe_add_auto\<close> keeps the table of automatic tokens within its array, each token
  within its slot, and no two tokens equal up to case; it never touches the user's tokens. Hence
  so does \<^verbatim>\<open>load_auto\<close>.
\<close>

theorem maybe_add_auto_keeps_table:
  assumes "auto_ok (a_extras s)" and "maybe_add_auto mem s = Some s'"
  shows "auto_ok (a_extras s') \<and> extras s' = extras s"
  using maybe_add_auto_preserves [OF assms(2,1)] by blast

lemma load_auto_keeps_table:
  "auto_ok (a_extras s) \<Longrightarrow> load_auto files s = Some (Inr s') \<Longrightarrow> auto_ok (a_extras s')"
  unfolding load_auto_def by (rule load_auto_loop_preserves)

text \<open>
  A token that is text in UTF-16, little or big endian, of 3 to 32 characters, brings the
  plain text into the dictionary; nothing is lost and the list is sorted by length.
\<close>

theorem deunicode_extras_utf16:
  assumes "d \<in> set (extras s)" and "d = utf16le cs \<or> d = utf16be cs"
    and "3 \<le> length cs" and "length cs \<le> 32" and "0 \<notin> set cs"
  shows "cs \<in> set (extras (deunicode_extras s)) \<and> set (extras s) \<subseteq> set (extras (deunicode_extras s)) \<and>
    by_length (extras (deunicode_extras s))"
proof -
  obtain i where i: "i < length (extras s)" "extras s ! i = d" using assms(1) by (auto simp: in_set_conv_nth)
  then have "i \<in> set [0..<length (extras s)]" by simp
  moreover have "\<And>t. cs \<in> set (extras (deunicode_one (extras s ! i) t))"
    using deunicode_one_utf16 [OF assms(3-5,2)] i(2) by simp
  ultimately have "cs \<in> set (extras (fold (\<lambda>i s'. deunicode_one (extras s ! i) s') [0..<length (extras s)] s))"
    by (rule deunicode_fold_utf16)
  moreover have "extras s \<noteq> []" using assms(1) by auto
  moreover have "fold (\<lambda>i s. deunicode_one (extras s ! i) s) [0..<length (extras s)] s =
      fold (\<lambda>i s'. deunicode_one (extras s ! i) s') [0..<length (extras s)] s"
    by (rule deunicode_fold_static) simp_all
  ultimately show ?thesis
    using deunicode_fold_grows [of s "(!) (extras s)" "[0..<length (extras s)]"]
    by (simp add: deunicode_extras_def Let_def by_length_qsort)
qed

text \<open>A built-in value that is not refused: -128 as a 16-bit little endian word is compared,
  unsigned, with negative table entries, which never match.\<close>

lemma minus_128_not_builtin: "-128 \<in> set interesting_16" "\<not> builtin_16 [0x80, 0xff]"
proof -
  show "-128 \<in> set interesting_16" by (simp add: interesting_16_def interesting_8_def)
  show "\<not> builtin_16 [0x80, 0xff]" by code_simp
qed

section \<open>Witnesses\<close>

definition no_extras :: extras_state where
  "no_extras = \<lparr>extras = [], a_extras = [], auto_changed = False, ex_rng = rng0\<rparr>"

theorem dictionary_round_trip_witness:
  "load_extras_file (concat (map token_line [[65, 0, 34], [9]])) 0 no_extras =
     Some (no_extras\<lparr>extras := [[65, 0, 34], [9]]\<rparr>)"
  using dictionary_round_trip [of "[[65, 0, 34], [9]]" 0 no_extras]
  by (simp add: no_extras_def MAX_DICT_FILE_def)

lemma tab_line: "file_lines [34, 9, 34, 10] = [[34, 9, 34, 10]]" "keyword_of_line 0 [34, 9, 34, 10] = Keyword [9]"
  by code_simp+

theorem load_extras_file_returns_iff_witness: "load_extras_file [34, 9, 34, 10] 0 no_extras = None"
proof (rule ccontr)
  assume "load_extras_file [34, 9, 34, 10] 0 no_extras \<noteq> None"
  then have "\<forall>l. keyword_of_line 0 [34, 9, 34, 10] = Keyword l \<longrightarrow> (\<forall>c \<in> set l. printable c)"
    unfolding load_extras_file_returns_iff tab_line(1) by simp
  then have "printable 9" unfolding tab_line(2) by simp
  then show False by (simp add: printable_def)
qed

theorem dedup_extras_spec_witness:
  "distinct (extras (dedup_extras (no_extras\<lparr>extras := [[1], [2], [1], [3, 4]]\<rparr>)))"
  using dedup_extras_spec [of "no_extras\<lparr>extras := [[1], [2], [1], [3, 4]]\<rparr>"] by simp

theorem add_extra_keeps_dict_witness:
  "set (extras (add_extra [7, 7] (no_extras\<lparr>extras := [[1], [3, 4, 5]]\<rparr>))) = {[7, 7], [1], [3, 4, 5]}"
  using add_extra_keeps_dict [of "no_extras\<lparr>extras := [[1], [3, 4, 5]]\<rparr>" "[7, 7]"]
  by (simp add: dict_ok_def MAX_DICT_FILE_def)

theorem maybe_add_auto_keeps_table_witness:
  "\<exists>s'. maybe_add_auto [0x80, 0xff] no_extras = Some s' \<and> auto_ok (a_extras s') \<and> extras s' = []"
proof -
  have "maybe_add_auto [0x80, 0xff] no_extras \<noteq> None"
    by (simp add: maybe_add_auto_def no_extras_def MAX_AUTO_EXTRAS_def USE_AUTO_EXTRAS_def Let_def)
  then obtain s' where s': "maybe_add_auto [0x80, 0xff] no_extras = Some s'" by blast
  have "auto_ok (a_extras no_extras)" by (simp add: auto_ok_def no_extras_def)
  from maybe_add_auto_keeps_table [OF this s'] s' show ?thesis by (simp add: no_extras_def)
qed

theorem deunicode_extras_utf16_witness:
  "[65, 66, 67] \<in> set (extras (deunicode_extras (no_extras\<lparr>extras := [utf16le [65, 66, 67]]\<rparr>)))"
  using deunicode_extras_utf16 [of "utf16le [65, 66, 67]" "no_extras\<lparr>extras := [utf16le [65, 66, 67]]\<rparr>" "[65, 66, 67]"]
  by simp

end
