(* ===== verification/Corpus.thy ===== *)
theory Corpus
  imports Bitmap Alloc_Inl
begin

text \<open>
  The queue of test cases, \<^verbatim>\<open>src/afl-fuzz-queue.c\<close>: entries and their marker files, the text
  check, the race for \<^verbatim>\<open>top_rated\<close> slots and the choice of favored entries. Entries live in
  \<^verbatim>\<open>queue_buf\<close> and are named by their index, the \<^verbatim>\<open>id\<close>; a pointer to an entry is its id.
\<close>

section \<open>State\<close>

record queue_entry =
  fname :: string
  len :: u32
  passed_det :: bool
  was_fuzzed :: bool
  var_behavior :: bool
  favored :: bool
  fs_redundant :: bool
  is_ascii :: bool
  disabled :: bool
  fuzz_level :: u32
  n_fuzz_entry :: nat
  exec_us :: u64
  depth :: u64
  trace_mini :: "u8 list option"
  tc_ref :: u32
  mother :: "nat option"

datatype schedule = EXPLORE | MMOPT | EXPLOIT | FAST | COE | LIN | QUAD | RARE | SEEK

primrec sched_no :: "schedule \<Rightarrow> nat" where
  "sched_no EXPLORE = 0"
| "sched_no MMOPT = 1"
| "sched_no EXPLOIT = 2"
| "sched_no FAST = 3"
| "sched_no COE = 4"
| "sched_no LIN = 5"
| "sched_no QUAD = 6"
| "sched_no RARE = 7"
| "sched_no SEEK = 8"

text \<open>The marker files are sets of the names below \<^verbatim>\<open>queue/.state\<close>.\<close>

record queue_state = coverage +
  queue_buf :: "queue_entry list"
  queue_head :: "nat option"
  queue_top :: "nat option"
  queue_cur :: "nat option"
  top_rated :: "nat option list"
  score_changed :: bool
  non_instrumented_mode :: bool
  power_schedule :: schedule
  fixed_seed_mode :: bool
  n_fuzz :: "u32 list"
  queued_favored :: u32
  pending_favored :: u32
  cur_depth :: u64
  max_depth :: u64
  ready_for_splicing_count :: u32
  active_paths :: u32
  pending_not_fuzzed :: u32
  cycles_wo_finds :: u64
  last_path_time :: u64
  cmplog_mode :: bool
  det_done_files :: "string set"
  variable_files :: "string set"
  redundant_files :: "string set"

text \<open>How an operation can stop the program: a fatal error, or a null pointer read.\<close>

datatype queue_stop = Stopped fatal | Null_Read

definition upd_entry :: "nat \<Rightarrow> (queue_entry \<Rightarrow> queue_entry) \<Rightarrow> queue_state \<Rightarrow> queue_state" where
  "upd_entry q f s = s\<lparr>queue_buf := (queue_buf s)[q := f (queue_buf s ! q)]\<rparr>"

abbreviation entry :: "queue_state \<Rightarrow> nat \<Rightarrow> queue_entry" where
  "entry s q \<equiv> queue_buf s ! q"

section \<open>Marker files\<close>

text \<open>\<^verbatim>\<open>strrchr(fname, '/') + 1\<close>\<close>

definition base_name :: "string \<Rightarrow> string" where
  "base_name s = rev (takeWhile (\<lambda>c. c \<noteq> CHR ''/'') (rev s))"

text \<open>\<^verbatim>\<open>open\<close> with \<^verbatim>\<open>O_CREAT | O_EXCL\<close> fails on a name that exists.\<close>

definition mark_as_det_done :: "nat \<Rightarrow> queue_state \<Rightarrow> queue_stop + queue_state" where
  "mark_as_det_done q s =
    (let fn = base_name (fname (entry s q))
     in if fn \<in> det_done_files s then Inl (Stopped (PFATAL ''Unable to create''))
     else Inr (upd_entry q (\<lambda>e. e\<lparr>passed_det := True\<rparr>) (s\<lparr>det_done_files := insert fn (det_done_files s)\<rparr>)))"

text \<open>\<^verbatim>\<open>symlink\<close> fails on a name that exists, and may fail on a file system without links
  (\<open>links = False\<close>); then a plain file is tried.\<close>

definition mark_as_variable :: "bool \<Rightarrow> nat \<Rightarrow> queue_state \<Rightarrow> queue_stop + queue_state" where
  "mark_as_variable links q s =
    (let fn = base_name (fname (entry s q));
         done = upd_entry q (\<lambda>e. e\<lparr>var_behavior := True\<rparr>) (s\<lparr>variable_files := insert fn (variable_files s)\<rparr>)
     in if links \<and> fn \<notin> variable_files s then Inr done
     else if fn \<in> variable_files s then Inl (Stopped (PFATAL ''Unable to create''))
     else Inr done)"

definition mark_as_redundant :: "nat \<Rightarrow> bool \<Rightarrow> queue_state \<Rightarrow> queue_stop + queue_state" where
  "mark_as_redundant q state s =
    (if state = fs_redundant (entry s q) then Inr s
     else
       let s = upd_entry q (\<lambda>e. e\<lparr>fs_redundant := state\<rparr>) s;
           fn = base_name (fname (entry s q))
       in if state then
            (if fn \<in> redundant_files s then Inl (Stopped (PFATAL ''Unable to create''))
             else Inr (s\<lparr>redundant_files := insert fn (redundant_files s)\<rparr>))
          else
            (if fn \<notin> redundant_files s then Inl (Stopped (PFATAL ''Unable to remove''))
             else Inr (s\<lparr>redundant_files := redundant_files s - {fn}\<rparr>)))"

section \<open>Is it text?\<close>

definition AFL_TXT_MIN_LEN :: nat where "AFL_TXT_MIN_LEN = (12 :: nat)"
definition AFL_TXT_MIN_PERCENT :: int where "AFL_TXT_MIN_PERCENT = (94 :: int)"
definition MAX_FILE :: nat where "MAX_FILE = (1024 * 1024 :: nat)"

definition between :: "u8 \<Rightarrow> u8 \<Rightarrow> u8 \<Rightarrow> bool" where
  "between lo b hi \<longleftrightarrow> lo \<le> b \<and> b \<le> hi"

definition ascii_text :: "u8 \<Rightarrow> bool" where
  "ascii_text b \<longleftrightarrow> b = 0x09 \<or> b = 0x0A \<or> b = 0x0D \<or> between 0x20 b 0x7E"

definition utf8_2 :: "u8 list \<Rightarrow> bool" where
  "utf8_2 b \<longleftrightarrow> 1 < length b \<and> between 0xC2 (b ! 0) 0xDF \<and> between 0x80 (b ! 1) 0xBF"

definition utf8_3 :: "u8 list \<Rightarrow> bool" where
  "utf8_3 b \<longleftrightarrow> 2 < length b \<and>
     (b ! 0 = 0xE0 \<and> between 0xA0 (b ! 1) 0xBF \<and> between 0x80 (b ! 2) 0xBF
      \<or> (between 0xE1 (b ! 0) 0xEC \<or> b ! 0 = 0xEE \<or> b ! 0 = 0xEF) \<and> between 0x80 (b ! 1) 0xBF \<and> between 0x80 (b ! 2) 0xBF
      \<or> b ! 0 = 0xED \<and> between 0x80 (b ! 1) 0x9F \<and> between 0x80 (b ! 2) 0xBF)"

definition utf8_4 :: "u8 list \<Rightarrow> bool" where
  "utf8_4 b \<longleftrightarrow> 3 < length b \<and>
     (b ! 0 = 0xF0 \<and> between 0x90 (b ! 1) 0xBF \<and> between 0x80 (b ! 2) 0xBF \<and> between 0x80 (b ! 3) 0xBF
      \<or> between 0xF1 (b ! 0) 0xF3 \<and> between 0x80 (b ! 1) 0xBF \<and> between 0x80 (b ! 2) 0xBF \<and> between 0x80 (b ! 3) 0xBF
      \<or> b ! 0 = 0xF4 \<and> between 0x80 (b ! 1) 0x8F \<and> between 0x80 (b ! 2) 0xBF \<and> between 0x80 (b ! 3) 0xBF)"

text \<open>The loop runs over what is left of the buffer; it returns \<^verbatim>\<open>utf8\<close>, \<^verbatim>\<open>ascii\<close> and \<^verbatim>\<open>comp\<close>.
  \<^verbatim>\<open>isprint\<close> adds nothing to \<^verbatim>\<open>isascii\<close> in the C locale.\<close>

fun text_loop :: "u8 list \<Rightarrow> nat \<Rightarrow> nat \<Rightarrow> int \<Rightarrow> nat \<times> nat \<times> int" where
  "text_loop [] utf8 ascii cmp = (utf8, ascii, cmp)"
| "text_loop (b # r) utf8 ascii cmp =
    (if ascii_text b then text_loop r (utf8 + 1) (ascii + 1) cmp
     else
       let ascii = (if b < 0x80 then ascii + 1 else ascii)
       in if utf8_2 (b # r) then text_loop (drop 1 r) (utf8 + 1) ascii (cmp - 1)
       else if utf8_3 (b # r) then text_loop (drop 2 r) (utf8 + 1) ascii (cmp - 2)
       else if utf8_4 (b # r) then text_loop (drop 3 r) (utf8 + 1) ascii (cmp - 3)
       else text_loop r utf8 ascii cmp)"

text \<open>\<open>content\<close> is the file behind the entry, \<open>None\<close> when it cannot be opened. The divisor
  \<^verbatim>\<open>comp\<close> is signed; it stays positive on a non-empty buffer.\<close>

definition check_if_text :: "nat \<Rightarrow> u8 list option \<Rightarrow> nat" where
  "check_if_text qlen content =
    (if qlen < AFL_TXT_MIN_LEN then 0
     else
       let n = (if MAX_FILE \<le> qlen then MAX_FILE - 1 else qlen)
       in case content of
            None \<Rightarrow> 0
          | Some d \<Rightarrow>
              if length (take n d) \<noteq> n then 0
              else
                (case text_loop (take n d) 0 0 (int n) of (utf8, ascii, cmp) \<Rightarrow>
                   let percent_utf8 = (int utf8 * 100) div cmp;
                       percent_ascii = (int ascii * 100) div int n
                   in if percent_ascii \<le> percent_utf8 \<and> AFL_TXT_MIN_PERCENT \<le> percent_utf8 then 2
                      else if AFL_TXT_MIN_PERCENT \<le> percent_ascii then 1 else 0))"

section \<open>Adding entries\<close>

text \<open>\<open>now\<close> is the clock; the callbacks of custom mutators do not touch the queue.\<close>

definition add_to_queue :: "string \<Rightarrow> u32 \<Rightarrow> bool \<Rightarrow> u64 \<Rightarrow> u8 list option \<Rightarrow> queue_state \<Rightarrow> queue_state" where
  "add_to_queue fn n det now content s =
    (let q = \<lparr>fname = fn, len = n, passed_det = det, was_fuzzed = False, var_behavior = False,
              favored = False, fs_redundant = False, is_ascii = False, disabled = False, fuzz_level = 0,
              n_fuzz_entry = 0, exec_us = 0, depth = cur_depth s + 1, trace_mini = None, tc_ref = 0,
              mother = queue_cur s\<rparr>;
         q_id = length (queue_buf s);
         s = (if max_depth s < depth q then s\<lparr>max_depth := depth q\<rparr> else s);
         s = (if queue_top s \<noteq> None then s\<lparr>queue_top := Some q_id\<rparr>
              else s\<lparr>queue_head := Some q_id, queue_top := Some q_id\<rparr>);
         s = (if 4 < len q then s\<lparr>ready_for_splicing_count := ready_for_splicing_count s + 1\<rparr> else s);
         s = s\<lparr>active_paths := active_paths s + 1, pending_not_fuzzed := pending_not_fuzzed s + 1,
               cycles_wo_finds := 0, queue_buf := queue_buf s @ [q], last_path_time := now\<rparr>
     in if cmplog_mode s then upd_entry q_id (\<lambda>e. e\<lparr>is_ascii := check_if_text (unat n) content \<noteq> 0\<rparr>) s else s)"

definition destroy_queue :: "queue_state \<Rightarrow> queue_state" where
  "destroy_queue s = s\<lparr>queue_buf := []\<rparr>"

section \<open>The race for the slots\<close>

definition fav_factor :: "queue_state \<Rightarrow> nat \<Rightarrow> u64" where
  "fav_factor s q = (if sched_no RARE \<le> sched_no (power_schedule s) \<or> fixed_seed_mode s
     then ucast (push_bit 2 (len (entry s q)))
     else exec_us (entry s q) * ucast (len (entry s q)))"

definition fuzz_p2_of :: "queue_state \<Rightarrow> nat \<Rightarrow> u64" where
  "fuzz_p2_of s q =
    (if sched_no FAST \<le> sched_no (power_schedule s) \<and> sched_no (power_schedule s) < sched_no RARE then 0
     else if power_schedule s = RARE then next_pow2 (ucast (n_fuzz s ! n_fuzz_entry (entry s q)))
     else ucast (fuzz_level (entry s q)))"

definition top_fuzz_p2_of :: "queue_state \<Rightarrow> nat \<Rightarrow> u64" where
  "top_fuzz_p2_of s t =
    (if sched_no FAST \<le> sched_no (power_schedule s) \<and> sched_no (power_schedule s) \<le> sched_no RARE
     then next_pow2 (ucast (n_fuzz s ! n_fuzz_entry (entry s t)))
     else ucast (fuzz_level (entry s t)))"

text \<open>The loop body for one byte of the map; \<open>fav\<close> and \<open>p2\<close> are computed before the loop.\<close>

definition wins_over :: "u64 \<Rightarrow> u64 \<Rightarrow> nat \<Rightarrow> queue_state \<Rightarrow> bool" where
  "wins_over fav p2 t s \<longleftrightarrow>
    \<not> (top_fuzz_p2_of s t < p2) \<and> \<not> (p2 = top_fuzz_p2_of s t \<and> fav_factor s t < fav) \<and> \<not> fav_factor s t < fav"

definition drop_ref :: "nat \<Rightarrow> queue_state \<Rightarrow> queue_state" where
  "drop_ref t s =
    (let s = upd_entry t (\<lambda>e. e\<lparr>tc_ref := tc_ref e - 1\<rparr>) s
     in if tc_ref (entry s t) = 0 then upd_entry t (\<lambda>e. e\<lparr>trace_mini := None\<rparr>) s else s)"

definition take_slot :: "nat \<Rightarrow> nat \<Rightarrow> queue_state \<Rightarrow> queue_state" where
  "take_slot q i s =
    (let s = s\<lparr>top_rated := (top_rated s)[i := Some q]\<rparr>;
         s = upd_entry q (\<lambda>e. e\<lparr>tc_ref := tc_ref e + 1\<rparr>) s;
         s = (if trace_mini (entry s q) = None
              then upd_entry q (\<lambda>e. e\<lparr>trace_mini :=
                     Some (minimize_bits (map_size s) (replicate (map_size s div 8) 0) (trace_bits s))\<rparr>) s
              else s)
     in s\<lparr>score_changed := True\<rparr>)"

definition score_byte :: "nat \<Rightarrow> u64 \<Rightarrow> u64 \<Rightarrow> nat \<Rightarrow> queue_state \<Rightarrow> queue_state" where
  "score_byte q fav p2 i s =
    (if trace_bits s ! i = 0 then s
     else case top_rated s ! i of
       None \<Rightarrow> take_slot q i s
     | Some t \<Rightarrow> if \<not> wins_over fav p2 t s then s else take_slot q i (drop_ref t s))"

definition update_bitmap_score :: "nat \<Rightarrow> queue_state \<Rightarrow> queue_state" where
  "update_bitmap_score q s =
     fold (score_byte q (fav_factor s q) (fuzz_p2_of s q)) [0..<map_size s] s"

section \<open>Favored entries\<close>

definition favor :: "nat \<Rightarrow> queue_state \<Rightarrow> queue_state" where
  "favor t s =
    (if favored (entry s t) then s
     else
       let s = upd_entry t (\<lambda>e. e\<lparr>favored := True\<rparr>) s;
           s = s\<lparr>queued_favored := queued_favored s + 1\<rparr>
       in if fuzz_level (entry s t) = 0 \<or> \<not> was_fuzzed (entry s t)
          then s\<lparr>pending_favored := pending_favored s + 1\<rparr> else s)"

fun cull_loop :: "nat list \<Rightarrow> u8 list \<Rightarrow> queue_state \<Rightarrow> queue_stop + (u8 list \<times> queue_state)" where
  "cull_loop [] temp_v s = Inr (temp_v, s)"
| "cull_loop (i # is) temp_v s =
    (case top_rated s ! i of
       None \<Rightarrow> cull_loop is temp_v s
     | Some t \<Rightarrow>
         if \<not> bit (temp_v ! (i div 8)) (i mod 8) then cull_loop is temp_v s
         else case trace_mini (entry s t) of
           None \<Rightarrow> Inl Null_Read
         | Some mini \<Rightarrow> cull_loop is (map2 (\<lambda>v m. if m \<noteq> 0 then v AND NOT m else v) temp_v mini) (favor t s))"

fun redundant_loop :: "nat list \<Rightarrow> queue_state \<Rightarrow> queue_stop + queue_state" where
  "redundant_loop [] s = Inr s"
| "redundant_loop (q # qs) s =
    (if disabled (entry s q) then redundant_loop qs s
     else and_then (mark_as_redundant q (\<not> favored (entry s q)) s) (redundant_loop qs))"

definition cull_queue :: "queue_state \<Rightarrow> queue_stop + queue_state" where
  "cull_queue s =
    (if \<not> score_changed s \<or> non_instrumented_mode s then Inr s
     else
       let n = map_size s div 8;
           temp_v = replicate n 255;
           s = s\<lparr>score_changed := False, queued_favored := 0, pending_favored := 0,
                 queue_buf := map (\<lambda>e. e\<lparr>favored := False\<rparr>) (queue_buf s)\<rparr>
       in and_then (cull_loop [0..<map_size s] temp_v s) (\<lambda>(_, s).
            redundant_loop [0..<length (queue_buf s)] s))"

section \<open>References and kept traces\<close>

definition slots_of :: "nat option list \<Rightarrow> nat \<Rightarrow> nat" where
  "slots_of tops q = length (filter (\<lambda>t. t = Some q) tops)"

text \<open>Every slot names an entry; \<^verbatim>\<open>tc_ref\<close> counts the slots of an entry; exactly the entries with a
  slot keep a trace, of the right size.\<close>

definition entry_ok :: "nat \<Rightarrow> nat option list \<Rightarrow> nat \<Rightarrow> queue_entry \<Rightarrow> bool" where
  "entry_ok n tops q e \<longleftrightarrow> unat (tc_ref e) = slots_of tops q \<and>
     (trace_mini e = None \<longleftrightarrow> tc_ref e = 0) \<and> (\<forall>m. trace_mini e = Some m \<longrightarrow> length m = n div 8)"

definition refs_ok :: "'a queue_state_scheme \<Rightarrow> bool" where
  "refs_ok s \<longleftrightarrow> length (top_rated s) = map_size s \<and> map_size s < 2 ^ 32 \<and> 8 dvd map_size s \<and>
     length (trace_bits s) = map_size s \<and>
     (\<forall>t. Some t \<in> set (top_rated s) \<longrightarrow> t < length (queue_buf s)) \<and>
     (\<forall>q < length (queue_buf s). entry_ok (map_size s) (top_rated s) q (queue_buf s ! q))"

lemma slots_of_update:
  assumes "i < length tops"
  shows "slots_of (tops[i := Some q]) r + (if tops ! i = Some r then 1 else 0) = slots_of tops r + (if r = q then 1 else 0)"
proof -
  have "tops = take i tops @ tops ! i # drop (Suc i) tops" using assms by (rule id_take_nth_drop)
  then have "slots_of tops r = length (filter (\<lambda>t. t = Some r) (take i tops @ tops ! i # drop (Suc i) tops))"
    by (simp add: slots_of_def)
  then show ?thesis using assms by (simp add: slots_of_def upd_conv_take_nth_drop)
qed

lemma slots_of_le: "slots_of tops q \<le> length tops"
  by (simp add: slots_of_def)

lemma slots_of_pos: "0 < slots_of tops q \<longleftrightarrow> Some q \<in> set tops"
  by (auto simp: slots_of_def filter_empty_conv)

lemma upd_entry_fields [simp]:
  "map_size (upd_entry q f s) = map_size s" "top_rated (upd_entry q f s) = top_rated s"
  "trace_bits (upd_entry q f s) = trace_bits s" "length (queue_buf (upd_entry q f s)) = length (queue_buf s)"
  "power_schedule (upd_entry q f s) = power_schedule s" "fixed_seed_mode (upd_entry q f s) = fixed_seed_mode s"
  "n_fuzz (upd_entry q f s) = n_fuzz s" "redundant_files (upd_entry q f s) = redundant_files s"
  "queued_favored (upd_entry q f s) = queued_favored s" "pending_favored (upd_entry q f s) = pending_favored s"
  by (simp_all add: upd_entry_def)

lemma entry_upd: "q < length (queue_buf s) \<Longrightarrow> entry (upd_entry q f s) r = (if r = q then f (entry s q) else entry s r)"
  by (simp add: upd_entry_def nth_list_update)

lemma unat_minus_1: "x \<noteq> 0 \<Longrightarrow> unat (x - 1 :: u32) = unat x - 1"
  by (rule unat_minus_one)

lemma unat_plus_1: "unat x + 1 < 2 ^ 32 \<Longrightarrow> unat (x + 1 :: u32) = unat x + 1"
  by (simp add: unat_plus_if' word_less_nat_alt)

text \<open>The two halves of a change of hands, together: the slot loses its holder, then \<open>q\<close> takes it.\<close>

lemma drop_ref_entry:
  assumes "t < length (queue_buf s)" and "r < length (queue_buf s)"
  shows "entry (drop_ref t s) r =
    (if r \<noteq> t then entry s r
     else let e = entry s t in
       e\<lparr>tc_ref := tc_ref e - 1, trace_mini := if tc_ref e - 1 = 0 then None else trace_mini e\<rparr>)"
  using assms by (auto simp: drop_ref_def Let_def entry_upd)

lemma drop_ref_fields [simp]:
  "map_size (drop_ref t s) = map_size s" "top_rated (drop_ref t s) = top_rated s"
  "trace_bits (drop_ref t s) = trace_bits s" "length (queue_buf (drop_ref t s)) = length (queue_buf s)"
  "power_schedule (drop_ref t s) = power_schedule s" "fixed_seed_mode (drop_ref t s) = fixed_seed_mode s"
  "n_fuzz (drop_ref t s) = n_fuzz s"
  by (simp_all add: drop_ref_def Let_def)

lemma take_slot_fields [simp]:
  "map_size (take_slot q i s) = map_size s" "top_rated (take_slot q i s) = (top_rated s)[i := Some q]"
  "trace_bits (take_slot q i s) = trace_bits s" "length (queue_buf (take_slot q i s)) = length (queue_buf s)"
  "power_schedule (take_slot q i s) = power_schedule s" "fixed_seed_mode (take_slot q i s) = fixed_seed_mode s"
  "n_fuzz (take_slot q i s) = n_fuzz s"
  by (simp_all add: take_slot_def Let_def)

definition fresh_mini :: "queue_state \<Rightarrow> u8 list" where
  "fresh_mini s = minimize_bits (map_size s) (replicate (map_size s div 8) 0) (trace_bits s)"

lemma take_slot_entry:
  assumes "q < length (queue_buf s)" and "r < length (queue_buf s)"
  shows "entry (take_slot q i s) r =
    (if r \<noteq> q then entry s r
     else let e = entry s q in
       e\<lparr>tc_ref := tc_ref e + 1, trace_mini := Some (case trace_mini e of None \<Rightarrow> fresh_mini s | Some m \<Rightarrow> m)\<rparr>)"
proof -
  define s1 where "s1 = s\<lparr>top_rated := (top_rated s)[i := Some q]\<rparr>"
  have s1: "queue_buf s1 = queue_buf s" "map_size s1 = map_size s" "trace_bits s1 = trace_bits s"
    by (simp_all add: s1_def)
  have q: "q < length (queue_buf s1)" using assms by (simp add: s1)
  have "entry (take_slot q i s) r =
    entry (if trace_mini (entry (upd_entry q (\<lambda>e. e\<lparr>tc_ref := tc_ref e + 1\<rparr>) s1) q) = None
      then upd_entry q (\<lambda>e. e\<lparr>trace_mini := Some (fresh_mini s)\<rparr>) (upd_entry q (\<lambda>e. e\<lparr>tc_ref := tc_ref e + 1\<rparr>) s1)
      else upd_entry q (\<lambda>e. e\<lparr>tc_ref := tc_ref e + 1\<rparr>) s1) r"
    by (simp add: take_slot_def Let_def s1_def fresh_mini_def)
  then show ?thesis using q assms
    by (cases "trace_mini (entry s q)"; cases "entry s q") (simp_all add: entry_upd s1)
qed

lemma length_fresh_mini [simp]: "length (fresh_mini s) = map_size s div 8"
  by (simp add: fresh_mini_def)

lemma take_slot_free:
  assumes "refs_ok s" and "q < length (queue_buf s)" and "i < map_size s" and "top_rated s ! i = None"
  shows "refs_ok (take_slot q i s)"
proof -
  have len: "i < length (top_rated s)" using assms by (simp add: refs_ok_def)
  have slots: "slots_of ((top_rated s)[i := Some q]) r = slots_of (top_rated s) r + (if r = q then 1 else 0)" for r
    using slots_of_update [OF len, of q r] assms(4) by simp
  have "entry_ok (map_size s) ((top_rated s)[i := Some q]) r (entry (take_slot q i s) r)"
    if r: "r < length (queue_buf s)" for r
  proof -
    have e: "entry_ok (map_size s) (top_rated s) r (entry s r)" using assms(1) r by (simp add: refs_ok_def)
    show ?thesis
    proof (cases "r = q")
      case False
      then show ?thesis using e by (simp add: take_slot_entry [OF assms(2) r] entry_ok_def slots)
    next
      case True
      have "slots_of ((top_rated s)[i := Some q]) q \<le> map_size s"
        using slots_of_le [of "(top_rated s)[i := Some q]" q] assms(1) by (simp add: refs_ok_def)
      then have "unat (tc_ref (entry s q)) + 1 < 2 ^ 32"
        using e True assms(1) by (simp add: slots entry_ok_def refs_ok_def)
      then have u: "unat (tc_ref (entry s q) + 1) = unat (tc_ref (entry s q)) + 1" by (rule unat_plus_1)
      then have "tc_ref (entry s q) + 1 \<noteq> 0" by (metis add_is_0 unat_0 zero_neq_one)
      then show ?thesis using e True u
        by (simp add: take_slot_entry [OF assms(2) assms(2)] entry_ok_def slots Let_def split: option.splits)
    qed
  qed
  moreover have "\<forall>t. Some t \<in> set ((top_rated s)[i := Some q]) \<longrightarrow> t < length (queue_buf s)"
    using assms(1,2) set_update_subset_insert [of "top_rated s" i "Some q"] by (auto simp: refs_ok_def)
  ultimately show ?thesis using assms(1) by (simp add: refs_ok_def)
qed

lemma entry_ok_slot:
  assumes "refs_ok s" and "Some t \<in> set (top_rated s)"
  shows "t < length (queue_buf s)" and "tc_ref (entry s t) \<noteq> 0" and "trace_mini (entry s t) \<noteq> None"
proof -
  show t: "t < length (queue_buf s)" using assms by (simp add: refs_ok_def)
  then have e: "entry_ok (map_size s) (top_rated s) t (entry s t)" using assms(1) by (simp add: refs_ok_def)
  then have "0 < unat (tc_ref (entry s t))" using assms(2) slots_of_pos [of "top_rated s" t] by (simp add: entry_ok_def)
  then show "tc_ref (entry s t) \<noteq> 0" by auto
  with e show "trace_mini (entry s t) \<noteq> None" by (simp add: entry_ok_def)
qed

lemma take_slot_held:
  assumes "refs_ok s" and "q < length (queue_buf s)" and "i < map_size s" and "top_rated s ! i = Some t"
  shows "refs_ok (take_slot q i (drop_ref t s))"
proof -
  have len: "i < length (top_rated s)" using assms by (simp add: refs_ok_def)
  then have mem: "Some t \<in> set (top_rated s)" using assms(4) nth_mem by fastforce
  note t = entry_ok_slot [OF assms(1) mem]
  have slots: "slots_of ((top_rated s)[i := Some q]) r + (if t = r then 1 else 0) =
      slots_of (top_rated s) r + (if r = q then 1 else 0)" for r
    using slots_of_update [OF len, of q r] assms(4) by simp
  have small: "slots_of ((top_rated s)[i := Some q]) r < 2 ^ 32" for r
    using slots_of_le [of "(top_rated s)[i := Some q]" r] assms(1) by (simp add: refs_ok_def)
  have len_d: "q < length (queue_buf (drop_ref t s))" using assms(2) by simp
  have fm: "length (fresh_mini (drop_ref t s)) = map_size s div 8" by simp
  have "entry_ok (map_size s) ((top_rated s)[i := Some q]) r (entry (take_slot q i (drop_ref t s)) r)"
    if r: "r < length (queue_buf s)" for r
  proof -
    have e: "entry_ok (map_size s) (top_rated s) r (entry s r)" using assms(1) r by (simp add: refs_ok_def)
    have r': "r < length (queue_buf (drop_ref t s))" using r by simp
    have ref: "tc_ref (entry (drop_ref t s) r) = (if r = t then tc_ref (entry s r) - 1 else tc_ref (entry s r))"
      and mini: "trace_mini (entry (drop_ref t s) r) =
        (if r = t \<and> tc_ref (entry s r) - 1 = 0 then None else trace_mini (entry s r))"
      using drop_ref_entry [OF t(1) r] by (auto simp: Let_def)
    have u: "unat (tc_ref (entry (drop_ref t s) r)) = slots_of (top_rated s) r - (if r = t then 1 else 0)"
      using e t(2) by (auto simp: ref entry_ok_def unat_minus_1)
    have none: "trace_mini (entry (drop_ref t s) r) = None \<longleftrightarrow> tc_ref (entry (drop_ref t s) r) = 0"
      using e t(2) by (auto simp: ref mini entry_ok_def)
    have size_ok: "\<forall>m. trace_mini (entry (drop_ref t s) r) = Some m \<longrightarrow> length m = map_size s div 8"
      using e by (simp add: mini entry_ok_def)
    show ?thesis
    proof (cases "r = q")
      case False
      then have "entry (take_slot q i (drop_ref t s)) r = entry (drop_ref t s) r"
        using take_slot_entry [OF len_d r'] by simp
      then show ?thesis using u none size_ok slots [of r] False by (auto simp: entry_ok_def)
    next
      case True
      have "unat (tc_ref (entry (drop_ref t s) q)) + 1 = slots_of ((top_rated s)[i := Some q]) q"
        using u slots [of q] slots_of_pos [of "top_rated s" t] mem True by (auto split: if_splits)
      then have u1: "unat (tc_ref (entry (drop_ref t s) q) + 1) = slots_of ((top_rated s)[i := Some q]) q"
        using unat_plus_1 [of "tc_ref (entry (drop_ref t s) q)"] small [of q] by simp
      moreover have "0 < slots_of ((top_rated s)[i := Some q]) q"
        using len by (subst slots_of_pos) (simp add: set_update_memI)
      ultimately have "tc_ref (entry (drop_ref t s) q) + 1 \<noteq> 0" by (metis unat_0 less_irrefl)
      then show ?thesis using u1 size_ok True fm
        by (simp add: take_slot_entry [OF len_d len_d] entry_ok_def Let_def split: option.splits)
    qed
  qed
  moreover have "\<forall>t. Some t \<in> set ((top_rated s)[i := Some q]) \<longrightarrow> t < length (queue_buf s)"
    using assms(1,2) set_update_subset_insert [of "top_rated s" i "Some q"] by (auto simp: refs_ok_def)
  ultimately show ?thesis using assms(1) by (simp add: refs_ok_def)
qed

lemma score_byte_refs_ok:
  assumes "refs_ok s" and "q < length (queue_buf s)" and "i < map_size s"
  shows "refs_ok (score_byte q fav p2 i s) \<and> map_size (score_byte q fav p2 i s) = map_size s \<and>
    length (queue_buf (score_byte q fav p2 i s)) = length (queue_buf s)"
  using assms take_slot_free [OF assms] take_slot_held [OF assms]
  by (auto simp: score_byte_def split: option.splits)

lemma score_fold_refs_ok:
  "refs_ok s \<Longrightarrow> q < length (queue_buf s) \<Longrightarrow> \<forall>i \<in> set is. i < map_size s \<Longrightarrow>
     refs_ok (fold (score_byte q fav p2) is s)"
proof (induction "is" arbitrary: s)
  case (Cons i "is")
  then show ?case using score_byte_refs_ok [of s q i fav p2] by simp
qed simp

lemma update_bitmap_score_refs_ok:
  "refs_ok s \<Longrightarrow> q < length (queue_buf s) \<Longrightarrow> refs_ok (update_bitmap_score q s)"
  unfolding update_bitmap_score_def by (rule score_fold_refs_ok) simp_all

text \<open>What an entry is judged by never changes in the loop, so every byte is decided as if it
  were the first.\<close>

definition same_scores :: "queue_state \<Rightarrow> queue_state \<Rightarrow> bool" where
  "same_scores s s' \<longleftrightarrow> map_size s' = map_size s \<and> trace_bits s' = trace_bits s \<and>
     length (queue_buf s') = length (queue_buf s) \<and> power_schedule s' = power_schedule s \<and>
     fixed_seed_mode s' = fixed_seed_mode s \<and> n_fuzz s' = n_fuzz s \<and>
     (\<forall>r < length (queue_buf s). len (entry s' r) = len (entry s r) \<and> exec_us (entry s' r) = exec_us (entry s r) \<and>
        fuzz_level (entry s' r) = fuzz_level (entry s r) \<and> n_fuzz_entry (entry s' r) = n_fuzz_entry (entry s r) \<and>
        favored (entry s' r) = favored (entry s r) \<and> was_fuzzed (entry s' r) = was_fuzzed (entry s r))"

lemma same_scores_refl [simp]: "same_scores s s"
  by (simp add: same_scores_def)

lemma same_scores_trans: "same_scores s s' \<Longrightarrow> same_scores s' s'' \<Longrightarrow> same_scores s s''"
  by (simp add: same_scores_def)

lemma same_scores_wins:
  assumes "same_scores s s'" and "t < length (queue_buf s)"
  shows "wins_over fav p2 t s' = wins_over fav p2 t s"
  using assms by (simp add: same_scores_def wins_over_def top_fuzz_p2_of_def fav_factor_def)

lemma drop_ref_scores: "t < length (queue_buf s) \<Longrightarrow> same_scores s (drop_ref t s)"
  by (auto simp: same_scores_def drop_ref_entry Let_def)

lemma take_slot_scores: "q < length (queue_buf s) \<Longrightarrow> same_scores s (take_slot q i s)"
  by (auto simp: same_scores_def take_slot_entry Let_def)

lemma score_byte_scores:
  assumes "refs_ok s" and "q < length (queue_buf s)" and "i < map_size s"
  shows "same_scores s (score_byte q fav p2 i s)"
proof (cases "top_rated s ! i")
  case None
  then show ?thesis using assms(2) by (simp add: score_byte_def take_slot_scores)
next
  case (Some t)
  have "Some t \<in> set (top_rated s)" using Some assms by (metis nth_mem refs_ok_def)
  then have t: "t < length (queue_buf s)" using entry_ok_slot(1) [OF assms(1)] by blast
  have "same_scores s (take_slot q i (drop_ref t s))"
    using same_scores_trans [OF drop_ref_scores [OF t] take_slot_scores] assms(2) by simp
  then show ?thesis by (simp add: score_byte_def Some)
qed

lemma score_byte_top:
  assumes "refs_ok s" and "i < map_size s"
  shows "top_rated (score_byte q fav p2 i s) =
    (if trace_bits s ! i \<noteq> 0 \<and> (\<forall>t. top_rated s ! i = Some t \<longrightarrow> wins_over fav p2 t s)
     then (top_rated s)[i := Some q] else top_rated s)"
  by (auto simp: score_byte_def split: option.splits)

lemma score_fold_top:
  assumes "refs_ok s" and "q < length (queue_buf s)"
  shows "n \<le> map_size s \<Longrightarrow>
    (let s' = fold (score_byte q fav p2) [0..<n] s in
      refs_ok s' \<and> same_scores s s' \<and>
      (\<forall>i < map_size s. top_rated s' ! i =
        (if i < n \<and> trace_bits s ! i \<noteq> 0 \<and> (\<forall>t. top_rated s ! i = Some t \<longrightarrow> wins_over fav p2 t s)
         then Some q else top_rated s ! i)))"
proof (induction n)
  case 0
  then show ?case using assms by simp
next
  case (Suc n)
  define s' where "s' = fold (score_byte q fav p2) [0..<n] s"
  have IH: "refs_ok s'" "same_scores s s'" and top: "\<And>i. i < map_size s \<Longrightarrow> top_rated s' ! i =
        (if i < n \<and> trace_bits s ! i \<noteq> 0 \<and> (\<forall>t. top_rated s ! i = Some t \<longrightarrow> wins_over fav p2 t s)
         then Some q else top_rated s ! i)"
    using Suc by (auto simp: s'_def Let_def)
  have eqs: "map_size s' = map_size s" "trace_bits s' = trace_bits s" "length (queue_buf s') = length (queue_buf s)"
    using IH(2) by (simp_all add: same_scores_def)
  have q: "q < length (queue_buf s')" and n: "n < map_size s'" using assms(2) Suc.prems by (simp_all add: eqs)
  have "length (top_rated s') = map_size s" using IH(1) by (simp add: refs_ok_def eqs)
  moreover have "wins_over fav p2 t s' = wins_over fav p2 t s" if "top_rated s ! n = Some t" for t
  proof -
    have "Some t \<in> set (top_rated s)" using that Suc.prems assms(1) by (metis Suc_le_lessD nth_mem refs_ok_def)
    then show ?thesis using same_scores_wins [OF IH(2)] entry_ok_slot(1) [OF assms(1)] by blast
  qed
  ultimately have "top_rated (score_byte q fav p2 n s') ! i =
      (if i < Suc n \<and> trace_bits s ! i \<noteq> 0 \<and> (\<forall>t. top_rated s ! i = Some t \<longrightarrow> wins_over fav p2 t s)
       then Some q else top_rated s ! i)" if "i < map_size s" for i
    using that Suc.prems top [OF that] top [of n] 
    by (auto simp: score_byte_top [OF IH(1) n] eqs nth_list_update less_Suc_eq)
  then show ?case
    using score_byte_refs_ok [OF IH(1) q n] same_scores_trans [OF IH(2) score_byte_scores [OF IH(1) q n]]
    by (simp add: s'_def [symmetric] Let_def)
qed

section \<open>Choosing the favored entries\<close>

abbreviation bit_at :: "u8 list \<Rightarrow> nat \<Rightarrow> bool" where
  "bit_at v i \<equiv> bit (v ! (i div 8)) (i mod 8)"

text \<open>Some favored entry has the tuple in its kept trace.\<close>

definition covered_by_favored :: "queue_state \<Rightarrow> nat \<Rightarrow> bool" where
  "covered_by_favored s i \<longleftrightarrow> (\<exists>q < length (queue_buf s). favored (entry s q) \<and>
     (\<exists>m. trace_mini (entry s q) = Some m \<and> bit_at m i))"

definition favored_count :: "queue_state \<Rightarrow> nat" where
  "favored_count s = length (filter favored (queue_buf s))"

definition pending_count :: "queue_state \<Rightarrow> nat" where
  "pending_count s = length (filter (\<lambda>e. favored e \<and> (fuzz_level e = 0 \<or> \<not> was_fuzzed e)) (queue_buf s))"

definition counts_ok :: "queue_state \<Rightarrow> bool" where
  "counts_ok s \<longleftrightarrow> queued_favored s = of_nat (favored_count s) \<and> pending_favored s = of_nat (pending_count s)"

lemma filter_length_update:
  assumes "t < length es" and "\<not> p (es ! t)" and "p e"
  shows "length (filter p (es[t := e])) = Suc (length (filter p es))"
proof -
  have "es = take t es @ es ! t # drop (Suc t) es" using assms(1) by (rule id_take_nth_drop)
  then have "length (filter p es) = length (filter p (take t es @ es ! t # drop (Suc t) es))" by simp
  then show ?thesis using assms by (simp add: upd_conv_take_nth_drop)
qed

lemma filter_length_update_same:
  assumes "t < length es" and "p (es ! t) = p e"
  shows "length (filter p (es[t := e])) = length (filter p es)"
proof -
  have "es = take t es @ es ! t # drop (Suc t) es" using assms(1) by (rule id_take_nth_drop)
  then have "length (filter p es) = length (filter p (take t es @ es ! t # drop (Suc t) es))" by simp
  then show ?thesis using assms by (simp add: upd_conv_take_nth_drop)
qed

lemma favor_counts:
  assumes "t < length (queue_buf s)" and "counts_ok s"
  shows "counts_ok (favor t s)"
proof (cases "favored (entry s t)")
  case True
  then show ?thesis using assms by (simp add: favor_def)
next
  case False
  define e where "e = (entry s t)\<lparr>favored := True\<rparr>"
  have buf: "queue_buf (favor t s) = (queue_buf s)[t := e]"
    using False by (simp add: favor_def Let_def upd_entry_def e_def)
  have fc: "favored_count (favor t s) = Suc (favored_count s)"
    using False assms(1) by (simp add: favored_count_def buf filter_length_update e_def)
  have pc: "pending_count (favor t s) =
      (if fuzz_level (entry s t) = 0 \<or> \<not> was_fuzzed (entry s t) then Suc (pending_count s) else pending_count s)"
    using False assms(1)
    by (auto simp: pending_count_def buf e_def filter_length_update filter_length_update_same)
  have "queued_favored (favor t s) = queued_favored s + 1"
    and "pending_favored (favor t s) = (if fuzz_level (entry s t) = 0 \<or> \<not> was_fuzzed (entry s t)
        then pending_favored s + 1 else pending_favored s)"
    using False assms(1) by (simp_all add: favor_def Let_def entry_upd)
  then show ?thesis using assms(2) fc pc by (simp add: counts_ok_def add.commute)
qed

text \<open>\<open>favor\<close> changes the mark of one entry and the two counters, nothing else.\<close>

definition unmarked :: "queue_entry \<Rightarrow> queue_entry" where
  "unmarked e = e\<lparr>favored := False, fs_redundant := False\<rparr>"

definition same_queue :: "queue_state \<Rightarrow> queue_state \<Rightarrow> bool" where
  "same_queue s s' \<longleftrightarrow> map unmarked (queue_buf s') = map unmarked (queue_buf s) \<and> top_rated s' = top_rated s \<and>
     map_size s' = map_size s \<and> trace_bits s' = trace_bits s"

lemma same_queue_refl [simp]: "same_queue s s"
  by (simp add: same_queue_def)

lemma same_queue_trans: "same_queue s s' \<Longrightarrow> same_queue s' s'' \<Longrightarrow> same_queue s s''"
  by (simp add: same_queue_def)

lemma unmarked_eq_fields:
  "unmarked e = unmarked e' \<Longrightarrow> fname e = fname e' \<and> tc_ref e = tc_ref e' \<and> trace_mini e = trace_mini e' \<and>
     disabled e = disabled e' \<and> fuzz_level e = fuzz_level e' \<and> was_fuzzed e = was_fuzzed e'"
  by (cases e; cases e') (simp add: unmarked_def)

lemma same_queue_length: "same_queue s s' \<Longrightarrow> length (queue_buf s') = length (queue_buf s)"
  unfolding same_queue_def by (metis length_map)

lemma same_queue_entry:
  assumes "same_queue s s'" and "q < length (queue_buf s)"
  shows "unmarked (entry s' q) = unmarked (entry s q)"
proof -
  have "map unmarked (queue_buf s') ! q = map unmarked (queue_buf s) ! q"
    using assms(1) by (simp add: same_queue_def)
  then show ?thesis using assms same_queue_length by simp
qed

lemma same_queue_fields:
  assumes "same_queue s s'" and "q < length (queue_buf s)"
  shows "tc_ref (entry s' q) = tc_ref (entry s q)" "trace_mini (entry s' q) = trace_mini (entry s q)"
    "fname (entry s' q) = fname (entry s q)" "disabled (entry s' q) = disabled (entry s q)"
  using unmarked_eq_fields [OF same_queue_entry [OF assms]] by simp_all

lemma same_queue_refs: "same_queue s s' \<Longrightarrow> refs_ok s \<Longrightarrow> refs_ok s'"
  using same_queue_length [of s s'] same_queue_fields [of s s']
  by (simp add: refs_ok_def entry_ok_def same_queue_def)

lemma unmarked_upd: "unmarked (f e) = unmarked e \<Longrightarrow> map unmarked (es[t := f e]) = (map unmarked es)[t := unmarked e]"
  by (simp add: map_update)

lemma upd_entry_same:
  assumes "t < length (queue_buf s)" and "\<And>e. unmarked (f e) = unmarked e"
  shows "same_queue s (upd_entry t f s)"
  using assms by (simp add: same_queue_def upd_entry_def map_update list_update_same_conv)

lemma favor_same: "t < length (queue_buf s) \<Longrightarrow> same_queue s (favor t s)"
proof -
  assume t: "t < length (queue_buf s)"
  have "same_queue s (upd_entry t (\<lambda>e. e\<lparr>favored := True\<rparr>) s)"
    using t by (rule upd_entry_same) (simp add: unmarked_def)
  then show ?thesis by (auto simp: favor_def Let_def same_queue_def)
qed

lemma favor_favored:
  "t < length (queue_buf s) \<Longrightarrow> favored (entry (favor t s) q) = (favored (entry s q) \<or> q = t)"
  by (auto simp: favor_def Let_def upd_entry_def nth_list_update)

lemma bit_at_cleared:
  assumes "length v = length m" and "i div 8 < length v"
  shows "bit_at (map2 (\<lambda>v m. if m \<noteq> 0 then v AND NOT m else v) v m) i \<longleftrightarrow> bit_at v i \<and> \<not> bit_at m (i :: nat)"
proof -
  have 8: "i mod 8 < 8" by simp
  show ?thesis using assms 8 by (auto simp: bit_and_iff bit_not_iff)
qed

lemma covered_mono:
  assumes "same_queue s s'" and "\<And>q. favored (entry s q) \<Longrightarrow> favored (entry s' q)" and "covered_by_favored s i"
  shows "covered_by_favored s' i"
proof -
  obtain q m where q: "q < length (queue_buf s)" "favored (entry s q)" "trace_mini (entry s q) = Some m" "bit_at m i"
    using assms(3) by (auto simp: covered_by_favored_def)
  then have "q < length (queue_buf s')" "favored (entry s' q)" "trace_mini (entry s' q) = Some m"
    using assms(2) same_queue_length [OF assms(1)] same_queue_fields(2) [OF assms(1) q(1)] by simp_all
  then show ?thesis using q(4) by (auto simp: covered_by_favored_def)
qed

lemma cull_loop_spec:
  assumes "refs_ok s" and "length v = map_size s div 8" and "\<forall>i \<in> set is. i < map_size s"
    and "\<And>i. i < map_size s \<Longrightarrow> \<not> bit_at v i \<Longrightarrow> covered_by_favored s i"
    and "\<And>q. favored (entry s q) \<Longrightarrow> q < length (queue_buf s) \<Longrightarrow> Some q \<in> set (top_rated s)" and "counts_ok s"
  shows "\<exists>v' s'. cull_loop is v s = Inr (v', s') \<and> same_queue s s' \<and> counts_ok s' \<and>
    redundant_files s' = redundant_files s \<and> map fs_redundant (queue_buf s') = map fs_redundant (queue_buf s) \<and>
    (\<forall>q < length (queue_buf s). favored (entry s' q) \<longrightarrow> Some q \<in> set (top_rated s)) \<and>
    (\<forall>q. favored (entry s q) \<longrightarrow> favored (entry s' q)) \<and>
    (\<forall>i \<in> set is. \<forall>t. top_rated s ! i = Some t \<longrightarrow> favored (entry s' t) \<or> covered_by_favored s' i)"
  using assms
proof (induction "is" arbitrary: v s)
  case Nil
  then show ?case by simp
next
  case (Cons i "is")
  have i: "i < map_size s" and rest: "\<forall>i \<in> set is. i < map_size s" using Cons.prems(3) by simp_all
  show ?case
  proof (cases "top_rated s ! i")
    case None
    then show ?thesis using Cons.IH [OF Cons.prems(1,2) rest Cons.prems(4-6)] by simp
  next
    case (Some t)
    have mem: "Some t \<in> set (top_rated s)" using Some i Cons.prems(1) by (metis nth_mem refs_ok_def)
    note t = entry_ok_slot [OF Cons.prems(1) mem]
    show ?thesis
    proof (cases "bit_at v i")
      case False
      obtain v' s' where IH: "cull_loop is v s = Inr (v', s')" "same_queue s s'" "counts_ok s'"
        "redundant_files s' = redundant_files s" "map fs_redundant (queue_buf s') = map fs_redundant (queue_buf s)"
        "\<forall>q < length (queue_buf s). favored (entry s' q) \<longrightarrow> Some q \<in> set (top_rated s)"
        "\<forall>q. favored (entry s q) \<longrightarrow> favored (entry s' q)"
        "\<forall>i \<in> set is. \<forall>t. top_rated s ! i = Some t \<longrightarrow> favored (entry s' t) \<or> covered_by_favored s' i"
        using Cons.IH [OF Cons.prems(1,2) rest Cons.prems(4-6)] by blast
      have "covered_by_favored s' i"
        using covered_mono [OF IH(2) _ Cons.prems(4) [OF i False]] IH(7) by blast
      then show ?thesis using IH Some False by simp
    next
      case True
      obtain m where m: "trace_mini (entry s t) = Some m" using t(3) by blast
      have lm: "length m = map_size s div 8"
        using Cons.prems(1) t(1) m by (auto simp: refs_ok_def entry_ok_def)
      define v1 where "v1 = map2 (\<lambda>v m. if m \<noteq> 0 then v AND NOT m else v) v m"
      define s1 where "s1 = favor t s"
      have same: "same_queue s s1" unfolding s1_def by (rule favor_same) (rule t(1))
      have fav: "favored (entry s1 q) \<longleftrightarrow> favored (entry s q) \<or> q = t" for q
        unfolding s1_def by (rule favor_favored) (rule t(1))
      have eqs: "map_size s1 = map_size s" "top_rated s1 = top_rated s" "length (queue_buf s1) = length (queue_buf s)"
        using same same_queue_length [OF same] by (simp_all add: same_queue_def)
      have "redundant_files s1 = redundant_files s" by (simp add: s1_def favor_def Let_def)
      moreover have "map fs_redundant (queue_buf s1) = map fs_redundant (queue_buf s)"
        using t(1) by (simp add: s1_def favor_def Let_def upd_entry_def map_update list_update_same_conv)
      moreover have "\<exists>v' s'. cull_loop is v1 s1 = Inr (v', s') \<and> same_queue s1 s' \<and> counts_ok s' \<and>
        redundant_files s' = redundant_files s1 \<and> map fs_redundant (queue_buf s') = map fs_redundant (queue_buf s1) \<and>
        (\<forall>q < length (queue_buf s1). favored (entry s' q) \<longrightarrow> Some q \<in> set (top_rated s1)) \<and>
        (\<forall>q. favored (entry s1 q) \<longrightarrow> favored (entry s' q)) \<and>
        (\<forall>i \<in> set is. \<forall>t. top_rated s1 ! i = Some t \<longrightarrow> favored (entry s' t) \<or> covered_by_favored s' i)"
      proof (rule Cons.IH)
        show "refs_ok s1" using same_queue_refs [OF same Cons.prems(1)] .
        show "length v1 = map_size s1 div 8" using Cons.prems(2) lm by (simp add: v1_def eqs)
        show "\<forall>i \<in> set is. i < map_size s1" using rest by (simp add: eqs)
        show "counts_ok s1" unfolding s1_def by (rule favor_counts) (rule t(1), rule Cons.prems(6))
        show "Some q \<in> set (top_rated s1)" if "favored (entry s1 q)" "q < length (queue_buf s1)" for q
          using that Cons.prems(5) mem by (auto simp: fav eqs)
        show "covered_by_favored s1 j" if j: "j < map_size s1" "\<not> bit_at v1 j" for j
        proof (cases "bit_at v j")
          case False
          then show ?thesis using covered_mono [OF same _ Cons.prems(4)] j fav by (simp add: eqs)
        next
          case True
          have "j div 8 < length v"
            using j(1) Cons.prems(1,2) by (metis dvd_mult_div_cancel eqs(1) less_mult_imp_div_less mult.commute refs_ok_def)
          then have "bit_at m j"
            using True j(2) bit_at_cleared [of v m j] Cons.prems(2) lm by (simp add: v1_def)
          moreover have "trace_mini (entry s1 t) = Some m" using same_queue_fields(2) [OF same t(1)] m by simp
          ultimately show ?thesis using fav t(1) by (auto simp: covered_by_favored_def eqs)
        qed
      qed
      ultimately obtain v' s' where res: "cull_loop is v1 s1 = Inr (v', s')" "same_queue s1 s'" "counts_ok s'"
        "redundant_files s' = redundant_files s" "map fs_redundant (queue_buf s') = map fs_redundant (queue_buf s)"
        "\<forall>q < length (queue_buf s). favored (entry s' q) \<longrightarrow> Some q \<in> set (top_rated s)"
        "\<forall>q. favored (entry s1 q) \<longrightarrow> favored (entry s' q)"
        "\<forall>i \<in> set is. \<forall>t. top_rated s ! i = Some t \<longrightarrow> favored (entry s' t) \<or> covered_by_favored s' i"
        by (auto simp: eqs)
      have "favored (entry s' t)" using res(7) fav by blast
      moreover have "cull_loop (i # is) v s = Inr (v', s')"
        using Some True m res(1) by (simp add: v1_def s1_def)
      ultimately show ?thesis using res fav same_queue_trans [OF same res(2)] Some by auto
    qed
  qed
qed

section \<open>Marker files\<close>

text \<open>The directory of redundant entries lists exactly the entries flagged so; file names are
  different.\<close>

definition marks_ok :: "queue_state \<Rightarrow> bool" where
  "marks_ok s \<longleftrightarrow> distinct (map (\<lambda>e. base_name (fname e)) (queue_buf s)) \<and>
     redundant_files s = (\<lambda>e. base_name (fname e)) ` {e \<in> set (queue_buf s). fs_redundant e}"

lemma marks_ok_iff:
  assumes "marks_ok s" and "q < length (queue_buf s)"
  shows "base_name (fname (entry s q)) \<in> redundant_files s \<longleftrightarrow> fs_redundant (entry s q)"
proof
  assume "base_name (fname (entry s q)) \<in> redundant_files s"
  then obtain r where r: "r < length (queue_buf s)" "fs_redundant (entry s r)"
    "base_name (fname (entry s r)) = base_name (fname (entry s q))"
    using assms(1) by (auto simp: marks_ok_def in_set_conv_nth)
  then have "r = q"
    using assms nth_eq_iff_index_eq [of "map (\<lambda>e. base_name (fname e)) (queue_buf s)" r q] by (simp add: marks_ok_def)
  then show "fs_redundant (entry s q)" using r by simp
qed (use assms in \<open>auto simp: marks_ok_def\<close>)

lemma mark_as_redundant_ok:
  assumes "marks_ok s" and "q < length (queue_buf s)"
  shows "\<exists>s'. mark_as_redundant q b s = Inr s' \<and> marks_ok s' \<and> same_queue s s' \<and>
    map favored (queue_buf s') = map favored (queue_buf s) \<and> fs_redundant (entry s' q) = b \<and>
    (\<forall>r. r \<noteq> q \<longrightarrow> entry s' r = entry s r) \<and>
    queued_favored s' = queued_favored s \<and> pending_favored s' = pending_favored s"
proof (cases "b = fs_redundant (entry s q)")
  case True
  then show ?thesis using assms by (simp add: mark_as_redundant_def)
next
  case False
  define s1 where "s1 = upd_entry q (\<lambda>e. e\<lparr>fs_redundant := b\<rparr>) s"
  define fn where "fn = base_name (fname (entry s q))"
  define files where "files = (if b then insert fn (redundant_files s) else redundant_files s - {fn})"
  have same: "same_queue s s1"
    unfolding s1_def by (rule upd_entry_same [OF assms(2)]) (simp add: unmarked_def)
  have fn1: "base_name (fname (entry s1 q)) = fn"
    using same_queue_fields(3) [OF same assms(2)] by (simp add: fn_def)
  have res: "mark_as_redundant q b s = Inr (s1\<lparr>redundant_files := files\<rparr>)"
    using False marks_ok_iff [OF assms] fn1
    by (auto simp: mark_as_redundant_def Let_def s1_def [symmetric] fn_def [symmetric] files_def s1_def)
  have ent: "entry s1 r = (if r = q then (entry s q)\<lparr>fs_redundant := b\<rparr> else entry s r)" for r
    unfolding s1_def by (rule entry_upd) (rule assms(2))
  have names: "map (\<lambda>e. base_name (fname e)) (queue_buf s1) = map (\<lambda>e. base_name (fname e)) (queue_buf s)"
    using assms(2) by (simp add: s1_def upd_entry_def map_update list_update_same_conv)
  have "x \<in> files \<longleftrightarrow> x \<in> (\<lambda>e. base_name (fname e)) ` {e \<in> set (queue_buf s1). fs_redundant e}" for x
  proof -
    have L: "length (queue_buf s1) = length (queue_buf s)" by (simp add: s1_def)
    have old: "x \<in> redundant_files s \<longleftrightarrow> (\<exists>r < length (queue_buf s). fs_redundant (entry s r) \<and> base_name (fname (entry s r)) = x)"
      using assms(1) by (auto simp: marks_ok_def in_set_conv_nth)
    have new: "x \<in> (\<lambda>e. base_name (fname e)) ` {e \<in> set (queue_buf s1). fs_redundant e} \<longleftrightarrow>
        (\<exists>r < length (queue_buf s). fs_redundant (entry s1 r) \<and> base_name (fname (entry s1 r)) = x)"
      by (auto simp: in_set_conv_nth L)
    have inj: "base_name (fname (entry s r)) = fn \<longleftrightarrow> r = q" if "r < length (queue_buf s)" for r
      using that assms nth_eq_iff_index_eq [of "map (\<lambda>e. base_name (fname e)) (queue_buf s)" r q]
      by (simp add: marks_ok_def fn_def)
    show ?thesis unfolding new files_def
      using old inj assms(2) False by (auto simp: ent fn_def split: if_splits)
  qed
  then have "marks_ok (s1\<lparr>redundant_files := files\<rparr>)"
    using assms(1) names by (auto simp: marks_ok_def)
  moreover have "same_queue s (s1\<lparr>redundant_files := files\<rparr>)" using same by (simp add: same_queue_def)
  moreover have "map favored (queue_buf s1) = map favored (queue_buf s)"
    using assms(2) by (simp add: s1_def upd_entry_def map_update list_update_same_conv)
  ultimately show ?thesis using res ent by (simp add: s1_def)
qed

lemma redundant_loop_ok:
  assumes "marks_ok s" and "\<forall>q \<in> set qs. q < length (queue_buf s)" and "distinct qs"
  shows "\<exists>s'. redundant_loop qs s = Inr s' \<and> marks_ok s' \<and> same_queue s s' \<and>
    map favored (queue_buf s') = map favored (queue_buf s) \<and>
    queued_favored s' = queued_favored s \<and> pending_favored s' = pending_favored s \<and>
    (\<forall>q. q \<notin> set qs \<longrightarrow> entry s' q = entry s q) \<and>
    (\<forall>q \<in> set qs. \<not> disabled (entry s q) \<longrightarrow> fs_redundant (entry s' q) = (\<not> favored (entry s q)))"
  using assms
proof (induction qs arbitrary: s)
  case Nil
  then show ?case by simp
next
  case (Cons q qs)
  show ?case
  proof (cases "disabled (entry s q)")
    case True
    then obtain s' where "redundant_loop qs s = Inr s'" "marks_ok s'" "same_queue s s'"
      "map favored (queue_buf s') = map favored (queue_buf s)"
      "queued_favored s' = queued_favored s" "pending_favored s' = pending_favored s"
      "\<forall>q. q \<notin> set qs \<longrightarrow> entry s' q = entry s q"
      "\<forall>q \<in> set qs. \<not> disabled (entry s q) \<longrightarrow> fs_redundant (entry s' q) = (\<not> favored (entry s q))"
      using Cons.IH [OF Cons.prems(1)] Cons.prems by auto
    then show ?thesis using True by simp
  next
    case False
    have q: "q < length (queue_buf s)" using Cons.prems(2) by simp
    obtain s1 where m: "mark_as_redundant q (\<not> favored (entry s q)) s = Inr s1" "marks_ok s1" "same_queue s s1"
      "map favored (queue_buf s1) = map favored (queue_buf s)" "fs_redundant (entry s1 q) = (\<not> favored (entry s q))"
      "\<forall>r. r \<noteq> q \<longrightarrow> entry s1 r = entry s r"
      "queued_favored s1 = queued_favored s" "pending_favored s1 = pending_favored s"
      using mark_as_redundant_ok [OF Cons.prems(1) q] by blast
    have L: "length (queue_buf s1) = length (queue_buf s)" by (rule same_queue_length [OF m(3)])
    obtain s' where r: "redundant_loop qs s1 = Inr s'" "marks_ok s'" "same_queue s1 s'"
      "map favored (queue_buf s') = map favored (queue_buf s1)"
      "queued_favored s' = queued_favored s1" "pending_favored s' = pending_favored s1"
      "\<forall>q. q \<notin> set qs \<longrightarrow> entry s' q = entry s1 q"
      "\<forall>q \<in> set qs. \<not> disabled (entry s1 q) \<longrightarrow> fs_redundant (entry s' q) = (\<not> favored (entry s1 q))"
      using Cons.IH [OF m(2)] Cons.prems by (auto simp: L)
    have "q \<notin> set qs" using Cons.prems(3) by simp
    then have "entry s' q = entry s1 q" "\<forall>r \<in> set qs. entry s1 r = entry s r" using r(7) m(6) by auto
    then show ?thesis using m r False same_queue_trans [OF m(3) r(3)] by auto
  qed
qed

section \<open>The properties of culling\<close>

lemma bit_255: "bit (255 :: u8) (i mod 8)"
proof -
  have "bit (mask 8 :: u8) (i mod 8)" by (simp only: bit_mask_iff) simp
  then show ?thesis by (simp add: mask_eq_exp_minus_1)
qed

lemma marks_ok_cong:
  assumes "same_queue s s'" and "map fs_redundant (queue_buf s') = map fs_redundant (queue_buf s)"
    and "redundant_files s' = redundant_files s" and "marks_ok s"
  shows "marks_ok s'"
proof -
  have names: "map (\<lambda>e. base_name (fname e)) (queue_buf s') = map (\<lambda>e. base_name (fname e)) (queue_buf s)"
    using same_queue_fields(3) [OF assms(1)] same_queue_length [OF assms(1)] by (intro nth_equalityI) simp_all
  have "zip (map (\<lambda>e. base_name (fname e)) (queue_buf s')) (map fs_redundant (queue_buf s')) =
      zip (map (\<lambda>e. base_name (fname e)) (queue_buf s)) (map fs_redundant (queue_buf s))"
    using names assms(2) by simp
  then have "fst ` {p \<in> set (map (\<lambda>e. (base_name (fname e), fs_redundant e)) (queue_buf s')). snd p} =
      fst ` {p \<in> set (map (\<lambda>e. (base_name (fname e), fs_redundant e)) (queue_buf s)). snd p}"
    by (simp only: zip_map_map zip_same_conv_map map_map o_def prod.case)
  moreover have "fst ` {p \<in> set (map (\<lambda>e. (base_name (fname e), fs_redundant e)) es). snd p} =
      (\<lambda>e. base_name (fname e)) ` {e \<in> set es. fs_redundant e}" for es by force
  ultimately have "(\<lambda>e. base_name (fname e)) ` {e \<in> set (queue_buf s'). fs_redundant e} =
      (\<lambda>e. base_name (fname e)) ` {e \<in> set (queue_buf s). fs_redundant e}" by metis
  then show ?thesis using assms(3,4) names by (simp add: marks_ok_def)
qed

lemma filter_length_cong:
  "length es = length es' \<Longrightarrow> (\<And>q. q < length es \<Longrightarrow> p (es ! q) = p (es' ! q)) \<Longrightarrow>
     length (filter p es) = length (filter p es')"
  by (simp add: length_filter_conv_card) (metis (mono_tags, lifting) Collect_cong)

lemma counts_ok_cong:
  assumes "same_queue s s'" and "map favored (queue_buf s') = map favored (queue_buf s)"
    and "queued_favored s' = queued_favored s" and "pending_favored s' = pending_favored s" and "counts_ok s"
  shows "counts_ok s'"
proof -
  have L: "length (queue_buf s') = length (queue_buf s)" by (rule same_queue_length [OF assms(1)])
  have fav: "favored (entry s' q) = favored (entry s q)" if "q < length (queue_buf s)" for q
    using that assms(2) L by (metis nth_map)
  have rest: "fuzz_level (entry s' q) = fuzz_level (entry s q) \<and> was_fuzzed (entry s' q) = was_fuzzed (entry s q)"
    if "q < length (queue_buf s)" for q
    using unmarked_eq_fields [OF same_queue_entry [OF assms(1) that]] by blast
  have "favored_count s' = favored_count s" "pending_count s' = pending_count s"
    unfolding favored_count_def pending_count_def using L fav rest by (auto intro!: filter_length_cong)
  then show ?thesis using assms(3-5) by (simp add: counts_ok_def)
qed

lemma covered_by_favored_cong:
  assumes "same_queue s s'" and "map favored (queue_buf s') = map favored (queue_buf s)" and "covered_by_favored s i"
  shows "covered_by_favored s' i"
proof -
  have L: "length (queue_buf s') = length (queue_buf s)" by (rule same_queue_length [OF assms(1)])
  obtain q m where q: "q < length (queue_buf s)" "favored (entry s q)" "trace_mini (entry s q) = Some m" "bit_at m i"
    using assms(3) by (auto simp: covered_by_favored_def)
  then have "favored (entry s' q)" using assms(2) L by (metis nth_map)
  then show ?thesis using q L same_queue_fields(2) [OF assms(1) q(1)] by (auto simp: covered_by_favored_def)
qed

lemma cull_queue_ok:
  assumes "refs_ok s" and "marks_ok s" and "score_changed s" and "\<not> non_instrumented_mode s"
  shows "\<exists>s'. cull_queue s = Inr s' \<and> refs_ok s' \<and> marks_ok s' \<and> counts_ok s' \<and> top_rated s' = top_rated s \<and>
    length (queue_buf s') = length (queue_buf s) \<and>
    (\<forall>i < map_size s. \<forall>t. top_rated s ! i = Some t \<longrightarrow> favored (entry s' t) \<or> covered_by_favored s' i) \<and>
    (\<forall>q < length (queue_buf s). favored (entry s' q) \<longrightarrow> Some q \<in> set (top_rated s)) \<and>
    (\<forall>q < length (queue_buf s). \<not> disabled (entry s q) \<longrightarrow> fs_redundant (entry s' q) = (\<not> favored (entry s' q)))"
proof -
  define s1 where "s1 = s\<lparr>score_changed := False, queued_favored := 0, pending_favored := 0,
    queue_buf := map (\<lambda>e. e\<lparr>favored := False\<rparr>) (queue_buf s)\<rparr>"
  define v where "v = replicate (map_size s div 8) (255 :: u8)"
  have same: "same_queue s s1" by (simp add: same_queue_def s1_def unmarked_def)
  have L1: "length (queue_buf s1) = length (queue_buf s)" by (simp add: s1_def)
  have nofav: "\<not> favored (entry s1 q)" if "q < length (queue_buf s)" for q using that by (simp add: s1_def)
  have marks1: "marks_ok s1"
  proof -
    have "(\<lambda>e. base_name (fname e)) ` {e \<in> set (queue_buf s1). fs_redundant e} =
        (\<lambda>e. base_name (fname e)) ` {e \<in> set (queue_buf s). fs_redundant e}"
      by (force simp: s1_def image_iff)
    then show ?thesis using assms(2) by (simp add: marks_ok_def s1_def comp_def)
  qed
  have ones: "bit_at v i" if "i < map_size s" for i
  proof -
    have "i div 8 < map_size s div 8"
      using that assms(1) by (metis dvd_mult_div_cancel less_mult_imp_div_less mult.commute refs_ok_def)
    then show ?thesis by (simp only: v_def nth_replicate bit_255)
  qed
  have counts1: "counts_ok s1"
    by (simp add: counts_ok_def favored_count_def pending_count_def s1_def filter_map o_def)
  have eq1: "map_size s1 = map_size s" "top_rated s1 = top_rated s" by (simp_all add: s1_def)
  have "\<exists>v' s'. cull_loop [0..<map_size s] v s1 = Inr (v', s') \<and> same_queue s1 s' \<and> counts_ok s' \<and>
    redundant_files s' = redundant_files s1 \<and> map fs_redundant (queue_buf s') = map fs_redundant (queue_buf s1) \<and>
    (\<forall>q < length (queue_buf s1). favored (entry s' q) \<longrightarrow> Some q \<in> set (top_rated s1)) \<and>
    (\<forall>q. favored (entry s1 q) \<longrightarrow> favored (entry s' q)) \<and>
    (\<forall>i \<in> set [0..<map_size s]. \<forall>t. top_rated s1 ! i = Some t \<longrightarrow> favored (entry s' t) \<or> covered_by_favored s' i)"
    using same_queue_refs [OF same assms(1)] ones counts1 nofav
    by (intro cull_loop_spec) (auto simp: v_def eq1 L1)
  then obtain v' s2 where c: "cull_loop [0..<map_size s] v s1 = Inr (v', s2)" "same_queue s1 s2" "counts_ok s2"
    "redundant_files s2 = redundant_files s1" "map fs_redundant (queue_buf s2) = map fs_redundant (queue_buf s1)"
    "\<forall>q < length (queue_buf s). favored (entry s2 q) \<longrightarrow> Some q \<in> set (top_rated s)"
    "\<forall>i < map_size s. \<forall>t. top_rated s ! i = Some t \<longrightarrow> favored (entry s2 t) \<or> covered_by_favored s2 i"
    by (auto simp: eq1 L1)
  have same2: "same_queue s s2" by (rule same_queue_trans [OF same c(2)])
  have L2: "length (queue_buf s2) = length (queue_buf s)" by (rule same_queue_length [OF same2])
  have marks2: "marks_ok s2" by (rule marks_ok_cong [OF c(2) c(5) c(4) marks1])
  obtain s3 where r: "redundant_loop [0..<length (queue_buf s2)] s2 = Inr s3" "marks_ok s3" "same_queue s2 s3"
    "map favored (queue_buf s3) = map favored (queue_buf s2)"
    "queued_favored s3 = queued_favored s2" "pending_favored s3 = pending_favored s2"
    "\<forall>q \<in> set [0..<length (queue_buf s2)]. \<not> disabled (entry s2 q) \<longrightarrow> fs_redundant (entry s3 q) = (\<not> favored (entry s2 q))"
    using redundant_loop_ok [OF marks2, of "[0..<length (queue_buf s2)]"] by auto
  have same3: "same_queue s s3" by (rule same_queue_trans [OF same2 r(3)])
  have L3: "length (queue_buf s3) = length (queue_buf s)" by (rule same_queue_length [OF same3])
  have fav3: "favored (entry s3 q) = favored (entry s2 q)" if "q < length (queue_buf s)" for q
    using that r(4) L2 L3 by (metis nth_map)
  have res: "cull_queue s = Inr s3"
    using assms(3,4) c(1) r(1) by (simp add: cull_queue_def Let_def s1_def [symmetric] v_def [symmetric] eq1)
  have cov: "covered_by_favored s3 i" if "covered_by_favored s2 i" for i
    by (rule covered_by_favored_cong [OF r(3,4) that])
  have counts3: "counts_ok s3" by (rule counts_ok_cong [OF r(3-6) c(3)])
  have rated: "t < length (queue_buf s)" if "top_rated s ! i = Some t" "i < map_size s" for i t
    using that assms(1) by (metis nth_mem refs_ok_def)
  show ?thesis
  proof (intro exI conjI)
    show "cull_queue s = Inr s3" "marks_ok s3" "counts_ok s3" by (fact res r(2) counts3)+
    show "refs_ok s3" by (rule same_queue_refs [OF same3 assms(1)])
    show "top_rated s3 = top_rated s" using same3 by (simp add: same_queue_def)
    show "length (queue_buf s3) = length (queue_buf s)" by (rule L3)
    show "\<forall>i < map_size s. \<forall>t. top_rated s ! i = Some t \<longrightarrow> favored (entry s3 t) \<or> covered_by_favored s3 i"
      using c(7) fav3 cov rated by blast
    show "\<forall>q < length (queue_buf s). favored (entry s3 q) \<longrightarrow> Some q \<in> set (top_rated s)"
      using c(6) fav3 by blast
    show "\<forall>q < length (queue_buf s). \<not> disabled (entry s q) \<longrightarrow> fs_redundant (entry s3 q) = (\<not> favored (entry s3 q))"
      using r(7) fav3 L2 same_queue_fields(4) [OF same2] by simp
  qed
qed

section \<open>All operations together\<close>

definition used_names :: "queue_state \<Rightarrow> string set" where
  "used_names s = (\<lambda>e. base_name (fname e)) ` set (queue_buf s)"

text \<open>The steps of a fuzzing session on the queue: a new entry under a name not used before, a run
  that leaves a trace, a race for the slots, a culling, new measurements for an entry.\<close>

inductive queue_step :: "queue_state \<Rightarrow> queue_state \<Rightarrow> bool" where
  add: "base_name fn \<notin> used_names s \<Longrightarrow> queue_step s (add_to_queue fn n det now content s)"
| run: "length tr = map_size s \<Longrightarrow> queue_step s (s\<lparr>trace_bits := tr\<rparr>)"
| score: "q < length (queue_buf s) \<Longrightarrow> queue_step s (update_bitmap_score q s)"
| cull: "cull_queue s = Inr s' \<Longrightarrow> queue_step s s'"
| measure: "q < length (queue_buf s) \<Longrightarrow> queue_step s (upd_entry q (\<lambda>e. e\<lparr>len := l, exec_us := us,
    fuzz_level := fl, was_fuzzed := wfz, disabled := dis, n_fuzz_entry := nf\<rparr>) s)"
| det_done: "q < length (queue_buf s) \<Longrightarrow> mark_as_det_done q s = Inr s' \<Longrightarrow> queue_step s s'"

inductive_cases queue_stepE: "queue_step s s'"

text \<open>What marks and references depend on in the state.\<close>

lemma marks_ok_keep:
  "map (\<lambda>e. (base_name (fname e), fs_redundant e)) (queue_buf s') = map (\<lambda>e. (base_name (fname e), fs_redundant e)) (queue_buf s)
    \<Longrightarrow> redundant_files s' = redundant_files s \<Longrightarrow> marks_ok s \<Longrightarrow> marks_ok s'"
proof -
  let ?f = "\<lambda>e. (base_name (fname e), fs_redundant e)"
  assume m: "map ?f (queue_buf s') = map ?f (queue_buf s)" and f: "redundant_files s' = redundant_files s" and ok: "marks_ok s"
  have names: "map (\<lambda>e. base_name (fname e)) es = map fst (map ?f es)" for es by simp
  have img: "(\<lambda>e. base_name (fname e)) ` {e \<in> set es. fs_redundant e} = fst ` {p \<in> set (map ?f es). snd p}" for es by force
  show ?thesis using ok unfolding marks_ok_def names img m f .
qed

lemma upd_keep:
  assumes "\<And>e. g (f e) = g e"
  shows "map g (queue_buf (upd_entry q f s)) = map g (queue_buf s)"
proof (cases "q < length (queue_buf s)")
  case True
  then show ?thesis using assms by (simp add: upd_entry_def map_update list_update_same_conv)
next
  case False
  then show ?thesis by (simp add: upd_entry_def list_update_beyond)
qed

lemma refs_ok_keep:
  fixes s s' :: queue_state
  shows "map (\<lambda>e. (tc_ref e, trace_mini e)) (queue_buf s') = map (\<lambda>e. (tc_ref e, trace_mini e)) (queue_buf s) \<Longrightarrow>
    top_rated s' = top_rated s \<Longrightarrow> map_size s' = map_size s \<Longrightarrow> length (trace_bits s') = map_size s \<Longrightarrow>
    refs_ok s \<Longrightarrow> refs_ok s'"
proof -
  let ?f = "\<lambda>e. (tc_ref e, trace_mini e)"
  assume m: "map ?f (queue_buf s') = map ?f (queue_buf s)" and
    rest: "top_rated s' = top_rated s" "map_size s' = map_size s" "length (trace_bits s') = map_size s" "refs_ok s"
  have L: "length (queue_buf s') = length (queue_buf s)" by (rule map_eq_imp_length_eq [OF m])
  have f: "?f (entry s' q) = ?f (entry s q)" if "q < length (queue_buf s)" for q
  proof -
    have "map ?f (queue_buf s') ! q = map ?f (queue_buf s) ! q" by (simp only: m)
    then show ?thesis using that L by simp
  qed
  have "entry_ok (map_size s) (top_rated s) q (entry s' q)" if "q < length (queue_buf s)" for q
  proof -
    have "entry_ok (map_size s) (top_rated s) q (entry s q)" using rest(4) that unfolding refs_ok_def by blast
    then show ?thesis using f [OF that] by (simp add: entry_ok_def)
  qed
  then show ?thesis using rest(4) unfolding refs_ok_def rest(1-3) L by blast
qed

lemma upd_entry_queue_ok:
  assumes "refs_ok s \<and> marks_ok s" and "\<And>e. (tc_ref (f e), trace_mini (f e)) = (tc_ref e, trace_mini e)"
    and "\<And>e. (base_name (fname (f e)), fs_redundant (f e)) = (base_name (fname e), fs_redundant e)"
  shows "refs_ok (upd_entry q f s) \<and> marks_ok (upd_entry q f s)"
proof
  show "refs_ok (upd_entry q f s)"
  proof (rule refs_ok_keep [of _ s])
    show "map (\<lambda>e. (tc_ref e, trace_mini e)) (queue_buf (upd_entry q f s)) =
        map (\<lambda>e. (tc_ref e, trace_mini e)) (queue_buf s)"
      by (rule upd_keep) (rule assms(2))
  qed (use assms(1) in \<open>simp_all add: refs_ok_def\<close>)
  show "marks_ok (upd_entry q f s)"
  proof (rule marks_ok_keep [of _ s])
    show "map (\<lambda>e. (base_name (fname e), fs_redundant e)) (queue_buf (upd_entry q f s)) =
        map (\<lambda>e. (base_name (fname e), fs_redundant e)) (queue_buf s)"
      by (rule upd_keep) (rule assms(3))
  qed (use assms(1) in simp_all)
qed

lemma add_to_queue_ok:
  assumes "refs_ok s" and "marks_ok s" and "base_name fn \<notin> used_names s"
  shows "refs_ok (add_to_queue fn n det now content s) \<and> marks_ok (add_to_queue fn n det now content s)"
proof -
  define e0 where "e0 = \<lparr>fname = fn, len = n, passed_det = det, was_fuzzed = False, var_behavior = False,
              favored = False, fs_redundant = False, is_ascii = False, disabled = False, fuzz_level = 0,
              n_fuzz_entry = 0, exec_us = 0, depth = cur_depth s + 1, trace_mini = None, tc_ref = 0,
              mother = queue_cur s\<rparr>"
  let ?s' = "add_to_queue fn n det now content s"
  have "\<exists>a. queue_buf ?s' = queue_buf s @ [e0\<lparr>is_ascii := a\<rparr>]"
    by (auto simp: add_to_queue_def Let_def e0_def upd_entry_def list_update_append)
  then obtain a where buf: "queue_buf ?s' = queue_buf s @ [e0\<lparr>is_ascii := a\<rparr>]" by blast
  have same: "top_rated ?s' = top_rated s" "map_size ?s' = map_size s" "trace_bits ?s' = trace_bits s"
    "redundant_files ?s' = redundant_files s"
    by (simp_all add: add_to_queue_def Let_def)
  have "Some (length (queue_buf s)) \<notin> set (top_rated s)" using assms(1) by (auto simp: refs_ok_def)
  then have "slots_of (top_rated s) (length (queue_buf s)) = 0" using slots_of_pos by (metis not_gr_zero)
  then have "entry_ok (map_size s) (top_rated s) (length (queue_buf s)) (e0\<lparr>is_ascii := a\<rparr>)"
    by (simp add: entry_ok_def e0_def)
  then have "refs_ok ?s'" using assms(1) by (auto simp: refs_ok_def same buf nth_append less_Suc_eq)
  moreover have "marks_ok ?s'"
  proof -
    have "{e \<in> set (queue_buf ?s'). fs_redundant e} = {e \<in> set (queue_buf s). fs_redundant e}"
      by (auto simp: buf e0_def)
    then show ?thesis using assms(2,3) by (auto simp: marks_ok_def same buf used_names_def e0_def)
  qed
  ultimately show ?thesis ..
qed

lemma update_bitmap_score_marks:
  assumes "refs_ok s" and "q < length (queue_buf s)" and "marks_ok s"
  shows "marks_ok (update_bitmap_score q s)"
proof -
  let ?g = "\<lambda>e. (base_name (fname e), fs_redundant e)"
  have d: "map ?g (queue_buf (drop_ref t s)) = map ?g (queue_buf s) \<and> redundant_files (drop_ref t s) = redundant_files s" for t s
    by (simp add: drop_ref_def Let_def upd_keep)
  have t: "map ?g (queue_buf (take_slot q i s)) = map ?g (queue_buf s) \<and> redundant_files (take_slot q i s) = redundant_files s" for i s
    by (simp add: take_slot_def Let_def upd_keep)
  have b: "map ?g (queue_buf (score_byte q fav p2 i s)) = map ?g (queue_buf s) \<and>
      redundant_files (score_byte q fav p2 i s) = redundant_files s" for fav p2 i s
    using d t by (auto simp: score_byte_def split: option.splits)
  have "map ?g (queue_buf (fold (score_byte q fav p2) is s)) = map ?g (queue_buf s) \<and>
      redundant_files (fold (score_byte q fav p2) is s) = redundant_files s" for fav p2 "is" s
    by (induction "is" arbitrary: s) (use b in simp_all)
  then show ?thesis using marks_ok_keep assms(3) unfolding update_bitmap_score_def by blast
qed

definition queue_ok :: "queue_state \<Rightarrow> bool" where
  "queue_ok s \<longleftrightarrow> refs_ok s \<and> marks_ok s"

lemma cull_queue_keeps:
  assumes "queue_ok s" shows "\<exists>s'. cull_queue s = Inr s' \<and> queue_ok s'"
proof (cases "\<not> score_changed s \<or> non_instrumented_mode s")
  case True
  then show ?thesis using assms by (simp add: cull_queue_def)
next
  case False
  then show ?thesis using cull_queue_ok [of s] assms by (auto simp: queue_ok_def)
qed

lemma queue_step_ok: "queue_step s s' \<Longrightarrow> queue_ok s \<Longrightarrow> queue_ok s'"
proof (induction rule: queue_step.induct)
  case (add fn s n det now content)
  then show ?case using add_to_queue_ok [of s fn] by (simp add: queue_ok_def)
next
  case (run tr s)
  then show ?case by (auto simp: queue_ok_def intro: refs_ok_keep marks_ok_keep)
next
  case (score q s)
  then show ?case using update_bitmap_score_refs_ok update_bitmap_score_marks by (simp add: queue_ok_def)
next
  case (cull s s')
  then show ?case using cull_queue_keeps by fastforce
next
  case measure
  then show ?case unfolding queue_ok_def by (intro upd_entry_queue_ok) simp_all
next
  case (det_done q s s')
  define fs where "fs = insert (base_name (fname (entry s q))) (det_done_files s)"
  have s': "s' = upd_entry q (\<lambda>e. e\<lparr>passed_det := True\<rparr>) (s\<lparr>det_done_files := fs\<rparr>)"
    using det_done(2) by (auto simp: mark_as_det_done_def Let_def fs_def split: if_splits)
  have "refs_ok (s\<lparr>det_done_files := fs\<rparr>) \<and> marks_ok (s\<lparr>det_done_files := fs\<rparr>)"
    using det_done(3) by (simp add: queue_ok_def refs_ok_def marks_ok_def)
  then show ?case unfolding queue_ok_def s' by (rule upd_entry_queue_ok) simp_all
qed

text \<open>An empty queue over a map of \<open>n\<close> bytes.\<close>

definition empty_queue :: "nat \<Rightarrow> queue_state" where
  "empty_queue n = \<lparr>map_size = n, trace_bits = replicate n 0, virgin_bits = replicate n 255,
     virgin_tmout = replicate n 255, virgin_crash = replicate n 255, bitmap_changed = False,
     queue_buf = [], queue_head = None, queue_top = None, queue_cur = None, top_rated = replicate n None,
     score_changed = False, non_instrumented_mode = False, power_schedule = EXPLORE, fixed_seed_mode = False,
     n_fuzz = [], queued_favored = 0, pending_favored = 0, cur_depth = 0, max_depth = 0,
     ready_for_splicing_count = 0, active_paths = 0, pending_not_fuzzed = 0, cycles_wo_finds = 0,
     last_path_time = 0, cmplog_mode = False, det_done_files = {}, variable_files = {}, redundant_files = {}\<rparr>"

lemma empty_queue_ok: "8 dvd n \<Longrightarrow> n < 2 ^ 32 \<Longrightarrow> queue_ok (empty_queue n)"
  by (auto simp: queue_ok_def refs_ok_def marks_ok_def empty_queue_def)

lemma reachable_queue_ok: "rtranclp queue_step s s' \<Longrightarrow> queue_ok s \<Longrightarrow> queue_ok s'"
  by (induction rule: rtranclp_induct) (auto intro: queue_step_ok)

section \<open>The text check\<close>

lemma text_loop_bounds:
  "text_loop d u a c = (u', a', c') \<Longrightarrow> int u + int (length d) \<le> c \<Longrightarrow>
     int u' \<le> c' \<and> a' \<le> a + length d \<and> (d \<noteq> [] \<longrightarrow> 0 < c')"
proof (induction d u a c rule: text_loop.induct)
  case (2 b r u a c)
  show ?case
  proof (cases "ascii_text b")
    case True
    then have IH: "int u' \<le> c' \<and> a' \<le> a + 1 + length r \<and> (r \<noteq> [] \<longrightarrow> 0 < c')" using 2(1) 2(6,7) by simp
    then show ?thesis using True 2(6,7) by (cases r) auto
  next
    case False
    define a1 where "a1 = (if b < 0x80 then a + 1 else a)"
    have a1: "a1 \<le> a + 1" by (simp add: a1_def)
    have step: ?thesis
      if res: "text_loop (drop k r) (u + x) a1 (c - int k) = (u', a', c')" and k: "k \<le> length r"
        and IH: "int (u + x) + int (length (drop k r)) \<le> c - int k \<Longrightarrow>
          int u' \<le> c' \<and> a' \<le> a1 + length (drop k r) \<and> (drop k r \<noteq> [] \<longrightarrow> 0 < c')"
        and x: "x \<le> 1"
      for k x
    proof -
      have "int (u + x) + int (length (drop k r)) \<le> c - int k" using 2(7) k x by simp
      note i = IH [OF this]
      moreover have "0 < c'" if "drop k r = []" using res that 2(7) k by auto
      ultimately show ?thesis using a1 k by auto
    qed
    consider (two) "utf8_2 (b # r)" | (three) "\<not> utf8_2 (b # r)" "utf8_3 (b # r)"
      | (four) "\<not> utf8_2 (b # r)" "\<not> utf8_3 (b # r)" "utf8_4 (b # r)"
      | (other) "\<not> utf8_2 (b # r)" "\<not> utf8_3 (b # r)" "\<not> utf8_4 (b # r)" by blast
    then show ?thesis
    proof cases
      case two
      then show ?thesis using 2(2) [OF False a1_def two] 2(6) False a1_def
        by (intro step [of 1 1]) (auto simp: utf8_2_def Let_def Suc_le_eq)
    next
      case three
      then show ?thesis using 2(3) [OF False a1_def three] 2(6) False a1_def
        by (intro step [of 2 1]) (auto simp: utf8_3_def Let_def Suc_le_eq)
    next
      case four
      then show ?thesis using 2(4) [OF False a1_def four] 2(6) False a1_def
        by (intro step [of 3 1]) (auto simp: utf8_4_def Let_def Suc_le_eq)
    next
      case other
      then show ?thesis using 2(5) [OF False a1_def other] 2(6) False a1_def
        by (intro step [of 0 0]) (auto simp: Let_def)
    qed
  qed
qed simp

text \<open>A character of text in UTF-8.\<close>

definition utf8_char :: "u8 list \<Rightarrow> bool" where
  "utf8_char c \<longleftrightarrow> (\<exists>b. c = [b] \<and> ascii_text b) \<or> length c = 2 \<and> utf8_2 c \<or> length c = 3 \<and> utf8_3 c \<or> length c = 4 \<and> utf8_4 c"

lemma utf8_append:
  "length c = 2 \<Longrightarrow> utf8_2 (c @ r) = utf8_2 c" "length c = 3 \<Longrightarrow> utf8_3 (c @ r) = utf8_3 c"
  "length c = 4 \<Longrightarrow> utf8_4 (c @ r) = utf8_4 c"
  by (simp_all add: utf8_2_def utf8_3_def utf8_4_def nth_append)

lemma utf8_first:
  "utf8_2 c \<Longrightarrow> 0xC2 \<le> c ! 0 \<and> c ! 0 \<le> 0xDF" "utf8_3 c \<Longrightarrow> 0xE0 \<le> c ! 0 \<and> c ! 0 \<le> 0xEF"
  "utf8_4 c \<Longrightarrow> 0xF0 \<le> c ! 0" "ascii_text b \<Longrightarrow> b \<le> 0x7E"
  by (auto simp: utf8_2_def utf8_3_def utf8_4_def ascii_text_def between_def word_le_nat_alt)

lemma utf8_disjoint:
  "utf8_3 c \<Longrightarrow> \<not> utf8_2 c" "utf8_4 c \<Longrightarrow> \<not> utf8_2 c" "utf8_4 c \<Longrightarrow> \<not> utf8_3 c"
  "utf8_2 (b # r) \<Longrightarrow> \<not> ascii_text b" "utf8_3 (b # r) \<Longrightarrow> \<not> ascii_text b" "utf8_4 (b # r) \<Longrightarrow> \<not> ascii_text b"
  using utf8_first(1-3) [of c] utf8_first(1-3) [of "b # r"] utf8_first(4) [of b] by (auto simp: word_le_nat_alt)

lemma text_loop_char:
  assumes "utf8_char c"
  shows "\<exists>a'. text_loop (c @ r) u a cmp = text_loop r (u + 1) a' (cmp - (int (length c) - 1)) \<and> a' \<le> a + 1"
  using assms unfolding utf8_char_def
proof (elim disjE exE conjE)
  fix b assume "c = [b]" "ascii_text b"
  then show ?thesis by auto
next
  assume c: "length c = 2" "utf8_2 c"
  then obtain b c' where bc: "c = b # c'" "length c' = 1" by (cases c) auto
  have "utf8_2 (b # c' @ r)" using utf8_append(1) [OF c(1), of r] c(2) bc by simp
  then show ?thesis using utf8_disjoint(4) bc by (auto simp: Let_def)
next
  assume c: "length c = 3" "utf8_3 c"
  then obtain b c' where bc: "c = b # c'" "length c' = 2" by (cases c) auto
  have "utf8_3 (b # c' @ r)" using utf8_append(2) [OF c(1), of r] c(2) bc by simp
  then show ?thesis using utf8_disjoint(1,5) bc by (auto simp: Let_def)
next
  assume c: "length c = 4" "utf8_4 c"
  then obtain b c' where bc: "c = b # c'" "length c' = 3" by (cases c) auto
  have "utf8_4 (b # c' @ r)" using utf8_append(3) [OF c(1), of r] c(2) bc by simp
  then show ?thesis using utf8_disjoint(2,3,6) bc by (auto simp: Let_def)
qed

lemma text_loop_utf8:
  "\<forall>c \<in> set cs. utf8_char c \<Longrightarrow>
    \<exists>a'. text_loop (concat cs) u a cmp = (u + length cs, a', cmp - (int (length (concat cs)) - int (length cs))) \<and>
      a' \<le> a + length cs"
proof (induction cs arbitrary: u a cmp)
  case (Cons c cs)
  obtain a1 where a1: "text_loop (c @ concat cs) u a cmp = text_loop (concat cs) (u + 1) a1 (cmp - (int (length c) - 1))"
    "a1 \<le> a + 1"
    using text_loop_char Cons.prems by fastforce
  obtain a' where a': "text_loop (concat cs) (u + 1) a1 (cmp - (int (length c) - 1)) =
      (u + 1 + length cs, a', cmp - (int (length c) - 1) - (int (length (concat cs)) - int (length cs)))"
    "a' \<le> a1 + length cs"
    using Cons.IH Cons.prems by fastforce
  show ?case using a1 a' by (auto simp: algebra_simps)
qed simp

lemma length_utf8_char: "utf8_char c \<Longrightarrow> 1 \<le> length c"
  by (auto simp: utf8_char_def)

lemma length_concat_utf8: "\<forall>c \<in> set cs. utf8_char c \<Longrightarrow> length cs \<le> length (concat cs)"
proof (induction cs)
  case (Cons c cs)
  then show ?case using length_utf8_char [of c] by simp
qed simp

section \<open>Properties\<close>

text \<open>
  C22: every byte of the map that the current trace hits is held, after \<^verbatim>\<open>update_bitmap_score\<close>,
  by the new entry if the byte was free or the entry beats the holder, and by the old holder
  otherwise; the other bytes are untouched. The reference counts still count the slots, and exactly
  the entries with a slot keep their trace: none is freed while in use, none is kept for nothing.
\<close>

theorem update_bitmap_score_slots:
  assumes "refs_ok s" and "q < length (queue_buf s)"
  shows "refs_ok (update_bitmap_score q s) \<and> (\<forall>i < map_size s. top_rated (update_bitmap_score q s) ! i =
    (if trace_bits s ! i \<noteq> 0 \<and> (\<forall>t. top_rated s ! i = Some t \<longrightarrow> wins_over (fav_factor s q) (fuzz_p2_of s q) t s)
     then Some q else top_rated s ! i))"
proof -
  have "let s' = update_bitmap_score q s in refs_ok s' \<and> same_scores s s' \<and>
      (\<forall>i < map_size s. top_rated s' ! i =
        (if i < map_size s \<and> trace_bits s ! i \<noteq> 0 \<and>
            (\<forall>t. top_rated s ! i = Some t \<longrightarrow> wins_over (fav_factor s q) (fuzz_p2_of s q) t s)
         then Some q else top_rated s ! i))"
    unfolding update_bitmap_score_def by (rule score_fold_top [OF assms order_refl])
  then show ?thesis by (simp add: Let_def)
qed

text \<open>
  C20: \<^verbatim>\<open>cull_queue\<close> never reads a freed trace and never fails on a marker file. Afterwards,
  for every rated byte, its holder or another entry whose kept trace has the byte is favored; only
  holders are favored; the two counters are right; and the flag for redundant entries says which
  enabled entries are not favored.
\<close>

theorem cull_queue_favors:
  assumes "queue_ok s" and "score_changed s" and "\<not> non_instrumented_mode s"
  shows "\<exists>s'. cull_queue s = Inr s' \<and> counts_ok s' \<and>
    (\<forall>i < map_size s. \<forall>t. top_rated s ! i = Some t \<longrightarrow> favored (entry s' t) \<or> covered_by_favored s' i) \<and>
    (\<forall>q < length (queue_buf s). favored (entry s' q) \<longrightarrow> Some q \<in> set (top_rated s)) \<and>
    (\<forall>q < length (queue_buf s). \<not> disabled (entry s q) \<longrightarrow> fs_redundant (entry s' q) = (\<not> favored (entry s' q)))"
  using cull_queue_ok [of s] assms unfolding queue_ok_def by blast


text \<open>
  The text check divides by a positive number and its percentages lie between 0 and 100,
  whatever the file holds.
\<close>

theorem check_if_text_percentages:
  assumes "text_loop d 0 0 (int (length d)) = (utf8, ascii, cmp)" and "d \<noteq> []"
  shows "0 < cmp \<and> (int utf8 * 100) div cmp \<in> {0..100} \<and> (int ascii * 100) div int (length d) \<in> {0..100}"
proof -
  have b: "int utf8 \<le> cmp" "ascii \<le> length d" "0 < cmp"
    using text_loop_bounds [OF assms(1)] assms(2) by auto
  have p: "(int x * 100) div y \<in> {0..100}" if "int x \<le> y" "0 < y" for x y
    using that zdiv_mono1 [of "int x * 100" "y * 100" y] by (simp add: pos_imp_zdiv_nonneg_iff)
  show ?thesis using p [OF b(1,3)] p [of ascii "int (length d)"] b assms(2) by simp
qed

text \<open>
  A file of 12 bytes to less than a megabyte that is text in well-formed UTF-8 is recognised
  as such.
\<close>

theorem check_if_text_utf8:
  assumes "\<forall>c \<in> set cs. utf8_char c" and "AFL_TXT_MIN_LEN \<le> length (concat cs)" and "length (concat cs) < MAX_FILE"
  shows "check_if_text (length (concat cs)) (Some (concat cs)) = 2"
proof -
  define n where "n = length (concat cs)"
  obtain a where loop: "text_loop (concat cs) 0 0 (int n) = (length cs, a, int (length cs))" "a \<le> length cs"
    using text_loop_utf8 [OF assms(1), of 0 0 "int n"] by (auto simp: n_def)
  have "cs \<noteq> []" using assms(2) by (auto simp: AFL_TXT_MIN_LEN_def)
  then have k: "length cs \<le> n" "0 < length cs" "0 < n"
    using length_concat_utf8 [OF assms(1)] assms(2) unfolding n_def AFL_TXT_MIN_LEN_def length_greater_0_conv [symmetric]
    by linarith+
  have full: "(int (length cs) * 100) div int (length cs) = 100" using k by simp
  have "(int a * 100) div int n \<le> 100"
    using k loop(2) zdiv_mono1 [of "int a * 100" "int n * 100" "int n"] by simp
  then show ?thesis using assms(2,3) k loop(1)
    by (simp add: check_if_text_def n_def [symmetric] full AFL_TXT_MIN_PERCENT_def)
qed

section \<open>Witnesses\<close>

definition one_entry :: queue_state where
  "one_entry = (add_to_queue ''q/a'' 3 False 0 None (empty_queue 8))\<lparr>trace_bits := [1, 0, 0, 0, 0, 0, 0, 4]\<rparr>"

lemma one_entry_reachable: "rtranclp queue_step (empty_queue 8) one_entry"
proof -
  have "queue_step (empty_queue 8) (add_to_queue ''q/a'' 3 False 0 None (empty_queue 8))"
    by (rule queue_step.add) (simp add: used_names_def empty_queue_def)
  moreover have "queue_step (add_to_queue ''q/a'' 3 False 0 None (empty_queue 8)) one_entry"
    unfolding one_entry_def by (rule queue_step.run) (simp add: add_to_queue_def empty_queue_def Let_def)
  ultimately show ?thesis by (meson rtranclp.rtrancl_into_rtrancl rtranclp.rtrancl_refl)
qed

lemma one_entry_ok: "queue_ok one_entry" "length (queue_buf one_entry) = 1" "map_size one_entry = 8"
proof -
  show "queue_ok one_entry" by (rule reachable_queue_ok [OF one_entry_reachable]) (rule empty_queue_ok; simp)
qed (simp_all add: one_entry_def add_to_queue_def empty_queue_def Let_def)

theorem update_bitmap_score_slots_witness: "top_rated (update_bitmap_score 0 one_entry) ! 7 = Some 0"
  using update_bitmap_score_slots [of one_entry 0] one_entry_ok
  by (simp add: queue_ok_def one_entry_def add_to_queue_def empty_queue_def Let_def)

lemma scored_ok: "queue_ok (update_bitmap_score 0 one_entry)" "score_changed (update_bitmap_score 0 one_entry)"
  "\<not> non_instrumented_mode (update_bitmap_score 0 one_entry)"
proof -
  show "queue_ok (update_bitmap_score 0 one_entry)"
    by (rule queue_step_ok [OF queue_step.score]) (simp_all add: one_entry_ok)
  show "score_changed (update_bitmap_score 0 one_entry)" by code_simp
  show "\<not> non_instrumented_mode (update_bitmap_score 0 one_entry)" by code_simp
qed

theorem cull_queue_favors_witness: "\<exists>s'. cull_queue (update_bitmap_score 0 one_entry) = Inr s'"
  using cull_queue_favors [OF scored_ok] by blast


theorem check_if_text_percentages_witness:
  "\<exists>cmp. text_loop [0xC3, 0xA9, 65] 0 0 3 = (2, 1, cmp) \<and> 0 < cmp"
proof -
  have "text_loop [0xC3, 0xA9, 65] 0 0 (int (length [0xC3, 0xA9, 65 :: u8])) = (2, 1, 2)"
    by (simp add: ascii_text_def between_def utf8_2_def)
  from check_if_text_percentages [OF this] show ?thesis by (auto simp: ascii_text_def between_def utf8_2_def)
qed

theorem check_if_text_utf8_witness:
  "check_if_text 13 (Some ([0xC3, 0xA9] @ replicate 11 65)) = 2"
proof -
  have "\<forall>c \<in> set ([0xC3, 0xA9] # replicate 11 [65 :: u8]). utf8_char c"
    by (auto simp: utf8_char_def utf8_2_def between_def ascii_text_def)
  moreover have "concat ([0xC3, 0xA9] # replicate 11 [65 :: u8]) = [0xC3, 0xA9] @ replicate 11 65" by (simp add: numeral_eq_Suc)
  ultimately show ?thesis
    using check_if_text_utf8 [of "[0xC3, 0xA9] # replicate 11 [65]"] by (simp add: AFL_TXT_MIN_LEN_def MAX_FILE_def)
qed

end
