(* ===== verification/Testcase_Cache.thy ===== *)
theory Testcase_Cache
  imports Corpus Performance
begin

text \<open>
  The cache of test cases in memory, the end of \<^verbatim>\<open>src/afl-fuzz-queue.c\<close>:
  \<^verbatim>\<open>queue_testcase_get\<close> with its random eviction, \<^verbatim>\<open>queue_testcase_store_mem\<close> and the two
  \<^verbatim>\<open>retake\<close> functions. It works on the queue of \<open>Corpus\<close>, draws with the generator
  of \<open>Performance\<close> (the locale \<open>bounded_rng\<close>) and, with no cache configured, reads into the
  growing buffers of \<open>Alloc_Inl\<close>.
\<close>

section \<open>State\<close>

text \<open>The fields of \<^verbatim>\<open>afl_state_t\<close> without their prefix \<^verbatim>\<open>q_testcase_\<close>. \<open>slots\<close> is the array
  \<^verbatim>\<open>q_testcase_cache\<close> as allocated, \<open>tc_buf q\<close> the field \<^verbatim>\<open>testcase_buf\<close> of the entry \<open>q\<close>,
  \<open>disk\<close> the readable files, \<open>do_once\<close> the static variable of \<^verbatim>\<open>queue_testcase_get\<close>.\<close>

record 'r tcache =
  corpus :: queue_state
  prng :: 'r
  tc_buf :: "nat \<Rightarrow> u8 list option"
  disk :: "string \<Rightarrow> u8 list option"
  max_cache_size :: u64
  max_cache_entries :: u32
  cache_size :: u64
  max_cache_count :: u32
  cache_count :: u32
  smallest_free :: u32
  evictions :: u32
  slots :: "nat option list"
  do_once :: bool
  testcase_buf :: "afl_alloc_buf option"
  splicecase_buf :: "afl_alloc_buf option"

text \<open>\<open>Bad_Access\<close> is a read or write beyond an allocation: behaviour the code must not have.\<close>

datatype cache_stop = Cache_Stop fatal | Bad_Access

abbreviation qlen :: "'r tcache \<Rightarrow> nat \<Rightarrow> u32" where
  "qlen s q \<equiv> len (entry (corpus s) q)"

text \<open>\<^verbatim>\<open>open\<close> and \<^verbatim>\<open>ck_read\<close> of \<open>n\<close> bytes; lengths are below \<^verbatim>\<open>MAX_FILE\<close>, so that the
  conversion to \<^verbatim>\<open>s32\<close> keeps them. \<open>ok\<close> is whether the buffer in between was allocated.\<close>

definition read_case :: "bool \<Rightarrow> nat \<Rightarrow> 'r tcache \<Rightarrow> cache_stop + u8 list" where
  "read_case ok q s =
    (case disk s (fname (entry (corpus s) q)) of
       None \<Rightarrow> Inl (Cache_Stop (PFATAL ''Unable to open''))
     | Some d \<Rightarrow>
         if \<not> ok then Inl (Cache_Stop (PFATAL ''Unable to malloc''))
         else if length d < unat (qlen s q) then Inl (Cache_Stop (FATAL ''Short read''))
         else Inr (take (unat (qlen s q)) d))"

section \<open>After trimming\<close>

definition queue_testcase_retake :: "heap \<Rightarrow> nat \<Rightarrow> u32 \<Rightarrow> 'r tcache \<Rightarrow> cache_stop + 'r tcache" where
  "queue_testcase_retake heap q old_len s =
    (case tc_buf s q of
       None \<Rightarrow> Inr s
     | Some b \<Rightarrow>
         let n = qlen s q;
             s = (if n \<noteq> old_len then s\<lparr>cache_size := cache_size s + ucast n - ucast old_len\<rparr> else s);
             b' = (if n \<noteq> old_len then realloc heap b (unat n) else Some b)
         in if b' = None then Inl (Cache_Stop (PFATAL ''Unable to malloc''))
            else and_then (read_case True q s) (\<lambda>d. Inr (s\<lparr>tc_buf := (tc_buf s)(q \<mapsto> d)\<rparr>)))"

text \<open>\<open>src\<close> is the new contents, \<open>None\<close> when \<^verbatim>\<open>in\<close> is the cached buffer itself. A buffer
  that cannot be resized is kept.\<close>

definition queue_testcase_retake_mem ::
    "heap \<Rightarrow> nat \<Rightarrow> u8 list option \<Rightarrow> u32 \<Rightarrow> u32 \<Rightarrow> 'r tcache \<Rightarrow> cache_stop + 'r tcache" where
  "queue_testcase_retake_mem heap q src n old_len s =
    (case tc_buf s q of
       None \<Rightarrow> Inr s
     | Some b \<Rightarrow>
         let (b, s) =
           (if n \<noteq> old_len then
              (case realloc heap b (unat n) of
                 None \<Rightarrow> (b, s)
               | Some b \<Rightarrow> (b, s\<lparr>cache_size := cache_size s + ucast n - ucast old_len\<rparr>))
            else (b, s))
         in case src of
              None \<Rightarrow> Inr (s\<lparr>tc_buf := (tc_buf s)(q \<mapsto> b)\<rparr>)
            | Some d \<Rightarrow>
                if length b < unat n \<or> length d < unat n then Inl Bad_Access
                else Inr (s\<lparr>tc_buf := (tc_buf s)(q \<mapsto> take (unat n) d @ drop (unat n) b)\<rparr>))"

section \<open>Making room\<close>

definition cache_full :: "u32 \<Rightarrow> 'r tcache \<Rightarrow> bool" where
  "cache_full n s \<longleftrightarrow> max_cache_size s \<le> cache_size s + ucast n \<or> max_cache_entries s - 1 \<le> cache_count s"

text \<open>Once the cache is full by size, its number of slots is fixed for good. The array shrinks, or
  grows by a slot holding \<open>junk\<close>.\<close>

definition learn_entries :: "nat option \<Rightarrow> u32 \<Rightarrow> 'r tcache \<Rightarrow> 'r tcache" where
  "learn_entries junk n s =
    (if max_cache_size s \<le> cache_size s + ucast n \<and> cache_count s < max_cache_entries s \<and>
        max_cache_count s < max_cache_entries s \<and> \<not> do_once s
     then
       let m = (if cache_count s < max_cache_count s then max_cache_count s + 1 else cache_count s + 1)
       in s\<lparr>max_cache_entries := m, do_once := True,
            slots := take (unat (m + 1)) (slots s) @ replicate (unat (m + 1) - length (slots s)) junk\<rparr>
     else s)"

text \<open>One round of the inner loop: \<open>None\<close> when the slot drawn is empty or in use.\<close>

definition draw_slot ::
    "('r \<Rightarrow> u32 \<Rightarrow> (u32 \<times> 'r) option) \<Rightarrow> 'r tcache \<Rightarrow> (cache_stop + u32 option \<times> 'r tcache) option" where
  "draw_slot below s = map_option (\<lambda>(tid, r).
     let s = s\<lparr>prng := r\<rparr>
     in if length (slots s) \<le> unat tid then Inl Bad_Access
        else if slots s ! unat tid = None \<or> slots s ! unat tid = queue_cur (corpus s) then Inr (None, s)
        else Inr (Some tid, s))
     (below (prng s) (max_cache_count s))"

partial_function (option) pick_victim ::
    "('r \<Rightarrow> u32 \<Rightarrow> (u32 \<times> 'r) option) \<Rightarrow> 'r tcache \<Rightarrow> (cache_stop + u32 \<times> 'r tcache) option" where
  "pick_victim below s = Option.bind (draw_slot below s) (\<lambda>x. case x of
       Inl e \<Rightarrow> Some (Inl e)
     | Inr (t, s) \<Rightarrow> (case t of None \<Rightarrow> pick_victim below s | Some tid \<Rightarrow> Some (Inr (tid, s))))"

definition evict :: "u32 \<Rightarrow> 'r tcache \<Rightarrow> 'r tcache" where
  "evict tid s =
    (case slots s ! unat tid of
       None \<Rightarrow> s
     | Some old \<Rightarrow>
         s\<lparr>tc_buf := (tc_buf s)(old := None),
           cache_size := cache_size s - ucast (qlen s old),
           slots := (slots s)[unat tid := None],
           cache_count := cache_count s - 1,
           evictions := evictions s + 1,
           smallest_free := (if tid < smallest_free s then tid else smallest_free s)\<rparr>)"

partial_function (option) make_room ::
    "('r \<Rightarrow> u32 \<Rightarrow> (u32 \<times> 'r) option) \<Rightarrow> nat option \<Rightarrow> u32 \<Rightarrow> u32 \<Rightarrow> 'r tcache \<Rightarrow>
     (cache_stop + u32 \<times> 'r tcache) option" where
  "make_room below junk n tid s =
    (if \<not> cache_full n s then Some (Inr (tid, s))
     else Option.bind (pick_victim below (learn_entries junk n s)) (\<lambda>x. case x of
       Inl e \<Rightarrow> Some (Inl e)
     | Inr (tid, s) \<Rightarrow> make_room below junk n tid (evict tid s)))"

section \<open>Getting and storing\<close>

text \<open>\<^verbatim>\<open>while (q_testcase_cache[tid] != NULL) ++tid;\<close> \<open>None\<close> when it leaves the array.\<close>

function next_free :: "nat option list \<Rightarrow> nat \<Rightarrow> nat option" where
  "next_free c i = (if length c \<le> i then None else if c ! i = None then Some i else next_free c (i + 1))"
  by auto
termination by (relation "measure (\<lambda>(c, i). length c - i)") auto

declare next_free.simps [simp del]

definition register :: "nat \<Rightarrow> u32 \<Rightarrow> 'r tcache \<Rightarrow> 'r tcache" where
  "register q tid s =
    (let s = s\<lparr>slots := (slots s)[unat tid := Some q], cache_size := cache_size s + ucast (qlen s q),
               cache_count := cache_count s + 1\<rparr>
     in if max_cache_count s \<le> tid then s\<lparr>max_cache_count := tid + 1\<rparr>
        else if tid = smallest_free s then s\<lparr>smallest_free := tid + 1\<rparr>
        else s)"

definition queue_testcase_get ::
    "('r \<Rightarrow> u32 \<Rightarrow> (u32 \<times> 'r) option) \<Rightarrow> heap \<Rightarrow> nat option \<Rightarrow> nat \<Rightarrow> 'r tcache \<Rightarrow>
     (cache_stop + u8 list \<times> 'r tcache) option" where
  "queue_testcase_get below heap junk q s =
    (if max_cache_size s = 0 then
       (let cur = (queue_cur (corpus s) = Some q);
            p = afl_realloc heap (if cur then testcase_buf s else splicecase_buf s) (ucast (qlen s q))
        in case p of
             None \<Rightarrow> Some (Inl (Cache_Stop (PFATAL ''Unable to malloc'')))
           | Some b \<Rightarrow> Some (and_then (read_case True q s) (\<lambda>d.
               let p = Some (b\<lparr>buf := d @ drop (length d) (buf b)\<rparr>)
               in Inr (d, if cur then s\<lparr>testcase_buf := p\<rparr> else s\<lparr>splicecase_buf := p\<rparr>))))
     else case tc_buf s q of
       Some b \<Rightarrow> Some (Inr (b, s))
     | None \<Rightarrow>
         Option.bind (make_room below junk (qlen s q) (max_cache_count s) s) (\<lambda>x. case x of
           Inl e \<Rightarrow> Some (Inl e)
         | Inr (tid, s) \<Rightarrow>
             let tid = (if max_cache_entries s \<le> tid then smallest_free s else tid)
             in case next_free (slots s) (unat tid) of
                  None \<Rightarrow> Some (Inl Bad_Access)
                | Some i \<Rightarrow> Some (and_then (read_case (heap (unat (qlen s q)) \<noteq> None) q s) (\<lambda>d.
                    Inr (d, register q (of_nat i) (s\<lparr>tc_buf := (tc_buf s)(q \<mapsto> d)\<rparr>))))))"

definition queue_testcase_store_mem :: "heap \<Rightarrow> nat \<Rightarrow> u8 list \<Rightarrow> 'r tcache \<Rightarrow> cache_stop + 'r tcache" where
  "queue_testcase_store_mem heap q mem s =
    (if cache_full (qlen s q) s then Inr s
     else
       let tid = (if max_cache_entries s \<le> max_cache_count s then smallest_free s else max_cache_count s)
       in case next_free (slots s) (unat tid) of
            None \<Rightarrow> Inl Bad_Access
          | Some i \<Rightarrow>
              if heap (unat (qlen s q)) = None then Inl (Cache_Stop (PFATAL ''Unable to malloc''))
              else if length mem < unat (qlen s q) then Inl Bad_Access
              else Inr (register q (of_nat i) (s\<lparr>tc_buf := (tc_buf s)(q \<mapsto> take (unat (qlen s q)) mem)\<rparr>)))"

section \<open>The invariant\<close>

text \<open>The slots in use, and the number of bytes the buffer of a slot takes.\<close>

definition live :: "'r tcache \<Rightarrow> nat set" where
  "live s = {i. i < unat (max_cache_entries s) \<and> slots s ! i \<noteq> None}"

definition owner :: "'r tcache \<Rightarrow> nat \<Rightarrow> nat" where
  "owner s i = the (slots s ! i)"

text \<open>\<^verbatim>\<open>ck_alloc\<close> refuses to allocate more than \<^verbatim>\<open>MAX_ALLOC\<close>, a gigabyte: at most \<open>2 ^ 27\<close> slots.\<close>

definition counters_ok :: "'r tcache \<Rightarrow> bool" where
  "counters_ok s \<longleftrightarrow> 0 < max_cache_entries s \<and> max_cache_entries s \<le> 2 ^ 27 \<and> unat (max_cache_entries s) \<le> length (slots s) \<and>
     max_cache_count s \<le> max_cache_entries s \<and> smallest_free s \<le> max_cache_count s \<and>
     live s \<subseteq> {..<unat (max_cache_count s)} \<and> {..<unat (smallest_free s)} \<subseteq> live s \<and>
     unat (cache_count s) = card (live s) \<and> cache_size s = (\<Sum>i \<in> live s. ucast (qlen s (owner s i)))"

definition buffers_ok :: "'r tcache \<Rightarrow> bool" where
  "buffers_ok s \<longleftrightarrow> inj_on (owner s) (live s) \<and> owner s ` live s \<subseteq> {..<length (queue_buf (corpus s))} \<and>
     owner s ` live s = dom (tc_buf s) \<and>
     (\<forall>q b. tc_buf s q = Some b \<longrightarrow> length b = unat (qlen s q))"

definition cache_ok :: "'r tcache \<Rightarrow> bool" where
  "cache_ok s \<longleftrightarrow> counters_ok s \<and> buffers_ok s"

lemma finite_live [simp]: "finite (live s)"
  by (simp add: live_def)

lemma live_less: "i \<in> live s \<Longrightarrow> i < unat (max_cache_entries s)"
  by (simp add: live_def)

lemma live_slot: "i \<in> live s \<Longrightarrow> slots s ! i = Some (owner s i)"
  by (auto simp: live_def owner_def)

lemma unat_Suc_u32: "unat x < unat (y :: u32) \<Longrightarrow> unat (x + 1 :: u32) = unat x + 1"
  using unat_lt2p [of y] by (simp add: unat_word_ariths)

lemma unat_pred_u32: "0 < unat x \<Longrightarrow> unat (x - 1 :: u32) = unat x - 1"
  by (simp add: unat_minus_one unat_gt_0)

lemma live_less_count: "counters_ok s \<Longrightarrow> i \<in> live s \<Longrightarrow> i < unat (max_cache_count s)"
  by (auto simp: counters_ok_def)

lemma count_le: "counters_ok s \<Longrightarrow> cache_count s \<le> max_cache_count s"
  using card_mono [of "{..<unat (max_cache_count s)}" "live s"]
  by (simp add: counters_ok_def word_le_nat_alt)

section \<open>Learning the number of slots\<close>

lemma learn_entries_fields [simp]:
  "corpus (learn_entries junk n s) = corpus s" "prng (learn_entries junk n s) = prng s"
  "tc_buf (learn_entries junk n s) = tc_buf s" "disk (learn_entries junk n s) = disk s"
  "max_cache_size (learn_entries junk n s) = max_cache_size s" "cache_size (learn_entries junk n s) = cache_size s"
  "max_cache_count (learn_entries junk n s) = max_cache_count s" "cache_count (learn_entries junk n s) = cache_count s"
  "smallest_free (learn_entries junk n s) = smallest_free s"
  by (simp_all add: learn_entries_def Let_def)

lemma learn_entries_cases:
  assumes "counters_ok s"
  obtains "learn_entries junk n s = s"
  | "unat (max_cache_entries (learn_entries junk n s)) = unat (max_cache_count s) + 1"
    "max_cache_count s < max_cache_entries s" "max_cache_size s \<le> cache_size s + ucast n"
    "length (slots (learn_entries junk n s)) = unat (max_cache_count s + 1 + 1)"
    "\<And>i. i < unat (max_cache_count s + 1) \<Longrightarrow> slots (learn_entries junk n s) ! i = slots s ! i"
proof (cases "max_cache_size s \<le> cache_size s + ucast n \<and> cache_count s < max_cache_entries s \<and>
    max_cache_count s < max_cache_entries s \<and> \<not> do_once s")
  case False
  then show ?thesis using that(1) unfolding learn_entries_def by auto
next
  case True
  have m: "(if cache_count s < max_cache_count s then max_cache_count s + 1 else cache_count s + 1) = max_cache_count s + 1"
    using count_le [OF assms] by auto
  have u: "unat (max_cache_count s + 1) = unat (max_cache_count s) + 1"
    using True unat_Suc_u32 [of "max_cache_count s" "max_cache_entries s"] by (simp add: word_less_nat_alt)
  have e: "unat (max_cache_count s) + 1 \<le> length (slots s)" "unat (max_cache_count s) < 2 ^ 27"
    using True assms by (simp_all add: counters_ok_def word_less_nat_alt word_le_nat_alt)
  have v: "unat (max_cache_count s + 1 + 1) = unat (max_cache_count s) + 2"
    using e(2) by (simp add: unat_word_ariths)
  have "learn_entries junk n s = s\<lparr>max_cache_entries := max_cache_count s + 1, do_once := True,
      slots := take (unat (max_cache_count s + 1 + 1)) (slots s) @
        replicate (unat (max_cache_count s + 1 + 1) - length (slots s)) junk\<rparr>"
    using True m by (simp add: learn_entries_def)
  then show ?thesis using that(2) True u v e(1) by (simp add: nth_append)
qed

lemma live_learn [simp]: "counters_ok s \<Longrightarrow> live (learn_entries junk n s) = live s"
proof -
  assume c: "counters_ok s"
  show ?thesis using c
  proof (cases rule: learn_entries_cases [of s junk n])
    case 2
    have u: "unat (max_cache_count s + 1) = unat (max_cache_count s) + 1"
      using 2(2) unat_Suc_u32 [of "max_cache_count s" "max_cache_entries s"] by (simp add: word_less_nat_alt)
    have "i \<in> live (learn_entries junk n s) \<longleftrightarrow> i \<in> live s" for i
    proof
      assume "i \<in> live (learn_entries junk n s)"
      then have "i < unat (max_cache_count s) + 1" "slots s ! i \<noteq> None" using 2(1,5) u by (auto simp: live_def)
      then show "i \<in> live s" using 2(2) by (auto simp: live_def word_less_nat_alt)
    next
      assume i: "i \<in> live s"
      then have "i < unat (max_cache_count s)" by (rule live_less_count [OF c])
      then show "i \<in> live (learn_entries junk n s)" using i 2(1,5) u by (auto simp: live_def)
    qed
    then show ?thesis by blast
  qed simp
qed

lemma owner_learn: "counters_ok s \<Longrightarrow> i \<in> live s \<Longrightarrow> slots (learn_entries junk n s) ! i = slots s ! i"
proof -
  assume c: "counters_ok s" and i: "i \<in> live s"
  have l: "i < unat (max_cache_count s)" using live_less_count [OF c i] .
  show ?thesis using c
  proof (cases rule: learn_entries_cases [of s junk n])
    case 2
    have "unat (max_cache_count s + 1) = unat (max_cache_count s) + 1"
      using 2(2) unat_Suc_u32 [of "max_cache_count s" "max_cache_entries s"] by (simp add: word_less_nat_alt)
    then show ?thesis using l 2(5) by simp
  qed simp
qed

lemma counters_learn:
  assumes c: "counters_ok s"
  shows "counters_ok (learn_entries junk n s)"
  using c
proof (cases rule: learn_entries_cases [of s junk n])
  case 2
  let ?s = "learn_entries junk n s"
  have own: "owner ?s i = owner s i" if "i \<in> live s" for i using owner_learn [OF c that] by (simp add: owner_def)
  have m: "unat (max_cache_count s) < 2 ^ 27"
    using 2(2) c by (simp add: counters_ok_def word_less_nat_alt word_le_nat_alt)
  have "0 < max_cache_entries ?s" "max_cache_entries ?s \<le> 2 ^ 27" "max_cache_count ?s \<le> max_cache_entries ?s"
    using 2(1) m by (simp_all add: word_less_nat_alt word_le_nat_alt)
  moreover have "unat (max_cache_entries ?s) \<le> length (slots ?s)"
    using 2(1,4) m by (simp add: unat_word_ariths)
  ultimately show ?thesis using c live_learn [OF c, of junk n] sum.cong [OF refl, of "live s"] own
    by (simp add: counters_ok_def)
qed (simp add: c)

lemma buffers_learn:
  assumes c: "counters_ok s" and b: "buffers_ok s"
  shows "buffers_ok (learn_entries junk n s)"
proof -
  have own: "owner (learn_entries junk n s) i = owner s i" if "i \<in> live s" for i
    using owner_learn [OF c that] by (simp add: owner_def)
  have "inj_on (owner (learn_entries junk n s)) (live s)" "owner (learn_entries junk n s) ` live s = owner s ` live s"
    using b own by (auto simp: buffers_ok_def inj_on_def)
  then show ?thesis using b c unfolding buffers_ok_def by (simp, blast?)
qed

lemma learn_ok: "cache_ok s \<Longrightarrow> cache_ok (learn_entries junk n s)"
  by (simp add: cache_ok_def counters_learn buffers_learn)

lemma count_learn_pos: "counters_ok s \<Longrightarrow> 3 \<le> max_cache_entries s \<Longrightarrow> 2 \<le> card (live s) \<or> max_cache_entries (learn_entries junk n s) = max_cache_entries s
   \<Longrightarrow> 3 \<le> max_cache_entries (learn_entries junk n s)"
  by (cases rule: learn_entries_cases [of s junk n])
     (use count_le [of s] in \<open>auto simp: word_le_nat_alt counters_ok_def\<close>)

section \<open>Evicting\<close>

lemma evict_Some:
  assumes "slots s ! unat tid = Some old"
  shows "evict tid s = s\<lparr>tc_buf := (tc_buf s)(old := None), cache_size := cache_size s - ucast (qlen s old),
    slots := (slots s)[unat tid := None], cache_count := cache_count s - 1, evictions := evictions s + 1,
    smallest_free := (if tid < smallest_free s then tid else smallest_free s)\<rparr>"
  using assms by (simp add: evict_def)

lemma evict_ok:
  assumes ok: "cache_ok s" and tid: "unat tid \<in> live s"
  defines "s' \<equiv> evict tid s"
  shows "cache_ok s'" and "live s' = live s - {unat tid}"
    and "\<And>i. i \<noteq> unat tid \<Longrightarrow> slots s' ! i = slots s ! i"
    and "slots s' ! unat tid = None" and "tc_buf s' = (tc_buf s)(owner s (unat tid) := None)"
    and "corpus s' = corpus s" and "disk s' = disk s" and "max_cache_entries s' = max_cache_entries s"
    and "max_cache_size s' = max_cache_size s"
proof -
  define old where "old = owner s (unat tid)"
  have slot: "slots s ! unat tid = Some old" using live_slot [OF tid] by (simp add: old_def)
  note e = evict_Some [OF slot, folded s'_def]
  have c: "counters_ok s" and b: "buffers_ok s" using ok by (simp_all add: cache_ok_def)
  have lt: "unat tid < length (slots s)"
    using live_less [OF tid] c by (simp add: counters_ok_def)
  show l: "live s' = live s - {unat tid}" using lt by (auto simp: live_def e nth_list_update)
  show n: "\<And>i. i \<noteq> unat tid \<Longrightarrow> slots s' ! i = slots s ! i" by (simp add: e)
  have own: "owner s' i = owner s i" if "i \<in> live s'" for i using that l n by (simp add: owner_def)
  show "slots s' ! unat tid = None" using lt by (simp add: e)
  show "tc_buf s' = (tc_buf s)(owner s (unat tid) := None)" "corpus s' = corpus s" "disk s' = disk s"
    "max_cache_entries s' = max_cache_entries s" "max_cache_size s' = max_cache_size s"
    by (simp_all add: e old_def)
  have f: "cache_count s' = cache_count s - 1" "cache_size s' = cache_size s - ucast (qlen s old)"
    "smallest_free s' = (if tid < smallest_free s then tid else smallest_free s)"
    "max_cache_count s' = max_cache_count s" "max_cache_entries s' = max_cache_entries s"
    "length (slots s') = length (slots s)" "corpus s' = corpus s" "tc_buf s' = (tc_buf s)(old := None)"
    by (simp_all add: e)
  have "0 < card (live s)" using tid by (auto simp: card_gt_0_iff)
  then have "unat (cache_count s') = card (live s')"
    using c tid unat_pred_u32 [of "cache_count s"] by (simp add: f l counters_ok_def)
  moreover have "(\<Sum>i \<in> live s'. ucast (qlen s' (owner s' i))) = (\<Sum>i \<in> live s'. ucast (qlen s (owner s i)) :: u64)"
    using own by (intro sum.cong) (simp_all add: f)
  then have "cache_size s' = (\<Sum>i \<in> live s'. ucast (qlen s' (owner s' i)))"
    using c tid by (simp add: f l counters_ok_def sum.remove [of "live s" "unat tid"] old_def)
  moreover have "{..<unat (smallest_free s')} \<subseteq> live s'" "smallest_free s' \<le> max_cache_count s'"
    using c by (auto simp: f l counters_ok_def word_less_nat_alt word_le_nat_alt subset_iff)
  moreover have "live s' \<subseteq> {..<unat (max_cache_count s')}" using c by (auto simp: f l counters_ok_def)
  ultimately have "counters_ok s'" using c by (auto simp: counters_ok_def f)
  moreover have "buffers_ok s'"
  proof -
    have inj: "inj_on (owner s) (live s)" using b by (simp add: buffers_ok_def)
    have img: "owner s' ` live s' = owner s ` live s - {old}"
    proof -
      have "owner s' ` live s' = owner s ` (live s - {unat tid})" using own l by (auto intro: image_cong)
      also have "\<dots> = owner s ` live s - {old}"
        using inj_on_image_set_diff [OF inj, of "live s" "{unat tid}"] tid by (simp add: old_def)
      finally show ?thesis .
    qed
    have "inj_on (owner s') (live s')" using inj own l by (simp add: inj_on_def)
    then show ?thesis using b img by (auto simp: buffers_ok_def f subset_iff dom_def)
  qed
  ultimately show "cache_ok s'" by (simp add: cache_ok_def)
qed

section \<open>Finding a slot and filling it\<close>

lemma next_free_SomeD: "next_free c i = Some j \<Longrightarrow> i \<le> j \<and> j < length c \<and> c ! j = None"
proof (induction c i rule: next_free.induct)
  case (1 c i)
  then show ?case using next_free.simps [of c i] by (auto split: if_splits)
qed

lemma next_free_least: "next_free c i = Some j \<Longrightarrow> i \<le> k \<Longrightarrow> k < j \<Longrightarrow> c ! k \<noteq> None"
proof (induction c i rule: next_free.induct)
  case (1 c i)
  show ?case
  proof (cases "k = i")
    case True
    then show ?thesis using 1(2-4) next_free.simps [of c i] by (auto split: if_splits)
  next
    case False
    then show ?thesis using 1 next_free.simps [of c i] by (auto split: if_splits)
  qed
qed

lemma next_free_exists: "i \<le> j \<Longrightarrow> j < length c \<Longrightarrow> c ! j = None \<Longrightarrow> \<exists>k \<le> j. next_free c i = Some k"
proof (induction c i rule: next_free.induct)
  case (1 c i)
  show ?case
  proof (cases "c ! i = None")
    case True
    then show ?thesis using 1(2,3) by (intro exI [of _ i]) (simp add: next_free.simps)
  next
    case False
    then have "i \<noteq> j" using 1(4) by auto
    then obtain k where "k \<le> j" "next_free c (i + 1) = Some k" using 1 False by fastforce
    moreover have "next_free c i = next_free c (i + 1)" using 1(2,3) next_free.simps [of c i] False by simp
    ultimately show ?thesis by auto
  qed
qed

text \<open>Where the search starts, and that it finds a slot inside the array.\<close>

definition start_ok :: "u32 \<Rightarrow> 'r tcache \<Rightarrow> bool" where
  "start_ok tid s \<longleftrightarrow> tid = max_cache_count s \<or> tid < max_cache_entries s \<and> slots s ! unat tid = None"

lemma slot_found:
  assumes ok: "counters_ok s" and room: "\<not> cache_full n s" and tid: "start_ok tid s"
  obtains i where "next_free (slots s) (unat (if max_cache_entries s \<le> tid then smallest_free s else tid)) = Some i"
    "i < unat (max_cache_entries s)" "i \<notin> live s"
proof -
  let ?tid = "if max_cache_entries s \<le> tid then smallest_free s else tid"
  have len: "unat (max_cache_entries s) \<le> length (slots s)" using ok by (simp add: counters_ok_def)
  have "\<exists>j. unat ?tid \<le> j \<and> j < unat (max_cache_entries s) \<and> j \<notin> live s"
  proof (cases "max_cache_entries s \<le> tid")
    case True
    have e: "unat (max_cache_entries s - 1) = unat (max_cache_entries s) - 1"
      using ok by (intro unat_pred_u32) (simp add: counters_ok_def word_less_nat_alt)
    have "card (live s) < card {..<unat (max_cache_entries s)}"
      using room ok e unfolding cache_full_def counters_ok_def word_le_nat_alt word_less_nat_alt card_lessThan
      by linarith
    then have "\<not> {..<unat (max_cache_entries s)} \<subseteq> live s" using card_mono [OF finite_live] leD by blast
    then obtain j where j: "j < unat (max_cache_entries s)" "j \<notin> live s" by auto
    moreover have "unat (smallest_free s) \<le> j" using ok j(2) unfolding counters_ok_def
      by (meson lessThan_iff linorder_not_le subsetD)
    ultimately show ?thesis using True by auto
  next
    case False
    have "unat tid \<notin> live s"
    proof (cases "tid = max_cache_count s")
      case True
      then show ?thesis using live_less_count [OF ok, of "unat tid"] by blast
    next
      case False
      then show ?thesis using tid by (auto simp: start_ok_def live_def)
    qed
    then show ?thesis using False by (intro exI [of _ "unat tid"]) (simp add: word_le_nat_alt)
  qed
  then obtain j where j: "unat ?tid \<le> j" "j < unat (max_cache_entries s)" "j \<notin> live s" by blast
  then have "slots s ! j = None" by (simp add: live_def)
  then obtain k where k: "k \<le> j" "next_free (slots s) (unat ?tid) = Some k"
    using next_free_exists [OF j(1) less_le_trans [OF j(2) len]] by blast
  have "slots s ! k = None" using next_free_SomeD [OF k(2)] by blast
  then show ?thesis using that [of k] k j(2) by (simp add: live_def)
qed

lemma register_fields [simp]:
  "corpus (register q tid s) = corpus s" "tc_buf (register q tid s) = tc_buf s" "disk (register q tid s) = disk s"
  "slots (register q tid s) = (slots s)[unat tid := Some q]" "max_cache_entries (register q tid s) = max_cache_entries s"
  "cache_size (register q tid s) = cache_size s + ucast (qlen s q)" "cache_count (register q tid s) = cache_count s + 1"
  "max_cache_size (register q tid s) = max_cache_size s"
  by (simp_all add: register_def Let_def)

lemma register_ok:
  assumes ok: "cache_ok s" and tid: "unat tid < unat (max_cache_entries s)" "unat tid \<notin> live s"
    and q: "q < length (queue_buf (corpus s))" "tc_buf s q = None" and b: "length b = unat (qlen s q)"
  defines "s' \<equiv> register q tid (s\<lparr>tc_buf := (tc_buf s)(q \<mapsto> b)\<rparr>)"
  shows "cache_ok s'" and "live s' = insert (unat tid) (live s)" and "owner s' (unat tid) = q"
    and "\<And>i. i \<in> live s \<Longrightarrow> owner s' i = owner s i"
proof -
  have c: "counters_ok s" and bo: "buffers_ok s" using ok by (simp_all add: cache_ok_def)
  have lt: "unat tid < length (slots s)" using tid c by (simp add: counters_ok_def)
  show l: "live s' = insert (unat tid) (live s)" using lt tid by (auto simp: live_def s'_def nth_list_update)
  show o1: "owner s' (unat tid) = q" using lt by (simp add: owner_def s'_def)
  show o2: "\<And>i. i \<in> live s \<Longrightarrow> owner s' i = owner s i"
  proof -
    fix i assume "i \<in> live s"
    then have "i \<noteq> unat tid" using tid(2) by blast
    then show "owner s' i = owner s i" by (simp add: owner_def s'_def)
  qed
  have f: "cache_count s' = cache_count s + 1" "cache_size s' = cache_size s + ucast (qlen s q)"
    "max_cache_entries s' = max_cache_entries s" "length (slots s') = length (slots s)" "corpus s' = corpus s"
    "tc_buf s' = (tc_buf s)(q \<mapsto> b)"
    by (simp_all add: s'_def)
  have t1: "unat (tid + 1) = unat tid + 1" using tid(1) by (rule unat_Suc_u32)
  have mc: "max_cache_count s' = (if max_cache_count s \<le> tid then tid + 1 else max_cache_count s)"
    "smallest_free s' = (if max_cache_count s \<le> tid then smallest_free s
       else if tid = smallest_free s then tid + 1 else smallest_free s)"
    by (simp_all add: s'_def register_def Let_def)
  have "card (live s') \<le> unat (max_cache_entries s')"
    using card_mono [of "{..<unat (max_cache_entries s')}" "live s'"] live_less [of _ s'] by force
  then have "unat (cache_count s') = card (live s')"
    using c tid unat_Suc_u32 [of "cache_count s" "max_cache_entries s"] by (simp add: f l counters_ok_def)
  moreover have "(\<Sum>i \<in> live s. ucast (qlen s' (owner s' i))) = (\<Sum>i \<in> live s. ucast (qlen s (owner s i)) :: u64)"
    using o2 by (intro sum.cong) (simp_all add: f)
  then have "cache_size s' = (\<Sum>i \<in> live s'. ucast (qlen s' (owner s' i)))"
    using c tid(2) by (simp add: l o1 f counters_ok_def add.commute)
  moreover have "live s' \<subseteq> {..<unat (max_cache_count s')}" "{..<unat (smallest_free s')} \<subseteq> live s'"
    "smallest_free s' \<le> max_cache_count s'" "max_cache_count s' \<le> max_cache_entries s'"
    using c t1 tid(1) by (auto simp: l mc f counters_ok_def word_le_nat_alt subset_iff less_Suc_eq)
  ultimately have "counters_ok s'" using c by (simp add: counters_ok_def f)
  moreover have "buffers_ok s'"
  proof -
    have "owner s' ` live s' = insert q (owner s ` live s)" using o1 o2 by (auto simp: l)
    moreover have "inj_on (owner s') (live s')"
    proof -
      have "inj_on (owner s') (live s)" using bo o2 inj_on_cong [of "live s" "owner s'" "owner s"] by (simp add: buffers_ok_def)
      moreover have "owner s' ` live s = dom (tc_buf s)" using bo o2 by (simp add: buffers_ok_def)
      ultimately show ?thesis using q(2) tid(2) by (simp add: l o1 domIff)
    qed
    ultimately show ?thesis using bo q b by (auto simp: buffers_ok_def f subset_iff dom_def)
  qed
  ultimately show "cache_ok s'" by (simp add: cache_ok_def)
qed

section \<open>The random search and the eviction loop\<close>

text \<open>What the loops leave alone: everything but the generator.\<close>

definition same_cache :: "'r tcache \<Rightarrow> 'r tcache \<Rightarrow> bool" where
  "same_cache s s' \<longleftrightarrow> (\<exists>r. s' = s\<lparr>prng := r\<rparr>)"

lemma same_cache_refl [simp]: "same_cache s s"
  unfolding same_cache_def by (rule exI [of _ "prng s"]) simp

lemma same_cache_trans: "same_cache s t \<Longrightarrow> same_cache t u \<Longrightarrow> same_cache s u"
  by (auto simp: same_cache_def)

lemma prng_update [simp]: "live (s\<lparr>prng := r\<rparr>) = live s" "owner (s\<lparr>prng := r\<rparr>) = owner s"
  by (auto simp: live_def owner_def fun_eq_iff)

lemma same_cache_ok: "same_cache s s' \<Longrightarrow> counters_ok s' = counters_ok s" "same_cache s s' \<Longrightarrow> buffers_ok s' = buffers_ok s"
  "same_cache s s' \<Longrightarrow> cache_ok s' = cache_ok s"
proof -
  have "counters_ok (s\<lparr>prng := r\<rparr>) = counters_ok s" "buffers_ok (s\<lparr>prng := r\<rparr>) = buffers_ok s" for r
    by (simp_all add: counters_ok_def buffers_ok_def)
  then show "same_cache s s' \<Longrightarrow> counters_ok s' = counters_ok s" "same_cache s s' \<Longrightarrow> buffers_ok s' = buffers_ok s"
    "same_cache s s' \<Longrightarrow> cache_ok s' = cache_ok s"
    by (auto simp: same_cache_def cache_ok_def)
qed

lemma same_cache_fields:
  "same_cache s s' \<Longrightarrow> live s' = live s" "same_cache s s' \<Longrightarrow> slots s' = slots s" "same_cache s s' \<Longrightarrow> corpus s' = corpus s"
  "same_cache s s' \<Longrightarrow> tc_buf s' = tc_buf s" "same_cache s s' \<Longrightarrow> disk s' = disk s"
  "same_cache s s' \<Longrightarrow> max_cache_entries s' = max_cache_entries s" "same_cache s s' \<Longrightarrow> max_cache_size s' = max_cache_size s"
  "same_cache s s' \<Longrightarrow> owner s' = owner s" "same_cache s s' \<Longrightarrow> max_cache_count s' = max_cache_count s"
  "same_cache s s' \<Longrightarrow> cache_size s' = cache_size s" "same_cache s s' \<Longrightarrow> cache_count s' = cache_count s"
  by (auto simp: same_cache_def)

text \<open>A slot that the search may choose.\<close>

definition evictable :: "'r tcache \<Rightarrow> nat \<Rightarrow> bool" where
  "evictable s i \<longleftrightarrow> i \<in> live s \<and> Some (owner s i) \<noteq> queue_cur (corpus s)"


lemma draw_slot_SomeD:
  assumes "draw_slot below s = Some x" and rng: "bounded_rng below" and c: "counters_ok s"
  shows "\<exists>t s'. x = Inr (t, s') \<and> same_cache s s' \<and> (\<forall>tid. t = Some tid \<longrightarrow> evictable s (unat tid))"
proof -
  obtain tid r where d: "below (prng s) (max_cache_count s) = Some (tid, r)"
    and x: "x = (if length (slots s) \<le> unat tid then Inl Bad_Access
        else if slots s ! unat tid = None \<or> slots s ! unat tid = queue_cur (corpus s) then Inr (None, s\<lparr>prng := r\<rparr>)
        else Inr (Some tid, s\<lparr>prng := r\<rparr>))"
    using assms(1) by (auto simp: draw_slot_def Let_def)
  have "tid < max_cache_entries s"
  proof (cases "max_cache_count s = 0")
    case True
    then show ?thesis using bounded_rng.below_trivial [OF rng, of "max_cache_count s"] d c by (simp add: counters_ok_def)
  next
    case False
    then show ?thesis using bounded_rng.below_less [OF rng d] c by (auto simp: counters_ok_def word_gt_0)
  qed
  then have le: "unat tid < unat (max_cache_entries s)" "unat tid < length (slots s)"
    using c by (simp_all add: counters_ok_def word_less_nat_alt)
  have "same_cache s (s\<lparr>prng := r\<rparr>)" by (auto simp: same_cache_def)
  moreover have "evictable s (unat tid)" if "slots s ! unat tid \<noteq> None" "slots s ! unat tid \<noteq> queue_cur (corpus s)"
    using that le by (auto simp: evictable_def live_def owner_def)
  ultimately show ?thesis using x le by (auto split: if_splits)
qed

lemma pick_victim_SomeD:
  assumes "pick_victim below s = Some x" and "bounded_rng below" and "counters_ok s"
  shows "\<exists>tid s'. x = Inr (tid, s') \<and> same_cache s s' \<and> evictable s (unat tid)"
  using assms
proof (induction rule: pick_victim.raw_induct [rotated 1, consumes 1, case_names step])
  case (step pv below s x)
  obtain y where y: "draw_slot below s = Some y"
    and rest: "(case y of Inl e \<Rightarrow> Some (Inl e)
      | Inr (t, s) \<Rightarrow> (case t of None \<Rightarrow> pv below s | Some tid \<Rightarrow> Some (Inr (tid, s)))) = Some x"
    using step(2) by (auto simp: bind_eq_Some_conv)
  obtain t s1 where t: "y = Inr (t, s1)" "same_cache s s1" "\<forall>tid. t = Some tid \<longrightarrow> evictable s (unat tid)"
    using draw_slot_SomeD [OF y step(3,4)] by blast
  show ?case
  proof (cases t)
    case None
    then have "pv below s1 = Some x" using rest t(1) by simp
    moreover have "counters_ok s1" using step(4) t(2) by (simp add: same_cache_ok)
    ultimately obtain tid s' where "x = Inr (tid, s')" "same_cache s1 s'" "evictable s1 (unat tid)"
      using step(1) step(3) by blast
    moreover have "evictable s1 = evictable s" using t(2) by (simp add: same_cache_fields evictable_def fun_eq_iff)
    ultimately show ?thesis using t(2) by (metis same_cache_trans)
  next
    case (Some tid)
    then show ?thesis using rest t by auto
  qed
qed

text \<open>What making room may change: buffers go, except that of \<^verbatim>\<open>queue_cur\<close>.\<close>

definition only_evicts :: "'r tcache \<Rightarrow> 'r tcache \<Rightarrow> bool" where
  "only_evicts s s' \<longleftrightarrow> corpus s' = corpus s \<and> disk s' = disk s \<and> max_cache_size s' = max_cache_size s \<and>
     (\<forall>q. tc_buf s' q = tc_buf s q \<or> tc_buf s' q = None \<and> queue_cur (corpus s) \<noteq> Some q)"

lemma only_evicts_refl [simp]: "only_evicts s s"
  by (simp add: only_evicts_def)

lemma only_evicts_trans: "only_evicts s t \<Longrightarrow> only_evicts t u \<Longrightarrow> only_evicts s u"
  unfolding only_evicts_def by metis

text \<open>One turn of the eviction loop.\<close>

lemma evict_turn:
  assumes "pick_victim below (learn_entries junk n s) = Some x" and "bounded_rng below" and ok: "cache_ok s"
  shows "\<exists>tid s1. x = Inr (tid, s1) \<and> cache_ok (evict tid s1) \<and> start_ok tid (evict tid s1) \<and> only_evicts s (evict tid s1) \<and>
    card (live (evict tid s1)) < card (live s) \<and> same_cache (learn_entries junk n s) s1"
proof -
  let ?l = "learn_entries junk n s"
  have l: "cache_ok ?l" using learn_ok [OF ok] .
  then obtain tid s1 where x: "x = Inr (tid, s1)" and same: "same_cache ?l s1" and ev: "evictable ?l (unat tid)"
    using pick_victim_SomeD [OF assms(1,2)] by (auto simp: cache_ok_def)
  have s1: "cache_ok s1" using l same by (simp add: same_cache_ok)
  have tid: "unat tid \<in> live s1" using ev same by (simp add: evictable_def same_cache_fields)
  note e = evict_ok [OF s1 tid]
  have "live s1 = live s" using ok same by (simp add: same_cache_fields cache_ok_def)
  then have "card (live (evict tid s1)) < card (live s)" using e(2) tid psubset_card_mono [of "live s1" "live s1 - {unat tid}"] by auto
  moreover have "start_ok tid (evict tid s1)"
    using e(4,8) live_less [OF tid] by (simp add: start_ok_def word_less_nat_alt)
  moreover have "only_evicts s (evict tid s1)"
    using e(5-7,9) ev same by (auto simp: only_evicts_def same_cache_fields evictable_def)
  ultimately show ?thesis using x e(1) same by blast
qed

lemma make_room_SomeD:
  assumes "make_room below junk n tid s = Some x" and "bounded_rng below" and "cache_ok s" and "start_ok tid s"
  shows "\<exists>tid' s'. x = Inr (tid', s') \<and> cache_ok s' \<and> start_ok tid' s' \<and> \<not> cache_full n s' \<and> only_evicts s s'"
  using assms
proof (induction rule: make_room.raw_induct [rotated 1, consumes 1, case_names step])
  case (step mr below junk n tid s x)
  show ?case
  proof (cases "cache_full n s")
    case False
    then show ?thesis using step(2,4,5) by auto
  next
    case True
    then obtain y where y: "pick_victim below (learn_entries junk n s) = Some y"
      and rest: "(case y of Inl e \<Rightarrow> Some (Inl e) | Inr (tid, s) \<Rightarrow> mr below junk n tid (evict tid s)) = Some x"
      using step(2) by (auto simp: bind_eq_Some_conv)
    obtain t s1 where t: "y = Inr (t, s1)" "cache_ok (evict t s1)" "start_ok t (evict t s1)" "only_evicts s (evict t s1)"
      using evict_turn [OF y step(3,4)] by blast
    then have "mr below junk n t (evict t s1) = Some x" using rest by simp
    from step(1) [OF this step(3) t(2,3)] show ?thesis using only_evicts_trans [OF t(4)] by blast
  qed
qed

section \<open>The budget\<close>

lemma unat_sum_u32:
  "finite A \<Longrightarrow> (\<Sum>i \<in> A. unat (f i :: u32)) < 2 ^ 64 \<Longrightarrow> unat (\<Sum>i \<in> A. ucast (f i) :: u64) = (\<Sum>i \<in> A. unat (f i))"
proof (induction rule: finite_induct)
  case (insert a A)
  then have "unat (\<Sum>i \<in> A. ucast (f i) :: u64) = (\<Sum>i \<in> A. unat (f i))" by simp
  then show ?case using insert by (simp add: unat_word_ariths)
qed simp

text \<open>The bytes of memory that cached test cases take.\<close>

definition held_bytes :: "'r tcache \<Rightarrow> nat" where
  "held_bytes s = (\<Sum>q \<in> dom (tc_buf s). length (the (tc_buf s q)))"

lemma held_bytes_owner: "buffers_ok s \<Longrightarrow> held_bytes s = (\<Sum>i \<in> live s. unat (qlen s (owner s i)))"
proof -
  assume b: "buffers_ok s"
  then have "held_bytes s = (\<Sum>q \<in> owner s ` live s. unat (qlen s q))"
    unfolding held_bytes_def by (intro sum.cong) (auto simp: buffers_ok_def)
  moreover have "inj_on (owner s) (live s)" using b by (simp add: buffers_ok_def)
  ultimately show ?thesis by (simp add: sum.reindex)
qed

lemma unat_cache_size:
  assumes ok: "cache_ok s"
  shows "unat (cache_size s) = held_bytes s"
proof -
  have c: "counters_ok s" and b: "buffers_ok s" using ok by (simp_all add: cache_ok_def)
  have "card (live s) \<le> 2 ^ 27"
    using card_mono [of "{..<unat (max_cache_entries s)}" "live s"] live_less [of _ s] c
    by (force simp: counters_ok_def word_le_nat_alt)
  moreover have "(\<Sum>i \<in> live s. unat (qlen s (owner s i))) \<le> card (live s) * 2 ^ 32"
    using sum_bounded_above [of "live s" "\<lambda>i. unat (qlen s (owner s i))" "2 ^ 32"]
    by (simp add: less_imp_le [OF unat_lt2p [where ?'a = 32, simplified]])
  ultimately have "(\<Sum>i \<in> live s. unat (qlen s (owner s i))) < 2 ^ 64" by simp
  then show ?thesis using c b unat_sum_u32 [of "live s" "\<lambda>i. qlen s (owner s i)"]
    by (simp add: held_bytes_owner counters_ok_def)
qed

section \<open>What the operations do\<close>

lemma start_ok_max: "start_ok (max_cache_count s) s"
  by (simp add: start_ok_def)

lemma read_case_InrD: "read_case ok q s = Inr b \<Longrightarrow> length b = unat (qlen s q) \<and>
    (\<exists>d. disk s (fname (entry (corpus s) q)) = Some d \<and> b = take (unat (qlen s q)) d)"
  by (auto simp: read_case_def split: option.splits if_splits)

lemma read_case_Inl: "read_case ok q s \<noteq> Inl Bad_Access"
  by (auto simp: read_case_def split: option.splits)

lemma unat_of_nat_slot: "cache_ok s \<Longrightarrow> i < unat (max_cache_entries s) \<Longrightarrow> unat (of_nat i :: u32) = i"
  using unat_lt2p [of "max_cache_entries s"] by simp

text \<open>Filling a free slot keeps the invariant and the budget.\<close>

lemma fill_ok:
  assumes ok: "cache_ok s" and room: "\<not> cache_full (qlen s q) s" and i: "i < unat (max_cache_entries s)" "i \<notin> live s"
    and q: "q < length (queue_buf (corpus s))" "tc_buf s q = None" and b: "length b = unat (qlen s q)"
  defines "s' \<equiv> register q (of_nat i) (s\<lparr>tc_buf := (tc_buf s)(q \<mapsto> b)\<rparr>)"
  shows "cache_ok s' \<and> held_bytes s' < unat (max_cache_size s')"
proof -
  have u: "unat (of_nat i :: u32) = i" using unat_of_nat_slot [OF ok i(1)] .
  have ok': "cache_ok s'"
    unfolding s'_def using ok q b i by (intro register_ok) (simp_all only: u simp_thms)
  have "cache_size s' < max_cache_size s'" using room by (simp add: s'_def cache_full_def not_le)
  then show ?thesis using ok' unat_cache_size [OF ok'] by (simp add: word_less_nat_alt)
qed

lemma get_miss:
  assumes ok: "cache_ok s" and q: "q < length (queue_buf (corpus s))" "tc_buf s q = None" and m: "max_cache_size s \<noteq> 0"
    and rng: "bounded_rng below" and res: "queue_testcase_get below heap junk q s = Some x"
  shows "(\<exists>e. x = Inl (Cache_Stop e)) \<or> (\<exists>b s' d. x = Inr (b, s') \<and> cache_ok s' \<and> held_bytes s' < unat (max_cache_size s') \<and>
     only_evicts (s\<lparr>tc_buf := (tc_buf s)(q \<mapsto> b)\<rparr>) s' \<and> tc_buf s' q = Some b \<and>
     disk s (fname (entry (corpus s) q)) = Some d \<and> b = take (unat (qlen s q)) d)"
proof -
  obtain y where y: "make_room below junk (qlen s q) (max_cache_count s) s = Some y"
    using res q m by (auto simp: queue_testcase_get_def bind_eq_Some_conv)
  obtain tid s1 where t: "y = Inr (tid, s1)" "cache_ok s1" "start_ok tid s1" "\<not> cache_full (qlen s q) s1" "only_evicts s s1"
    using make_room_SomeD [OF y rng ok start_ok_max] by blast
  have same: "corpus s1 = corpus s" "disk s1 = disk s" "tc_buf s1 q = None" using t(5) q(2)
    unfolding only_evicts_def by metis+
  have "counters_ok s1" using t(2) by (simp add: cache_ok_def)
  then obtain i where i: "next_free (slots s1) (unat (if max_cache_entries s1 \<le> tid then smallest_free s1 else tid)) = Some i"
    "i < unat (max_cache_entries s1)" "i \<notin> live s1"
    using slot_found [OF _ t(4,3)] by blast
  have x: "x = and_then (read_case (heap (unat (qlen s q)) \<noteq> None) q s1)
      (\<lambda>d. Inr (d, register q (of_nat i) (s1\<lparr>tc_buf := (tc_buf s1)(q \<mapsto> d)\<rparr>)))"
    using res q m y t(1) i(1) same by (simp add: queue_testcase_get_def Let_def)
  show ?thesis
  proof (cases "read_case (heap (unat (qlen s q)) \<noteq> None) q s1")
    case (Inl e)
    then show ?thesis using x read_case_Inl by (cases e) auto
  next
    case (Inr b)
    let ?s' = "register q (of_nat i) (s1\<lparr>tc_buf := (tc_buf s1)(q \<mapsto> b)\<rparr>)"
    obtain d where b: "length b = unat (qlen s q)" "disk s (fname (entry (corpus s) q)) = Some d" "b = take (unat (qlen s q)) d"
      using read_case_InrD [OF Inr] same by auto
    have "cache_ok ?s' \<and> held_bytes ?s' < unat (max_cache_size ?s')"
      by (rule fill_ok) (use t i q same b in simp_all)
    moreover have "only_evicts (s\<lparr>tc_buf := (tc_buf s)(q \<mapsto> b)\<rparr>) ?s'"
      using t(5) by (simp add: only_evicts_def)
    ultimately show ?thesis using x Inr b by simp
  qed
qed

text \<open>The position of the contents behind a shorter entry.\<close>

definition set_len :: "nat \<Rightarrow> u32 \<Rightarrow> 'r tcache \<Rightarrow> 'r tcache" where
  "set_len q n s = s\<lparr>corpus := upd_entry q (\<lambda>e. e\<lparr>len := n\<rparr>) (corpus s)\<rparr>"

lemma set_len_fields [simp]: "live (set_len q n s) = live s" "owner (set_len q n s) = owner s"
  "tc_buf (set_len q n s) = tc_buf s" "cache_size (set_len q n s) = cache_size s"
  "length (queue_buf (corpus (set_len q n s))) = length (queue_buf (corpus s))"
  by (simp_all add: set_len_def live_def owner_def upd_entry_def fun_eq_iff)

lemma qlen_set_len: "q < length (queue_buf (corpus s)) \<Longrightarrow> qlen (set_len q n s) p = (if p = q then n else qlen s p)"
  by (simp add: set_len_def upd_entry_def nth_list_update)

text \<open>Replacing a buffer together with the length and the size accounted for it.\<close>

lemma replace_ok:
  assumes ok: "cache_ok s" and q: "q < length (queue_buf (corpus s))" "tc_buf s q \<noteq> None" and b: "length b = unat n"
  shows "cache_ok ((set_len q n s)\<lparr>tc_buf := (tc_buf s)(q \<mapsto> b), cache_size := cache_size s + ucast n - ucast (qlen s q)\<rparr>)"
    (is "cache_ok ?s'")
proof -
  have c: "counters_ok s" and bo: "buffers_ok s" using ok by (simp_all add: cache_ok_def)
  have l: "live ?s' = live s" "owner ?s' = owner s" by (simp_all add: live_def owner_def fun_eq_iff set_len_def)
  obtain i where i: "i \<in> live s" "owner s i = q" using bo q(2) unfolding buffers_ok_def by (metis domIff imageE)
  have qs: "qlen ?s' p = (if p = q then n else qlen s p)" for p
    using qlen_set_len [OF q(1), of n p] by simp
  have other: "owner s j \<noteq> q" if "j \<in> live s - {i}" for j
    using that i bo unfolding buffers_ok_def inj_on_def by blast
  have "(\<Sum>j \<in> live s - {i}. ucast (qlen ?s' (owner s j))) = (\<Sum>j \<in> live s - {i}. ucast (qlen s (owner s j)) :: u64)"
    using other by (intro sum.cong) (simp_all only: qs if_False refl)
  moreover have "qlen ?s' q = n" by (simp only: qs if_True refl)
  moreover have "cache_size s = (\<Sum>j \<in> live s. ucast (qlen s (owner s j)))" using c by (simp add: counters_ok_def)
  ultimately have "cache_size ?s' = (\<Sum>j \<in> live ?s'. ucast (qlen ?s' (owner ?s' j)))"
    unfolding l using i sum.remove [OF finite_live i(1), of "\<lambda>j. ucast (qlen ?s' (owner s j)) :: u64"]
      sum.remove [OF finite_live i(1), of "\<lambda>j. ucast (qlen s (owner s j)) :: u64"]
    by simp
  then have "counters_ok ?s'" using c unfolding counters_ok_def l by (simp add: set_len_def)
  moreover have "buffers_ok ?s'"
    using bo q b qlen_set_len [OF q(1), of n] unfolding buffers_ok_def l by (auto simp: dom_def subset_iff)
  ultimately show ?thesis by (simp add: cache_ok_def)
qed

lemma retake_mem_eq:
  assumes "cache_ok s" and "q < length (queue_buf (corpus s))" and "tc_buf s q = Some b"
    and "heap (unat n) \<noteq> None" and "unat n \<le> length (case src of None \<Rightarrow> b | Some d \<Rightarrow> d)"
  shows "queue_testcase_retake_mem heap q src n (qlen s q) (set_len q n s) =
    Inr ((set_len q n s)\<lparr>tc_buf := (tc_buf s)(q \<mapsto> take (unat n) (case src of None \<Rightarrow> b | Some d \<Rightarrow> d)),
      cache_size := cache_size s + ucast n - ucast (qlen s q)\<rparr>)"
proof -
  have lb: "length b = unat (qlen s q)" using assms(1,3) by (simp add: cache_ok_def buffers_ok_def)
  show ?thesis
  proof (cases "n = qlen s q")
    case True
    then have "cache_size s + ucast n - ucast (qlen s q) = cache_size s" by simp
    then show ?thesis using True lb assms(3,5)
      by (auto simp: queue_testcase_retake_mem_def split: option.splits)
  next
    case False
    obtain b' where b': "realloc heap b (unat n) = Some b'" using assms(4) by (auto simp: realloc_def)
    have "take (unat n) b = b'" if "unat n \<le> length b" 
      using take_realloc [OF b'] length_realloc [OF b'] that by simp
    then show ?thesis using False b' length_realloc [OF b'] assms(3,5)
      by (auto simp: queue_testcase_retake_mem_def split: option.splits)
  qed
qed

lemma retake_mem_ok:
  assumes "cache_ok s" and "q < length (queue_buf (corpus s))" and "tc_buf s q = Some b"
    and "heap (unat n) \<noteq> None" and "unat n \<le> length (case src of None \<Rightarrow> b | Some d \<Rightarrow> d)"
  shows "\<exists>s'. queue_testcase_retake_mem heap q src n (qlen s q) (set_len q n s) = Inr s' \<and> cache_ok s' \<and>
    tc_buf s' = (tc_buf s)(q \<mapsto> take (unat n) (case src of None \<Rightarrow> b | Some d \<Rightarrow> d))"
proof -
  define c where "c = take (unat n) (case src of None \<Rightarrow> b | Some d \<Rightarrow> d)"
  have "length c = unat n" using assms(5) by (simp add: c_def)
  then have "cache_ok ((set_len q n s)\<lparr>tc_buf := (tc_buf s)(q \<mapsto> c), cache_size := cache_size s + ucast n - ucast (qlen s q)\<rparr>)"
    using assms(1-3) by (intro replace_ok) auto
  then show ?thesis using retake_mem_eq [where q = q and heap = heap and src = src, OF assms] by (simp add: c_def)
qed

section \<open>That getting a test case returns\<close>

text \<open>\<open>drawn below n i r\<close>: drawing below \<open>n\<close> again and again from the state \<open>r\<close> yields \<open>i\<close> at some
  point. A generator is fair when that holds for every \<open>i\<close> and every state.\<close>

inductive drawn :: "('r \<Rightarrow> u32 \<Rightarrow> (u32 \<times> 'r) option) \<Rightarrow> u32 \<Rightarrow> u32 \<Rightarrow> 'r \<Rightarrow> bool" for below n i where
  now: "below r n = Some (i, r') \<Longrightarrow> drawn below n i r"
| later: "below r n = Some (j, r') \<Longrightarrow> drawn below n i r' \<Longrightarrow> drawn below n i r"

definition fair :: "('r \<Rightarrow> u32 \<Rightarrow> (u32 \<times> 'r) option) \<Rightarrow> bool" where
  "fair below \<longleftrightarrow> (\<forall>r n i. i < n \<longrightarrow> drawn below n i r)"

lemma pick_victim_returns:
  assumes "drawn below (max_cache_count s) i r" and "bounded_rng below" and "cache_ok s" and "evictable s (unat i)"
  shows "pick_victim below (s\<lparr>prng := r\<rparr>) \<noteq> None"
  using assms
proof (induction rule: drawn.induct)
  case (now r r')
  have l: "unat i \<in> live s" using now(4) by (simp add: evictable_def)
  have "unat (max_cache_entries s) \<le> length (slots s)" using now(3) by (simp add: cache_ok_def counters_ok_def)
  then have i: "unat i < length (slots s)" "slots s ! unat i = Some (owner s (unat i))"
    using live_less [OF l] live_slot [OF l] by simp_all
  have "draw_slot below (s\<lparr>prng := r\<rparr>) = Some (Inr (Some i, s\<lparr>prng := r'\<rparr>))"
    using now(1,4) i by (simp add: draw_slot_def evictable_def)
  then show ?case by (subst pick_victim.simps) simp
next
  case (later r j r')
  let ?s = "s\<lparr>prng := r\<rparr>"
  have "draw_slot below ?s \<noteq> None" using later(1) by (simp add: draw_slot_def)
  then obtain x where x: "draw_slot below ?s = Some x" by blast
  have "counters_ok ?s" using later.prems(2) same_cache_ok(1) [of s ?s] by (auto simp: cache_ok_def same_cache_def)
  then obtain t s' where t: "x = Inr (t, s')" using draw_slot_SomeD [OF x later.prems(1)] by blast
  then have "s' = s\<lparr>prng := r'\<rparr>" using x later(1) by (auto simp: draw_slot_def Let_def split: if_splits)
  then show ?case using later.IH [OF later.prems] x t by (subst pick_victim.simps) (auto split: option.split)
qed

text \<open>A cache of at least two maximal test cases and three slots always has something to evict
  when it is full.\<close>

definition sized_ok :: "'r tcache \<Rightarrow> bool" where
  "sized_ok s \<longleftrightarrow> 2 * of_nat MAX_FILE \<le> max_cache_size s \<and> 3 \<le> max_cache_entries s \<and>
     (\<forall>q < length (queue_buf (corpus s)). unat (qlen s q) < MAX_FILE)"

lemma full_evictable:
  assumes ok: "cache_ok s" and sz: "sized_ok s" and q: "q < length (queue_buf (corpus s))"
    and full: "cache_full (qlen s q) s"
  shows "\<exists>i j. i \<in> live s \<and> j \<in> live s \<and> i \<noteq> j"
proof -
  have c: "counters_ok s" and b: "buffers_ok s" using ok by (simp_all add: cache_ok_def)
  have "2 \<le> card (live s)"
  proof (rule ccontr)
    assume "\<not> 2 \<le> card (live s)"
    then have one: "card (live s) \<le> 1" by simp
    have "max_cache_entries s - 1 \<le> cache_count s \<Longrightarrow> False"
      using one c sz unat_pred_u32 [of "max_cache_entries s"]
      unfolding counters_ok_def sized_ok_def word_le_nat_alt by simp linarith
    then have "max_cache_size s \<le> cache_size s + ucast (qlen s q)" using full by (auto simp: cache_full_def)
    moreover have "unat (qlen s (owner s i)) \<le> MAX_FILE" if "i \<in> live s" for i
    proof -
      have "owner s i < length (queue_buf (corpus s))" using b that unfolding buffers_ok_def by blast
      then show ?thesis using sz unfolding sized_ok_def by (meson less_imp_le)
    qed
    then have "held_bytes s \<le> card (live s) * MAX_FILE"
      using sum_bounded_above [of "live s" "\<lambda>i. unat (qlen s (owner s i))" MAX_FILE] b by (simp add: held_bytes_owner)
    then have "unat (cache_size s) \<le> MAX_FILE"
      using unat_cache_size [OF ok] mult_le_mono1 [OF one, of MAX_FILE] by linarith
    moreover have "unat (qlen s q) < MAX_FILE" using sz q by (simp add: sized_ok_def)
    ultimately show False using sz
      by (simp add: sized_ok_def word_le_nat_alt unat_word_ariths MAX_FILE_def)
  qed
  then have "\<not> card (live s) \<le> Suc 0" by simp
  then show ?thesis using card_le_Suc0_iff_eq [OF finite_live, of s] by blast
qed

lemma full_evictable_slot:
  assumes "cache_ok s" and "sized_ok s" and "q < length (queue_buf (corpus s))" and "cache_full (qlen s q) s"
  shows "\<exists>i. evictable s i"
proof -
  obtain i j where ij: "i \<in> live s" "j \<in> live s" "i \<noteq> j" using full_evictable [OF assms] by blast
  then have "owner s i \<noteq> owner s j" using assms(1) by (auto simp: cache_ok_def buffers_ok_def inj_on_def)
  then show ?thesis using ij unfolding evictable_def by (metis option.inject)
qed

lemma sized_learn:
  assumes "cache_ok s" and "sized_ok s" and "q < length (queue_buf (corpus s))" and "cache_full (qlen s q) s"
  shows "sized_ok (learn_entries junk (qlen s q) s)"
proof -
  have c: "counters_ok s" using assms(1) by (simp add: cache_ok_def)
  have "\<not> card (live s) \<le> Suc 0" using full_evictable [OF assms] card_le_Suc0_iff_eq [OF finite_live, of s] by blast
  then have "2 \<le> card (live s)" by simp
  then have "2 \<le> unat (max_cache_count s)" using c count_le [OF c] by (simp add: counters_ok_def word_le_nat_alt)
  with c have "3 \<le> max_cache_entries (learn_entries junk (qlen s q) s)"
  proof (cases rule: learn_entries_cases [of s junk "qlen s q"])
    case 1
    then show ?thesis using assms(2) by (simp add: sized_ok_def)
  next
    case 2
    then show ?thesis using \<open>2 \<le> unat (max_cache_count s)\<close> by (simp add: word_le_nat_alt)
  qed
  then show ?thesis using assms(2) by (simp add: sized_ok_def)
qed

lemma make_room_returns:
  assumes "bounded_rng below" and "fair below" and "cache_ok s" and "sized_ok s"
    and q: "q < length (queue_buf (corpus s))"
  shows "make_room below junk (qlen s q) tid s \<noteq> None"
  using assms(3-5)
proof (induction "card (live s)" arbitrary: s tid rule: less_induct)
  case less
  show ?case
  proof (cases "cache_full (qlen s q) s")
    case False
    then show ?thesis by (subst make_room.simps) simp
  next
    case True
    let ?l = "learn_entries junk (qlen s q) s"
    have c: "counters_ok s" using less.prems(1) by (simp add: cache_ok_def)
    have ok: "cache_ok ?l" using learn_ok [OF less.prems(1)] .
    have sz: "sized_ok ?l" using sized_learn [OF less.prems True] .
    obtain i where "evictable s i" using full_evictable_slot [OF less.prems True] by blast
    then have i: "evictable ?l i" using live_learn [OF c] owner_learn [OF c] by (simp add: evictable_def owner_def)
    then have im: "i < unat (max_cache_count ?l)" using ok live_less_count [of ?l i] unfolding evictable_def cache_ok_def by blast
    then have u: "unat (of_nat i :: u32) = i" using unat_lt2p [of "max_cache_count ?l"] by simp
    have "drawn below (max_cache_count ?l) (of_nat i) (prng ?l)"
      using assms(2) im u by (simp add: fair_def word_less_nat_alt)
    from pick_victim_returns [OF this assms(1) ok] obtain y where y: "pick_victim below ?l = Some y"
      using i u by (auto simp del: learn_entries_fields)
    obtain t s1 where t: "y = Inr (t, s1)" "cache_ok (evict t s1)" "only_evicts s (evict t s1)"
      "card (live (evict t s1)) < card (live s)" "same_cache ?l s1"
      using evict_turn [OF y assms(1) less.prems(1)] by blast
    have same: "corpus (evict t s1) = corpus s" using t(3) by (simp add: only_evicts_def)
    have "max_cache_entries (evict t s1) = max_cache_entries ?l" using t(5)
      by (simp add: evict_def same_cache_fields split: option.split)
    then have "sized_ok (evict t s1)" using sz t(3) by (simp add: sized_ok_def only_evicts_def)
    from less.hyps [OF t(4,2) this] have "make_room below junk (qlen s q) t (evict t s1) \<noteq> None"
      using less.prems(3) same by simp
    then show ?thesis using True y t(1) by (subst make_room.simps) simp
  qed
qed

lemma store_mem_ok:
  assumes ok: "cache_ok s" and q: "q < length (queue_buf (corpus s))" "tc_buf s q = None"
    and mem: "unat (qlen s q) \<le> length mem" and heap: "heap (unat (qlen s q)) \<noteq> None"
  shows "\<exists>s'. queue_testcase_store_mem heap q mem s = Inr s' \<and> cache_ok s' \<and>
    (if cache_full (qlen s q) s then s' = s
     else tc_buf s' = (tc_buf s)(q \<mapsto> take (unat (qlen s q)) mem) \<and> held_bytes s' < unat (max_cache_size s'))"
proof (cases "cache_full (qlen s q) s")
  case True
  then show ?thesis using ok by (simp add: queue_testcase_store_mem_def)
next
  case False
  have "counters_ok s" using ok by (simp add: cache_ok_def)
  then obtain i where i: "next_free (slots s) (unat (if max_cache_entries s \<le> max_cache_count s then smallest_free s else max_cache_count s)) = Some i"
    "i < unat (max_cache_entries s)" "i \<notin> live s"
    using slot_found [OF _ False start_ok_max] by blast
  let ?b = "take (unat (qlen s q)) mem"
  let ?s' = "register q (of_nat i) (s\<lparr>tc_buf := (tc_buf s)(q \<mapsto> ?b)\<rparr>)"
  have "queue_testcase_store_mem heap q mem s = Inr ?s'"
    using False i(1) heap mem by (simp add: queue_testcase_store_mem_def Let_def)
  moreover have "cache_ok ?s' \<and> held_bytes ?s' < unat (max_cache_size ?s')"
    by (rule fill_ok) (use ok False i q mem in simp_all)
  ultimately show ?thesis using False by simp
qed

text \<open>A cache configured with a single slot counts as full while it is empty: the search for a victim
  never ends.\<close>

lemma single_slot_stuck:
  assumes ok: "cache_ok s" and one: "max_cache_entries s = 1" "live s = {}" and q: "tc_buf s q = None" "max_cache_size s \<noteq> 0"
    and rng: "bounded_rng below"
  shows "queue_testcase_get below heap junk q s = None"
proof -
  have c: "counters_ok s" using ok by (simp add: cache_ok_def)
  have "pick_victim below (learn_entries junk (qlen s q) s) = None"
    using pick_victim_SomeD [OF _ rng counters_learn [OF c]] live_learn [OF c] one(2)
    unfolding evictable_def by (metis empty_iff not_None_eq)
  moreover have "cache_full (qlen s q) s" using one by (simp add: cache_full_def)
  ultimately have "make_room below junk (qlen s q) tid s = None" for tid by (subst make_room.simps) simp
  then show ?thesis using q by (simp add: queue_testcase_get_def)
qed

section \<open>Properties\<close>

text \<open>
  C23: a test case that is not cached is read from its file, or the program stops with a message;
  it never leaves an array. On return it is cached with its contents, the cache is consistent and
  within its budget of bytes, and no buffer of another entry has changed, except for those evicted;
  the buffer of the current entry is never among these.
\<close>

theorem queue_testcase_get_sound:
  assumes "cache_ok s" and "q < length (queue_buf (corpus s))" and "tc_buf s q = None" and "max_cache_size s \<noteq> 0"
    and "queue_testcase_get rand_below heap junk q s = Some x"
  shows "(\<exists>e. x = Inl (Cache_Stop e)) \<or> (\<exists>b s' d. x = Inr (b, s') \<and> cache_ok s' \<and> held_bytes s' < unat (max_cache_size s') \<and>
     only_evicts (s\<lparr>tc_buf := (tc_buf s)(q \<mapsto> b)\<rparr>) s' \<and> tc_buf s' q = Some b \<and>
     disk s (fname (entry (corpus s) q)) = Some d \<and> b = take (unat (qlen s q)) d)"
  by (rule get_miss [OF assms(1-4) rb.bounded_rng_axioms assms(5)])


text \<open>
  After a trim has set the length of a cached entry, \<^verbatim>\<open>queue_testcase_retake_mem\<close> makes
  the cached contents those of the trimmed input, whether they were passed in the cached buffer
  itself or in another one, and the account of the cache's size is right again.
\<close>

theorem queue_testcase_retake_mem_sound:
  assumes "cache_ok s" and "q < length (queue_buf (corpus s))" and "tc_buf s q = Some b"
    and "heap (unat n) \<noteq> None" and "unat n \<le> length (case src of None \<Rightarrow> b | Some d \<Rightarrow> d)"
  shows "\<exists>s'. queue_testcase_retake_mem heap q src n (qlen s q) (set_len q n s) = Inr s' \<and> cache_ok s' \<and>
    tc_buf s' = (tc_buf s)(q \<mapsto> take (unat n) (case src of None \<Rightarrow> b | Some d \<Rightarrow> d))"
  using assms by (rule retake_mem_ok)

section \<open>Witnesses\<close>

text \<open>A queue of three entries on disk, and a cache that has not been used. The first generator
  is that of the fuzzer, the second counts.\<close>

definition three_entries :: queue_state where
  "three_entries = add_to_queue ''q/c'' 1 False 0 None (add_to_queue ''q/b'' 2 False 0 None
     (add_to_queue ''q/a'' 3 False 0 None (empty_queue 8)))"

definition empty_cache :: "'r \<Rightarrow> u32 \<Rightarrow> 'r tcache" where
  "empty_cache r n = \<lparr>corpus = three_entries, prng = r, tc_buf = \<lambda>_. None,
     disk = (\<lambda>f. if f = ''q/a'' then Some [1, 2, 3] else if f = ''q/b'' then Some [4, 5] else Some [6]),
     max_cache_size = 2 * 1048576, max_cache_entries = n, cache_size = 0, max_cache_count = 0, cache_count = 0,
     smallest_free = 0, evictions = 0, slots = replicate (unat n) None, do_once = False,
     testcase_buf = None, splicecase_buf = None\<rparr>"

lemma three_entries: "length (queue_buf three_entries) = 3" "queue_cur three_entries = None"
  "map len (queue_buf three_entries) = [3, 2, 1]"
  by (simp_all add: three_entries_def add_to_queue_def empty_queue_def Let_def upd_entry_def)

lemma empty_cache_ok: "0 < n \<Longrightarrow> n \<le> 2 ^ 27 \<Longrightarrow> cache_ok (empty_cache r n)"
proof -
  assume n: "0 < n" "n \<le> 2 ^ 27"
  have "live (empty_cache r n) = {}" by (auto simp: live_def empty_cache_def)
  then show "cache_ok (empty_cache r n)"
    using n by (simp add: cache_ok_def counters_ok_def buffers_ok_def) (simp add: empty_cache_def)
qed

definition counting :: "nat \<Rightarrow> u32 \<Rightarrow> (u32 \<times> nat) option" where
  "counting c n = (if n \<le> 1 then Some (0, c) else Some (of_nat (c mod unat n), c + 1))"

lemma counting_bounded: "bounded_rng counting"
proof
  fix s n r s' assume *: "counting s n = Some (r, s')" "0 < n"
  then have n: "0 < unat n" by (simp add: word_less_nat_alt)
  have "s mod unat n < unat n" using n by simp
  moreover have "unat (of_nat (s mod unat n) :: u32) = s mod unat n"
    using less_trans [OF \<open>s mod unat n < unat n\<close> unat_lt2p [of n]] by simp
  ultimately show "r < n" using * by (auto simp: counting_def word_less_nat_alt split: if_splits)
qed (simp add: counting_def)

lemma counting_drawn: "1 < n \<Longrightarrow> (c + d) mod unat n = unat i \<Longrightarrow> drawn counting n i c"
proof (induction d arbitrary: c)
  case 0
  then have "counting c n = Some (i, c + 1)" by (simp add: counting_def)
  then show ?case by (rule drawn.now)
next
  case (Suc d)
  then have "drawn counting n i (c + 1)" by simp
  moreover have "counting c n = Some (of_nat (c mod unat n), c + 1)" using Suc.prems(1) by (simp add: counting_def)
  ultimately show ?case by (rule drawn.later [rotated])
qed

lemma counting_fair: "fair counting"
  unfolding fair_def
proof (intro allI impI)
  fix c :: nat and n i :: u32 assume i: "i < n"
  show "drawn counting n i c"
  proof (cases "1 < n")
    case False
    then have "n = 1" "i = 0" using i by (auto simp: word_less_nat_alt word_unat_eq_iff)
    then show ?thesis by (intro drawn.now [of counting c n i c]) (simp add: counting_def)
  next
    case True
    have "unat i < unat n" using i by (simp add: word_less_nat_alt)
    moreover have "c + (unat i + (unat n - c mod unat n)) = unat i + unat n * (c div unat n + 1)"
      using mod_less_divisor [of "unat n" c] calculation mult_div_mod_eq [of "unat n" c]
      by (simp only: distrib_left mult_1_right) linarith
    ultimately have "(c + (unat i + (unat n - c mod unat n))) mod unat n = unat i"
      by (metis mod_mult_self2 mod_less)
    then show ?thesis by (rule counting_drawn [OF True])
  qed
qed


text \<open>The first entry is cached, the limit of two slots is reached, and the second entry takes its
  place.\<close>

definition one_cached :: "rng tcache" where
  "one_cached = (empty_cache rng0 2)\<lparr>tc_buf := [0 \<mapsto> [1, 2, 3]], slots := [Some 0, None], cache_size := 3,
     cache_count := 1, max_cache_count := 1\<rparr>"

lemma three_entries_eq: "queue_buf three_entries ! 0 = \<lparr>fname = ''q/a'', len = 3, passed_det = False, was_fuzzed = False,
    var_behavior = False, favored = False, fs_redundant = False, is_ascii = False, disabled = False, fuzz_level = 0,
    n_fuzz_entry = 0, exec_us = 0, depth = 1, trace_mini = None, tc_ref = 0, mother = None\<rparr>"
  "fname (queue_buf three_entries ! Suc 0) = ''q/b''" "len (queue_buf three_entries ! Suc 0) = 2"
  by (simp_all add: three_entries_def add_to_queue_def empty_queue_def Let_def upd_entry_def nth_append)

lemma one_cached_ok: "cache_ok one_cached"
proof -
  have l: "live one_cached = {0}" by (auto simp: live_def one_cached_def empty_cache_def less_Suc_eq nth_Cons')
  have "owner one_cached 0 = 0" "qlen one_cached 0 = 3" "length (queue_buf (corpus one_cached)) = 3"
    by (simp_all add: owner_def one_cached_def empty_cache_def three_entries three_entries_eq)
  then show ?thesis
    by (auto simp: cache_ok_def counters_ok_def buffers_ok_def l split: if_splits)
      (auto simp: one_cached_def empty_cache_def word_le_nat_alt split: if_splits)
qed

lemma one_cached_get: "queue_testcase_get rand_below (\<lambda>n. Some (\<lambda>i. 0)) None 1 one_cached \<noteq> None"
proof -
  have full: "cache_full 2 one_cached" by (simp add: cache_full_def one_cached_def empty_cache_def)
  have learn: "learn_entries None 2 one_cached = one_cached"
    by (simp add: learn_entries_def one_cached_def empty_cache_def)
  have "draw_slot rand_below one_cached = Some (Inr (Some 0, one_cached))"
    by (simp add: draw_slot_def rand_below_def one_cached_def empty_cache_def three_entries)
  then have pick: "pick_victim rand_below one_cached = Some (Inr (0, one_cached))" by (subst pick_victim.simps) simp
  have "\<not> cache_full 2 (evict 0 one_cached)"
    by (simp add: cache_full_def evict_def one_cached_def empty_cache_def three_entries_eq)
  then have "make_room rand_below None 2 0 (evict 0 one_cached) = Some (Inr (0, evict 0 one_cached))"
    by (subst make_room.simps) simp
  then have "make_room rand_below None 2 t one_cached = Some (Inr (0, evict 0 one_cached))" for t
    using full learn pick by (subst make_room.simps) simp
  moreover have "corpus one_cached = three_entries" "max_cache_size one_cached \<noteq> 0" "tc_buf one_cached (Suc 0) = None"
    by (simp_all add: one_cached_def empty_cache_def)
  ultimately show ?thesis
    by (auto simp: queue_testcase_get_def three_entries_eq Let_def split: option.split sum.split)
qed

theorem queue_testcase_get_sound_witness:
  "\<exists>x. queue_testcase_get rand_below (\<lambda>n. Some (\<lambda>i. 0)) None 1 one_cached = Some x \<and>
     (\<forall>b s'. x = Inr (b, s') \<longrightarrow> cache_ok s' \<and> tc_buf s' 1 = Some [4, 5] \<and> held_bytes s' < 2097152)"
proof -
  obtain x where x: "queue_testcase_get rand_below (\<lambda>n. Some (\<lambda>i. 0)) None 1 one_cached = Some x"
    using one_cached_get by blast
  have f: "1 < length (queue_buf (corpus one_cached))" "tc_buf one_cached 1 = None" "max_cache_size one_cached \<noteq> 0"
    "disk one_cached (fname (entry (corpus one_cached) 1)) = Some [4, 5]" "qlen one_cached 1 = 2"
    "max_cache_size one_cached = 2097152"
    by (simp_all add: one_cached_def empty_cache_def three_entries three_entries_eq)
  from queue_testcase_get_sound [OF one_cached_ok f(1-3) x] f(4-6) x show ?thesis
    by (auto simp: only_evicts_def)
qed

theorem queue_testcase_retake_mem_sound_witness:
  "\<exists>s'. queue_testcase_retake_mem (\<lambda>n. Some (\<lambda>i. 0)) 0 (Some [9]) 1 3 (set_len 0 1 one_cached) = Inr s' \<and>
     tc_buf s' 0 = Some [9]"
proof -
  have f: "0 < length (queue_buf (corpus one_cached))" "tc_buf one_cached 0 = Some [1, 2, 3]" "qlen one_cached 0 = 3"
    by (simp_all add: one_cached_def empty_cache_def three_entries three_entries_eq)
  show ?thesis
    using queue_testcase_retake_mem_sound [OF one_cached_ok f(1,2), of "\<lambda>n. Some (\<lambda>i. 0)" 1 "Some [9]"] f(3) by auto
qed

end
