(* ===== verification/Trimming.thy ===== *)
theory Trimming
  imports Testcase_Cache Tmin "HOL-Library.Sublist"
begin

text \<open>
  Running the target on a test case and trimming it: \<^verbatim>\<open>write_to_testcase\<close>, \<^verbatim>\<open>write_with_gap\<close> and
  \<^verbatim>\<open>trim_case\<close> of \<^verbatim>\<open>src/afl-fuzz-run.c\<close>, \<^verbatim>\<open>afl_fsrv_write_to_testcase\<close> of
  \<^verbatim>\<open>src/afl-forkserver.c\<close> and \<^verbatim>\<open>trim_case_custom\<close> of \<^verbatim>\<open>src/afl-fuzz-mutators.c\<close>. The target
  is that of \<open>Tmin\<close>; the entry, its file and its cached copy are those of \<open>Testcase_Cache\<close>; the
  scoring at the end is that of \<open>Corpus\<close>.
\<close>

section \<open>Giving the target its input\<close>

text \<open>The target reads the test case from shared memory, from a file, or from standard input, which
  is one file that stays open. \<open>ran\<close> numbers the executions, \<open>out_fails\<close> is whether the file can
  not be created or written in full.\<close>

record runner =
  use_shmem_fuzz :: bool
  use_stdin :: bool
  shmem_fuzz :: "u8 list"
  shmem_fuzz_len :: nat
  out_file :: "u8 list"
  out_fails :: bool
  out_scratch :: "afl_alloc_buf option"
  ran :: nat
  trim_execs :: u64
  bytes_trim_in :: u64
  bytes_trim_out :: u64

definition input_of :: "runner \<Rightarrow> u8 list" where
  "input_of r = (if use_shmem_fuzz r then take (shmem_fuzz_len r) (shmem_fuzz r) else out_file r)"

text \<open>Standard input is rewound, written and cut; any other file is created anew.\<close>

definition rewrite :: "u8 list \<Rightarrow> runner \<Rightarrow> cache_stop + runner" where
  "rewrite d r =
    (if out_fails r then Inl (Cache_Stop (PFATAL ''Unable to create''))
     else if use_stdin r then Inr (r\<lparr>out_file := take (length d) (overwrite 0 d (out_file r))\<rparr>)
     else Inr (r\<lparr>out_file := overwrite 0 d []\<rparr>))"

definition into_shmem :: "u8 list \<Rightarrow> nat \<Rightarrow> runner \<Rightarrow> cache_stop + runner" where
  "into_shmem d n r =
    (if length (shmem_fuzz r) < length d then Inl Bad_Access
     else Inr (r\<lparr>shmem_fuzz := overwrite 0 d (shmem_fuzz r), shmem_fuzz_len := n\<rparr>))"

definition afl_fsrv_write_to_testcase :: "u8 list \<Rightarrow> runner \<Rightarrow> cache_stop + runner" where
  "afl_fsrv_write_to_testcase d r =
    (if use_shmem_fuzz r then into_shmem (take MAX_FILE d) (min MAX_FILE (length d)) r
     else rewrite d r)"

text \<open>The hook \<^verbatim>\<open>afl_custom_post_process\<close> of a custom mutator returns a size and a buffer, which
  may be null. The lists below hold the hooks that are installed.\<close>

type_synonym post_process = "u8 list \<Rightarrow> int \<times> u8 list option"

fun post_all :: "post_process list \<Rightarrow> u8 list \<Rightarrow> cache_stop + u8 list" where
  "post_all [] d = Inr d"
| "post_all (h # hs) d =
    (case h d of
       (n, None) \<Rightarrow> if n \<le> 0 then Inl (Cache_Stop (FATAL ''Custom_post_process failed'')) else Inl Bad_Access
     | (n, Some b) \<Rightarrow> if n < 0 \<or> int (length b) < n then Inl Bad_Access else post_all hs (take (nat n) b))"

definition write_to_testcase :: "post_process list \<Rightarrow> u8 list \<Rightarrow> runner \<Rightarrow> cache_stop + runner" where
  "write_to_testcase hooks d r = and_then (post_all hooks d) (\<lambda>d. afl_fsrv_write_to_testcase d r)"

text \<open>With a gap, the check of what a hook returns is stricter.\<close>

fun post_gap :: "post_process list \<Rightarrow> u8 list \<Rightarrow> cache_stop + u8 list" where
  "post_gap [] d = Inr d"
| "post_gap (h # hs) d =
    (case h d of
       (n, None) \<Rightarrow> Inl (Cache_Stop (FATAL ''Custom_post_process failed''))
     | (n, Some b) \<Rightarrow>
         if n \<le> 0 then Inl (Cache_Stop (FATAL ''Custom_post_process failed''))
         else if int (length b) < n then Inl Bad_Access else post_gap hs (take (nat n) b))"

text \<open>The first \<open>n\<close> bytes of \<open>mem\<close> without the \<open>skip_len\<close> bytes at \<open>skip\<close>. Into shared memory
  both halves are copied to the start of the buffer, as the code has it.\<close>

definition write_with_gap ::
    "heap \<Rightarrow> post_process list \<Rightarrow> u8 list \<Rightarrow> nat \<Rightarrow> nat \<Rightarrow> nat \<Rightarrow> runner \<Rightarrow> cache_stop + runner" where
  "write_with_gap heap hooks mem n skip skip_len r =
    (let tail_len = n - skip - skip_len;
         before = take skip mem;
         after = take tail_len (drop (skip + skip_len) mem);
         mem_trimmed = afl_realloc heap (out_scratch r) (of_nat (n - skip_len + 1));
         r = r\<lparr>out_scratch := mem_trimmed\<rparr>
     in if mem_trimmed = None then Inl (Cache_Stop (PFATAL ''alloc''))
        else if hooks = [] then
          (if use_shmem_fuzz r then and_then (into_shmem before skip r) (into_shmem after (n - skip_len))
           else rewrite (before @ after) r)
        else and_then (post_gap hooks (before @ after)) (\<lambda>d.
          if use_shmem_fuzz r then into_shmem d (length d) r else rewrite d r))"

section \<open>Trimming\<close>

definition TRIM_END_STEPS :: nat where "TRIM_END_STEPS = (1024 :: nat)"
definition TRIM_MIN_BYTES :: nat where "TRIM_MIN_BYTES = (4 :: nat)"

text \<open>What surrounds a trim: the target, the installed hooks, the allocator, the size of the map,
  the checksum of the entry (\<^verbatim>\<open>q->exec_cksum\<close>), and how its file is written: \<open>wrote k n\<close> is what
  the \<open>k\<close>-th \<^verbatim>\<open>write\<close> of \<open>n\<close> bytes returns.\<close>

record trim_env =
  tr_target :: target
  tr_hooks :: "post_process list"
  tr_heap :: heap
  tr_map_size :: nat
  tr_cksum :: u64
  no_unlink :: bool
  can_create :: bool
  wrote :: "nat \<Rightarrow> nat \<Rightarrow> int"

text \<open>What changes: \<open>q_len\<close> is the field \<^verbatim>\<open>len\<close> of the entry, which nobody else reads meanwhile.\<close>

record trim =
  in_buf :: "u8 list"
  q_len :: nat
  len_p2 :: nat
  needs_write :: bool
  clean_trace :: "u8 list"
  tr_trace :: "u8 list"
  tr_fault :: fsrv_run_result
  tr_run :: runner

definition fuzz_run_target :: "target \<Rightarrow> trim \<Rightarrow> bool \<times> trim" where
  "fuzz_run_target T s =
    (let o1 = exec T (ran (tr_run s)) (input_of (tr_run s))
     in (run_stop_soon o1 \<or> run_result o1 = FSRV_RUN_ERROR,
         s\<lparr>tr_trace := run_trace o1, tr_fault := run_result o1, tr_run := (tr_run s)\<lparr>ran := ran (tr_run s) + 1\<rparr>\<rparr>))"

text \<open>The deletion is made permanent: \<^verbatim>\<open>memmove\<close> within the buffer, whose end keeps its bytes.\<close>

definition cut :: "nat \<Rightarrow> nat \<Rightarrow> trim \<Rightarrow> trim" where
  "cut pos avail s =
    (let move_tail = q_len s - pos - avail;
         s = s\<lparr>q_len := q_len s - avail, len_p2 := pow2_len (q_len s - avail),
               in_buf := overwrite pos (take move_tail (drop (pos + avail) (in_buf s))) (in_buf s)\<rparr>
     in if needs_write s then s else s\<lparr>needs_write := True, clean_trace := tr_trace s\<rparr>)"

text \<open>The inner loop. \<open>True\<close> is the jump to \<^verbatim>\<open>abort_trimming\<close>.\<close>

partial_function (option) trim_pass :: "trim_env \<Rightarrow> nat \<Rightarrow> nat \<Rightarrow> trim \<Rightarrow> (cache_stop + bool \<times> trim) option" where
  "trim_pass E remove_len remove_pos s =
    (if \<not> remove_pos < q_len s then Some (Inr (False, s))
     else
       let trim_avail = min remove_len (q_len s - remove_pos)
       in case write_with_gap (tr_heap E) (tr_hooks E) (in_buf s) (q_len s) remove_pos trim_avail (tr_run s) of
            Inl e \<Rightarrow> Some (Inl e)
          | Inr r \<Rightarrow>
              (case fuzz_run_target (tr_target E) (s\<lparr>tr_run := r\<rparr>) of (stop, s) \<Rightarrow>
                if stop then Some (Inr (True, s))
                else
                  let s = s\<lparr>tr_run := (tr_run s)\<lparr>trim_execs := trim_execs (tr_run s) + 1\<rparr>,
                            tr_trace := classify_counts64 (tr_map_size E) (tr_trace s)\<rparr>
                  in if hash64 (tr_target E) (tr_trace s) = tr_cksum E
                     then trim_pass E remove_len remove_pos (cut remove_pos trim_avail s)
                     else trim_pass E remove_len (remove_pos + remove_len) s))"

partial_function (option) trim_rounds :: "trim_env \<Rightarrow> nat \<Rightarrow> trim \<Rightarrow> (cache_stop + bool \<times> trim) option" where
  "trim_rounds E remove_len s =
    (if \<not> max (len_p2 s div TRIM_END_STEPS) TRIM_MIN_BYTES \<le> remove_len then Some (Inr (False, s))
     else Option.bind (trim_pass E remove_len remove_len s) (\<lambda>x. case x of
       Inl e \<Rightarrow> Some (Inl e)
     | Inr (stop, s) \<Rightarrow> if stop then Some (Inr (True, s)) else trim_rounds E (remove_len div 2) s))"

text \<open>The file of the entry. The loop of the first variant passes \<^verbatim>\<open>in_buf\<close>, not what is left of
  it, to every \<^verbatim>\<open>write\<close>.\<close>

partial_function (option) write_loop :: "(nat \<Rightarrow> nat \<Rightarrow> int) \<Rightarrow> u8 list \<Rightarrow> nat \<Rightarrow> nat \<Rightarrow> u8 list \<Rightarrow> u8 list option" where
  "write_loop wr d k written file =
    (if \<not> written < length d then Some file
     else
       let result = wr k (length d - written)
       in if 0 < result then write_loop wr d (k + 1) (written + nat result) (file @ take (nat result) d)
          else write_loop wr d (k + 1) written file)"

definition save_trimmed :: "trim_env \<Rightarrow> u8 list \<Rightarrow> (cache_stop + u8 list) option" where
  "save_trimmed E d =
    (if \<not> can_create E then Some (Inl (Cache_Stop (PFATAL ''Unable to create'')))
     else if no_unlink E then map_option Inr (write_loop (wrote E) d 0 0 [])
     else if wrote E 0 (length d) \<noteq> int (length d) then Some (Inl (Cache_Stop (PFATAL ''Short write'')))
     else Some (Inr d))"

text \<open>\<open>shared\<close> is whether \<^verbatim>\<open>in_buf\<close> is the cached buffer of the entry, which then changes with it.
  The counters of the screen are left out.\<close>

definition put_back :: "nat \<Rightarrow> bool \<Rightarrow> trim \<Rightarrow> 'r tcache \<Rightarrow> 'r tcache" where
  "put_back q shared s c =
    (let c = set_len q (of_nat (q_len s)) c;
         c = c\<lparr>corpus := (corpus c)\<lparr>trace_bits := tr_trace s\<rparr>\<rparr>
     in if shared then c\<lparr>tc_buf := (tc_buf c)(q \<mapsto> in_buf s)\<rparr> else c)"

definition count_out :: "trim \<Rightarrow> trim" where
  "count_out s = s\<lparr>tr_run := (tr_run s)\<lparr>bytes_trim_out := bytes_trim_out (tr_run s) + of_nat (q_len s)\<rparr>\<rparr>"

definition finish_trim :: "trim_env \<Rightarrow> nat \<Rightarrow> bool \<Rightarrow> u32 \<Rightarrow> trim \<Rightarrow> 'r tcache \<Rightarrow> (cache_stop + trim \<times> 'r tcache) option" where
  "finish_trim E q shared orig_len s c =
    (if \<not> needs_write s then Some (Inr (count_out s, put_back q shared s c))
     else map_option (\<lambda>x. and_then x (\<lambda>file.
       let c = put_back q shared s c;
           c = c\<lparr>disk := (disk c)(fname (entry (corpus c) q) \<mapsto> file)\<rparr>
       in and_then (queue_testcase_retake_mem (tr_heap E) q (if shared then None else Some (in_buf s))
             (of_nat (q_len s)) orig_len c) (\<lambda>c.
          Inr (count_out s, c\<lparr>corpus := update_bitmap_score q ((corpus c)\<lparr>trace_bits := clean_trace s\<rparr>)\<rparr>))))
     (save_trimmed E (take (q_len s) (in_buf s))))"

text \<open>\<^verbatim>\<open>trim_case\<close> without custom trimmers; the result is the fault, the buffer and the states.\<close>

definition trim_case :: "trim_env \<Rightarrow> nat \<Rightarrow> bool \<Rightarrow> u8 list \<Rightarrow> runner \<Rightarrow> 'r tcache \<Rightarrow>
    (cache_stop + fsrv_run_result \<times> u8 list \<times> runner \<times> 'r tcache) option" where
  "trim_case E q shared mem r c =
    (let n = unat (qlen c q);
         p2 = pow2_len n;
         s = \<lparr>in_buf = mem, q_len = n, len_p2 = p2, needs_write = False, clean_trace = [], tr_trace = trace_bits (corpus c),
              tr_fault = FSRV_RUN_OK, tr_run = r\<lparr>bytes_trim_in := bytes_trim_in r + of_nat n\<rparr>\<rparr>
     in if n < 5 then Some (Inr (FSRV_RUN_OK, mem, r, c))
        else Option.bind (trim_rounds E (max (p2 div TRIM_START_STEPS) TRIM_MIN_BYTES) s) (\<lambda>x. case x of
          Inl e \<Rightarrow> Some (Inl e)
        | Inr (stop, s) \<Rightarrow>
            map_option (\<lambda>x. and_then x (\<lambda>(s, c). Inr (tr_fault s, in_buf s, tr_run s, c)))
             (if stop then Some (Inr (count_out s, put_back q shared s c))
              else finish_trim E q shared (qlen c q) s c)))"

section \<open>That a trim returns\<close>

lemma fuzz_run_target_fields [simp]:
  "q_len (snd (fuzz_run_target T s)) = q_len s" "in_buf (snd (fuzz_run_target T s)) = in_buf s"
  "len_p2 (snd (fuzz_run_target T s)) = len_p2 s" "needs_write (snd (fuzz_run_target T s)) = needs_write s"
  "clean_trace (snd (fuzz_run_target T s)) = clean_trace s"
  by (simp_all add: fuzz_run_target_def Let_def)

lemma cut_fields [simp]:
  "q_len (cut p a s) = q_len s - a" "needs_write (cut p a s)" "tr_run (cut p a s) = tr_run s"
  "tr_trace (cut p a s) = tr_trace s"
  "clean_trace (cut p a s) = (if needs_write s then clean_trace s else tr_trace s)"
  "in_buf (cut p a s) = overwrite p (take (q_len s - p - a) (drop (p + a) (in_buf s))) (in_buf s)"
  by (simp_all add: cut_def Let_def)

lemma trim_pass_returns:
  assumes "0 < remove_len"
  shows "\<exists>x. trim_pass E remove_len pos s = Some x"
proof (induction "q_len s - pos" arbitrary: pos s rule: less_induct)
  case less
  show ?case
  proof (cases "pos < q_len s")
    case False
    then show ?thesis by (subst trim_pass.simps) simp
  next
    case True
    have shorter: "q_len s - min remove_len (q_len s - pos) - pos < q_len s - pos"
      "q_len s - (pos + remove_len) < q_len s - pos"
      using assms True by (auto simp: min_def)
    have IH: "\<exists>x. trim_pass E remove_len pos' s' = Some x" if "q_len s' - pos' < q_len s - pos" for pos' s'
      using that by (rule less)
    show ?thesis
    proof (subst trim_pass.simps, cases "write_with_gap (tr_heap E) (tr_hooks E) (in_buf s) (q_len s) pos
        (min remove_len (q_len s - pos)) (tr_run s)")
      case (Inr r)
      have l: "q_len (snd (fuzz_run_target (tr_target E) (s\<lparr>tr_run := r\<rparr>))) = q_len s" by simp
      then show "\<exists>x. (if \<not> pos < q_len s then Some (Inr (False, s))
     else
       let trim_avail = min remove_len (q_len s - pos)
       in case write_with_gap (tr_heap E) (tr_hooks E) (in_buf s) (q_len s) pos trim_avail (tr_run s) of
            Inl e \<Rightarrow> Some (Inl e)
          | Inr r \<Rightarrow>
              (case fuzz_run_target (tr_target E) (s\<lparr>tr_run := r\<rparr>) of (stop, s) \<Rightarrow>
                if stop then Some (Inr (True, s))
                else
                  let s = s\<lparr>tr_run := (tr_run s)\<lparr>trim_execs := trim_execs (tr_run s) + 1\<rparr>,
                            tr_trace := classify_counts64 (tr_map_size E) (tr_trace s)\<rparr>
                  in if hash64 (tr_target E) (tr_trace s) = tr_cksum E
                     then trim_pass E remove_len pos (cut pos trim_avail s)
                     else trim_pass E remove_len (pos + remove_len) s)) = Some x"
        using True Inr IH shorter by (cases "fuzz_run_target (tr_target E) (s\<lparr>tr_run := r\<rparr>)") (simp add: Let_def)
    qed (use True in simp)
  qed
qed

lemma trim_rounds_returns: "\<exists>x. trim_rounds E remove_len s = Some x"
proof (induction remove_len arbitrary: s rule: less_induct)
  case (less remove_len)
  show ?case
  proof (cases "max (len_p2 s div TRIM_END_STEPS) TRIM_MIN_BYTES \<le> remove_len")
    case False
    then show ?thesis by (subst trim_rounds.simps) simp
  next
    case True
    then have "0 < remove_len" by (simp add: TRIM_MIN_BYTES_def)
    with less trim_pass_returns [of remove_len E remove_len s] show ?thesis
      by (subst trim_rounds.simps) (auto split: sum.splits)
  qed
qed

text \<open>Writing goes on for ever unless some later call makes progress.\<close>

definition makes_progress :: "(nat \<Rightarrow> nat \<Rightarrow> int) \<Rightarrow> bool" where
  "makes_progress wr \<longleftrightarrow> (\<forall>k n. 0 < n \<longrightarrow> (\<exists>j. 0 < wr (k + j) n))"

lemma write_loop_returns:
  assumes "makes_progress wr"
  shows "\<exists>x. write_loop wr d k written out = Some x"
proof (induction "length d - written" arbitrary: k written out rule: less_induct)
  case less
  show ?case
  proof (cases "written < length d")
    case False
    then show ?thesis by (subst write_loop.simps) simp
  next
    case True
    obtain j where j: "0 < wr (k + j) (length d - written)"
      using assms True unfolding makes_progress_def by (metis zero_less_diff)
    have "\<exists>x. write_loop wr d k' written out = Some x" if "0 < wr (k' + i) (length d - written)" for i k'
      using that
    proof (induction i arbitrary: k')
      case 0
      then show ?case using True less [of "written + nat (wr k' (length d - written))"]
        by (subst write_loop.simps) (simp add: Let_def)
    next
      case (Suc i)
      show ?case
      proof (cases "0 < wr k' (length d - written)")
        case True
        then show ?thesis using \<open>written < length d\<close> less [of "written + nat (wr k' (length d - written))"]
          by (subst write_loop.simps) (simp add: Let_def)
      next
        case False
        then show ?thesis using \<open>written < length d\<close> Suc.IH [of "k' + 1"] Suc.prems
          by (subst write_loop.simps) (simp add: Let_def)
      qed
    qed
    then show ?thesis using j by blast
  qed
qed

lemma save_trimmed_returns: "makes_progress (wrote E) \<or> \<not> no_unlink E \<Longrightarrow> \<exists>x. save_trimmed E d = Some x"
  using write_loop_returns [of "wrote E" d 0 0 "[]"] by (auto simp: save_trimmed_def)

lemma trim_case_total:
  assumes "makes_progress (wrote E) \<or> \<not> no_unlink E"
  shows "\<exists>x. trim_case E q shared mem r c = Some x"
proof -
  have f: "\<exists>x. finish_trim E q shared m s c = Some x" for m s
    using save_trimmed_returns [OF assms, of "take (q_len s) (in_buf s)"] by (auto simp: finish_trim_def)
  define s0 where "s0 = \<lparr>in_buf = mem, q_len = unat (qlen c q), len_p2 = pow2_len (unat (qlen c q)), needs_write = False,
    clean_trace = [], tr_trace = trace_bits (corpus c), tr_fault = FSRV_RUN_OK,
    tr_run = r\<lparr>bytes_trim_in := bytes_trim_in r + of_nat (unat (qlen c q))\<rparr>\<rparr>"
  obtain x where x: "trim_rounds E (max (pow2_len (unat (qlen c q)) div TRIM_START_STEPS) TRIM_MIN_BYTES) s0 = Some x"
    using trim_rounds_returns by blast
  show ?thesis
  proof (cases x)
    case (Inl e)
    then show ?thesis using x by (simp add: trim_case_def Let_def s0_def [symmetric] del: of_nat_unat)
  next
    case (Inr p)
    obtain stop s where p: "p = (stop, s)" by (cases p)
    obtain y where "finish_trim E q shared (qlen c q) s c = Some y" using f by blast
    then show ?thesis using x Inr p by (simp add: trim_case_def Let_def s0_def [symmetric] del: of_nat_unat)
  qed
qed

section \<open>What a full write leaves, and what a partial one does\<close>

lemma write_loop_full: "wr 0 (length d) = int (length d) \<Longrightarrow> write_loop wr d 0 0 [] = Some d"
proof -
  assume w: "wr 0 (length d) = int (length d)"
  have "write_loop wr d k (length d) x = Some x" for k x by (subst write_loop.simps) simp
  then show ?thesis using w by (subst write_loop.simps) (auto simp: Let_def)
qed

lemma write_loop_partial:
  "write_loop (\<lambda>k n. if k = 0 then 2 else int n) [1, 2, 3, 4] 0 0 [] = Some [1, 2, 1, 2]"
  by (simp add: write_loop.simps)

section \<open>What a trim keeps\<close>

definition without :: "nat \<Rightarrow> nat \<Rightarrow> u8 list \<Rightarrow> u8 list" where
  "without p a d = take p d @ drop (p + a) d"

lemma subseq_without: "subseq (without p a d) d"
proof -
  have "subseq (drop a (drop p d)) (drop p d)" by (rule suffix_imp_subseq [OF suffix_drop])
  then have "subseq (take p d @ drop a (drop p d)) (take p d @ drop p d)" by (simp only: subseq_append')
  then show ?thesis by (simp add: without_def add.commute)
qed

lemma take_without: "k \<le> p \<Longrightarrow> p \<le> length d \<Longrightarrow> take k (without p a d) = take k d"
  by (simp add: without_def min_def)

lemma gap_contents:
  assumes "p + a \<le> n" and "n \<le> length mem"
  shows "take p mem @ take (n - p - a) (drop (p + a) mem) = without p a (take n mem)"
    and "take (n - a) (overwrite p (take (n - p - a) (drop (p + a) mem)) mem) = without p a (take n mem)"
proof -
  have "take p (take n mem) = take p mem" "drop (p + a) (take n mem) = take (n - p - a) (drop (p + a) mem)"
    using assms(1) by (simp_all add: drop_take min_absorb1)
  then show e: "take p mem @ take (n - p - a) (drop (p + a) mem) = without p a (take n mem)"
    by (simp only: without_def)
  have l: "length (take p mem @ take (n - p - a) (drop (p + a) mem)) = n - a" using assms by simp
  have "overwrite p t mem = (take p mem @ t) @ drop (p + length t) mem" for t by (simp add: overwrite_def)
  then show "take (n - a) (overwrite p (take (n - p - a) (drop (p + a) mem)) mem) = without p a (take n mem)"
    using l e by (metis append_eq_conv_conj)
qed

definition files_only :: "runner \<Rightarrow> bool" where
  "files_only r \<longleftrightarrow> \<not> use_shmem_fuzz r \<and> \<not> out_fails r"

lemma rewrite_file:
  assumes "files_only r"
  shows "\<exists>r'. rewrite d r = Inr r' \<and> input_of r' = d \<and> files_only r' \<and> ran r' = ran r"
  using assms by (cases "use_stdin r") (simp_all add: rewrite_def files_only_def input_of_def overwrite_def)

text \<open>The setting of the theorems: no hooks, memory, files instead of shared memory, and a target
  that runs to its end and always fills the map.\<close>

definition runs_fine :: "trim_env \<Rightarrow> bool" where
  "runs_fine E \<longleftrightarrow> tr_hooks E = [] \<and> (\<forall>n. tr_heap E n \<noteq> None) \<and> steady (tr_target E) \<and>
     (\<forall>k d. \<not> run_stop_soon (exec (tr_target E) k d) \<and> run_result (exec (tr_target E) k d) \<noteq> FSRV_RUN_ERROR \<and>
        length (run_trace (exec (tr_target E) k d)) = tr_map_size E)"

definition shown :: "trim_env \<Rightarrow> u8 list \<Rightarrow> u8 list" where
  "shown E d = classify_counts64 (tr_map_size E) (run_trace (exec (tr_target E) 0 d))"

lemma write_with_gap_file:
  assumes "\<forall>n. heap n \<noteq> None" and "files_only r" and "p + a \<le> n" and "n \<le> length mem" and "n \<le> MAX_FILE"
  shows "\<exists>r'. write_with_gap heap [] mem n p a r = Inr r' \<and> input_of r' = without p a (take n mem) \<and>
    files_only r' \<and> ran r' = ran r"
proof -
  have "n - a + 1 < 2 ^ 63" using assms(5) by (simp add: MAX_FILE_def)
  then have "unat (of_nat (n - a + 1) + 8 :: u64) = n - a + 9" by (simp add: unat_plus_if')
  then have "(of_nat (n - a + 1) + 8 :: u64) \<noteq> 0" by fastforce
  then obtain m where m: "afl_realloc heap (out_scratch r) (of_nat (n - a + 1)) = Some m"
    using afl_realloc_total [of heap "out_scratch r" "of_nat (n - a + 1)"] assms(1) by blast
  have f: "files_only (r\<lparr>out_scratch := Some m\<rparr>)" using assms(2) by (simp add: files_only_def)
  from rewrite_file [OF f, of "without p a (take n mem)"] show ?thesis
    using m assms(2) gap_contents(1) [OF assms(3,4)] by (simp add: write_with_gap_def Let_def files_only_def)
qed

definition trimmed :: "trim_env \<Rightarrow> u8 list \<Rightarrow> trim \<Rightarrow> bool" where
  "trimmed E d s \<longleftrightarrow> length (in_buf s) = length d \<and> q_len s \<le> length d \<and> files_only (tr_run s) \<and>
     length (tr_trace s) = tr_map_size E \<and> subseq (take (q_len s) (in_buf s)) d \<and>
     take TRIM_MIN_BYTES (take (q_len s) (in_buf s)) = take TRIM_MIN_BYTES d \<and>
     (if needs_write s then hash64 (tr_target E) (shown E (take (q_len s) (in_buf s))) = tr_cksum E \<and>
        hash64 (tr_target E) (clean_trace s) = tr_cksum E \<and> length (clean_trace s) = tr_map_size E
      else in_buf s = d \<and> q_len s = length d)"

lemma length_classify64: "length t = n \<Longrightarrow> length (classify_counts64 n t) = n"
  by (subst classify_counts64_map) auto

lemma cut_trimmed:
  assumes "trimmed E d s" and "TRIM_MIN_BYTES \<le> p" and "p + a \<le> q_len s"
    and "hash64 (tr_target E) (shown E (without p a (take (q_len s) (in_buf s)))) = tr_cksum E"
    and "hash64 (tr_target E) (tr_trace s) = tr_cksum E"
  shows "trimmed E d (cut p a s)"
proof -
  have n: "q_len s \<le> length (in_buf s)" using assms(1) by (simp add: trimmed_def)
  have L: "length (in_buf s) = length d" "q_len s \<le> length d" using assms(1) by (simp_all add: trimmed_def)
  have c: "take (q_len s - a) (overwrite p (take (q_len s - p - a) (drop (p + a) (in_buf s))) (in_buf s))
      = without p a (take (q_len s) (in_buf s))" by (rule gap_contents(2) [OF assms(3) n])
  have "subseq (without p a (take (q_len s) (in_buf s))) d"
    using subseq_without assms(1) unfolding trimmed_def by (meson subseq_order.trans)
  moreover have "take TRIM_MIN_BYTES (without p a (take (q_len s) (in_buf s))) = take TRIM_MIN_BYTES d"
    using take_without [OF assms(2), of "take (q_len s) (in_buf s)" a] assms(1,3) n by (simp add: trimmed_def)
  moreover define s' where "s' = cut p a s"
  moreover have "take (q_len s') (in_buf s') = without p a (take (q_len s) (in_buf s))"
    unfolding s'_def cut_fields by (rule c)
  moreover have "length (in_buf s') = length d"
    unfolding s'_def cut_fields by (subst length_overwrite) (use assms(3) n L in auto)
  moreover have "q_len s' \<le> length d" "needs_write s'" "tr_run s' = tr_run s" "tr_trace s' = tr_trace s"
    "clean_trace s' = (if needs_write s then clean_trace s else tr_trace s)"
    using L by (simp_all add: s'_def)
  ultimately show ?thesis using assms(1,4,5) unfolding trimmed_def by (simp del: take_take)
qed

lemma trim_pass_keeps:
  assumes fine: "runs_fine E" and "0 < remove_len" and d: "length d \<le> MAX_FILE"
  shows "TRIM_MIN_BYTES \<le> pos \<Longrightarrow> trimmed E d s \<Longrightarrow>
    \<exists>s'. trim_pass E remove_len pos s = Some (Inr (False, s')) \<and> trimmed E d s'"
proof (induction "q_len s - pos" arbitrary: pos s rule: less_induct)
  case less
  note t = less.prems(2)
  show ?case
  proof (cases "pos < q_len s")
    case False
    then show ?thesis using t by (subst trim_pass.simps) simp
  next
    case True
    define a where "a = min remove_len (q_len s - pos)"
    have a: "0 < a" "pos + a \<le> q_len s" using assms(2) True by (auto simp: a_def min_def)
    have n: "q_len s \<le> length (in_buf s)" "q_len s \<le> MAX_FILE" using t d by (simp_all add: trimmed_def)
    let ?w = "without pos a (take (q_len s) (in_buf s))"
    obtain r where r: "write_with_gap (tr_heap E) (tr_hooks E) (in_buf s) (q_len s) pos a (tr_run s) = Inr r"
      "input_of r = ?w" "files_only r" "ran r = ran (tr_run s)"
      using write_with_gap_file [OF _ _ a(2) n, of "tr_heap E" "tr_run s"] fine t by (auto simp: runs_fine_def trimmed_def)
    define o1 where "o1 = exec (tr_target E) (ran r) ?w"
    have tr: "run_trace o1 = run_trace (exec (tr_target E) 0 ?w)"
      using fine by (simp add: o1_def runs_fine_def steady_def)
    have stop: "\<not> run_stop_soon o1" "run_result o1 \<noteq> FSRV_RUN_ERROR" using fine by (simp_all add: o1_def runs_fine_def)
    have hooks: "tr_hooks E = []" using fine by (simp add: runs_fine_def)
    have len: "length (run_trace o1) = tr_map_size E" using fine by (simp add: o1_def runs_fine_def)
    define r1 where "r1 = r\<lparr>ran := ran r + 1, trim_execs := trim_execs r + 1\<rparr>"
    define s1 where "s1 = s\<lparr>tr_fault := run_result o1, tr_run := r1, tr_trace := shown E ?w\<rparr>"
    have s1: "q_len s1 = q_len s" "in_buf s1 = in_buf s" "tr_trace s1 = shown E ?w" by (simp_all add: s1_def)
    have "length (shown E ?w) = tr_map_size E" using len tr by (simp add: shown_def length_classify64)
    then have t1: "trimmed E d s1"
      using t r(3) by (simp add: trimmed_def s1_def files_only_def r1_def)
    have unf: "trim_pass E remove_len pos s =
        (if hash64 (tr_target E) (shown E ?w) = tr_cksum E then trim_pass E remove_len pos (cut pos a s1)
         else trim_pass E remove_len (pos + remove_len) s1)"
      using True r(1,2) stop hooks
      by (subst trim_pass.simps)
        (simp add: Let_def a_def [symmetric] fuzz_run_target_def o1_def [symmetric] s1_def r1_def shown_def tr [symmetric])
    show ?thesis
    proof (cases "hash64 (tr_target E) (shown E ?w) = tr_cksum E")
      case True
      have "trimmed E d (cut pos a s1)"
        by (rule cut_trimmed [OF t1 less.prems(1)]) (use a True s1 in simp_all)
      moreover have "q_len (cut pos a s1) - pos < q_len s - pos" using a s1 by simp
      ultimately show ?thesis using less.hyps [of "cut pos a s1" pos] less.prems(1) True unf by simp
    next
      case False
      have "q_len s1 - (pos + remove_len) < q_len s - pos" using a assms(2) s1 by simp
      then show ?thesis using less.hyps [of s1 "pos + remove_len"] less.prems(1) False unf t1 by simp
    qed
  qed
qed

lemma trim_rounds_keeps:
  assumes "runs_fine E" and "length d \<le> MAX_FILE"
  shows "trimmed E d s \<Longrightarrow> \<exists>s'. trim_rounds E remove_len s = Some (Inr (False, s')) \<and> trimmed E d s'"
proof (induction remove_len arbitrary: s rule: less_induct)
  case (less remove_len)
  show ?case
  proof (cases "max (len_p2 s div TRIM_END_STEPS) TRIM_MIN_BYTES \<le> remove_len")
    case False
    then show ?thesis using less.prems by (subst trim_rounds.simps) simp
  next
    case True
    then have l: "0 < remove_len" "TRIM_MIN_BYTES \<le> remove_len" by (simp_all add: TRIM_MIN_BYTES_def)
    obtain s1 where s1: "trim_pass E remove_len remove_len s = Some (Inr (False, s1))" "trimmed E d s1"
      using trim_pass_keeps [OF assms(1) l(1) assms(2) l(2) less.prems] by blast
    then show ?thesis using less.IH [of "remove_len div 2" s1] l True by (subst trim_rounds.simps) simp
  qed
qed

section \<open>The cache and the queue around a trim\<close>

lemma buffers_dom: "buffers_ok c \<Longrightarrow> dom (tc_buf c) \<subseteq> {..<length (queue_buf (corpus c))}"
  unfolding buffers_ok_def by metis

lemma cache_ok_corpus:
  assumes "cache_ok c" and "length (queue_buf (corpus c)) \<le> length (queue_buf k)"
    and "\<And>p. p \<in> dom (tc_buf c) \<Longrightarrow> len (entry k p) = qlen c p"
  shows "cache_ok (c\<lparr>corpus := k\<rparr>)"
proof -
  let ?c = "c\<lparr>corpus := k\<rparr>"
  have l: "live ?c = live c" "owner ?c = owner c" by (simp_all add: live_def owner_def fun_eq_iff)
  have b: "buffers_ok c" "counters_ok c" using assms(1) by (simp_all add: cache_ok_def)
  have "owner c ` live c = dom (tc_buf c)" using b(1) by (simp add: buffers_ok_def)
  then have "len (entry k (owner c i)) = qlen c (owner c i)" if "i \<in> live c" for i
    using that assms(3) by blast
  then have "(\<Sum>i \<in> live c. ucast (len (entry k (owner c i)))) = (\<Sum>i \<in> live c. ucast (qlen c (owner c i)) :: u64)"
    by (intro sum.cong) simp_all
  then have "counters_ok ?c" using b(2) unfolding counters_ok_def l by simp
  moreover have "length b = unat (len (entry k p))" if "tc_buf c p = Some b" for p b
    using b(1) assms(3) [OF domI [of "tc_buf c" p b]] that by (auto simp: buffers_ok_def)
  moreover have "owner c ` live c \<subseteq> {..<length (queue_buf k)}" using b(1) assms(2) by (fastforce simp: buffers_ok_def)
  ultimately have "counters_ok ?c \<and> buffers_ok ?c" using b(1) unfolding buffers_ok_def l by simp
  then show ?thesis by (simp add: cache_ok_def)
qed

lemma cache_ok_same_buf:
  "cache_ok c \<Longrightarrow> tc_buf c q = Some b \<Longrightarrow> length b' = length b \<Longrightarrow> cache_ok (c\<lparr>tc_buf := (tc_buf c)(q \<mapsto> b')\<rparr>)"
proof -
  let ?c = "c\<lparr>tc_buf := (tc_buf c)(q \<mapsto> b')\<rparr>"
  assume c: "cache_ok c" and b: "tc_buf c q = Some b" "length b' = length b"
  have l: "live ?c = live c" "owner ?c = owner c" by (simp_all add: live_def owner_def fun_eq_iff)
  have "dom (tc_buf ?c) = dom (tc_buf c)" using b(1) by auto
  moreover have "dom (tc_buf c) \<subseteq> {..<length (queue_buf (corpus c))}" using c by (simp add: cache_ok_def buffers_dom)
  ultimately show ?thesis using c b unfolding cache_ok_def counters_ok_def buffers_ok_def l by simp
qed

lemma cache_ok_disk [simp]: "cache_ok (c\<lparr>disk := d\<rparr>) = cache_ok c"
proof -
  have l: "live (c\<lparr>disk := d\<rparr>) = live c" "owner (c\<lparr>disk := d\<rparr>) = owner c" by (simp_all add: live_def owner_def fun_eq_iff)
  show ?thesis unfolding cache_ok_def counters_ok_def buffers_ok_def l by simp
qed

lemma set_len_trace: "set_len q n (c\<lparr>corpus := (corpus c)\<lparr>trace_bits := t\<rparr>\<rparr>) =
    (set_len q n c)\<lparr>corpus := (corpus (set_len q n c))\<lparr>trace_bits := t\<rparr>\<rparr>"
  by (simp add: set_len_def upd_entry_def)

lemma set_len_queue_ok:
  assumes "queue_ok (corpus c)"
  shows "queue_ok (corpus (set_len q n c))"
  using upd_entry_queue_ok [of "corpus c" "\<lambda>e. e\<lparr>len := n\<rparr>" q] assms by (simp add: queue_ok_def set_len_def)

lemma score_corpus:
  assumes "queue_ok k" and "q < length (queue_buf k)" and "length t = map_size k"
  shows "queue_ok (update_bitmap_score q (k\<lparr>trace_bits := t\<rparr>)) \<and> same_scores (k\<lparr>trace_bits := t\<rparr>) (update_bitmap_score q (k\<lparr>trace_bits := t\<rparr>))"
proof -
  let ?k = "k\<lparr>trace_bits := t\<rparr>"
  have k: "queue_ok ?k" by (rule queue_step_ok [OF queue_step.run [OF assms(3)] assms(1)])
  then have "queue_ok (update_bitmap_score q ?k)" by (rule queue_step_ok [OF queue_step.score, rotated]) (use assms in simp)
  moreover have "same_scores ?k (update_bitmap_score q ?k)"
    using score_fold_top [of ?k q "map_size ?k" "fav_factor ?k q" "fuzz_p2_of ?k q"] k assms(2)
    by (simp add: update_bitmap_score_def queue_ok_def Let_def)
  ultimately show ?thesis ..
qed

lemma save_trimmed_full: "can_create E \<Longrightarrow> \<forall>n. wrote E 0 n = int n \<Longrightarrow> save_trimmed E d = Some (Inr d)"
  by (simp add: save_trimmed_def write_loop_full)

text \<open>What the entry, its file and its cached contents are after a trim that left the buffer \<open>mem'\<close>.\<close>

definition trim_result :: "trim_env \<Rightarrow> nat \<Rightarrow> u8 list \<Rightarrow> u8 list \<Rightarrow> 'r tcache \<Rightarrow> 'r tcache \<Rightarrow> bool" where
  "trim_result E q mem mem' c c' \<longleftrightarrow>
    (let d = take (unat (qlen c' q)) mem'
     in cache_ok c' \<and> queue_ok (corpus c') \<and> subseq d mem \<and> take TRIM_MIN_BYTES d = take TRIM_MIN_BYTES mem \<and>
        tc_buf c' = (if tc_buf c q = None then tc_buf c else (tc_buf c)(q \<mapsto> d)) \<and>
        (d = mem \<and> disk c' = disk c \<or>
         hash64 (tr_target E) (shown E d) = tr_cksum E \<and> disk c' = (disk c)(fname (entry (corpus c) q) \<mapsto> d) \<and>
         hash64 (tr_target E) (trace_bits (corpus c')) = tr_cksum E))"

lemma put_back_untrimmed:
  assumes "q < length (queue_buf (corpus c))" and "of_nat (q_len s) = qlen c q"
    and "if shared then tc_buf c q = Some (in_buf s) else True"
  shows "put_back q shared s c = c\<lparr>corpus := (corpus c)\<lparr>trace_bits := tr_trace s\<rparr>\<rparr>"
proof -
  have "set_len q (qlen c q) c = c" by (simp add: set_len_def upd_entry_def)
  then show ?thesis using assms by (auto simp: put_back_def Let_def fun_upd_idem)
qed

lemma trim_result_untrimmed:
  assumes ok: "cache_ok c" "queue_ok (corpus c)" and q: "q < length (queue_buf (corpus c))"
    and m: "length mem = unat (qlen c q)" and b: "tc_buf c q = Some mem \<or> tc_buf c q = None"
    and t: "length t = map_size (corpus c)"
  shows "trim_result E q mem mem c (c\<lparr>corpus := (corpus c)\<lparr>trace_bits := t\<rparr>\<rparr>)"
proof -
  have "queue_ok ((corpus c)\<lparr>trace_bits := t\<rparr>)" by (rule queue_step_ok [OF queue_step.run [OF t] ok(2)])
  moreover have "cache_ok (c\<lparr>corpus := (corpus c)\<lparr>trace_bits := t\<rparr>\<rparr>)" by (rule cache_ok_corpus [OF ok(1)]) simp_all
  ultimately show ?thesis using m b by (auto simp: trim_result_def Let_def fun_upd_idem)
qed

text \<open>The entry after its length, its trace and its file have been replaced.\<close>

lemma trim_result_trimmed:
  fixes c :: "'r tcache"
  assumes ok: "cache_ok c" "queue_ok (corpus c)" and q: "q < length (queue_buf (corpus c))"
    and m: "length mem = unat (qlen c q)" and b: "tc_buf c q = Some mem \<or> tc_buf c q = None \<and> \<not> shared"
    and t: "length (tr_trace s) = map_size (corpus c)" and E: "tr_map_size E = map_size (corpus c)" "\<forall>n. tr_heap E n \<noteq> None"
    and s: "trimmed E mem s" "needs_write s" and w: "can_create E" "\<forall>n. wrote E 0 n = int n"
  shows "\<exists>c'. finish_trim E q shared (qlen c q) s c = Some (Inr (count_out s, c')) \<and> trim_result E q mem (in_buf s) c c'"
proof -
  define n :: u32 where "n = of_nat (q_len s)"
  define d where "d = take (q_len s) (in_buf s)"
  have qn: "q_len s \<le> length mem" "length (in_buf s) = length mem" using s(1) by (simp_all add: trimmed_def)
  then have un: "unat n = q_len s" using m unat_lt2p [of "qlen c q"] by (simp add: n_def)
  define base where "base = c\<lparr>corpus := (corpus c)\<lparr>trace_bits := tr_trace s\<rparr>,
    tc_buf := (if shared then (tc_buf c)(q \<mapsto> in_buf s) else tc_buf c), disk := (disk c)(fname (entry (corpus c) q) \<mapsto> d)\<rparr>"
  have base: "corpus base = (corpus c)\<lparr>trace_bits := tr_trace s\<rparr>" by (simp add: base_def)
  have c1: "cache_ok (c\<lparr>corpus := (corpus c)\<lparr>trace_bits := tr_trace s\<rparr>\<rparr>)" by (rule cache_ok_corpus [OF ok(1)]) simp_all
  have base_ok: "cache_ok base"
  proof (cases shared)
    case True
    then have "tc_buf c q = Some mem" using b by simp
    then have "cache_ok (c\<lparr>corpus := (corpus c)\<lparr>trace_bits := tr_trace s\<rparr>, tc_buf := (tc_buf c)(q \<mapsto> in_buf s)\<rparr>)"
      using cache_ok_same_buf [OF c1, of q mem "in_buf s"] qn by simp
    then have "cache_ok (c\<lparr>corpus := (corpus c)\<lparr>trace_bits := tr_trace s\<rparr>, tc_buf := (tc_buf c)(q \<mapsto> in_buf s)\<rparr>
      \<lparr>disk := (disk c)(fname (entry (corpus c) q) \<mapsto> d)\<rparr>)" by (simp only: cache_ok_disk)
    then show ?thesis using True by (simp add: base_def)
  next
    case False
    have "base = c\<lparr>corpus := (corpus c)\<lparr>trace_bits := tr_trace s\<rparr>\<rparr>\<lparr>disk := (disk c)(fname (entry (corpus c) q) \<mapsto> d)\<rparr>"
      using False by (simp add: base_def)
    then show ?thesis using c1 by (simp only: cache_ok_disk)
  qed
  have put: "(put_back q shared s c)\<lparr>disk := (disk (put_back q shared s c))
      (fname (entry (corpus (put_back q shared s c)) q) \<mapsto> d)\<rparr> = set_len q n base"
    using q by (simp add: put_back_def Let_def set_len_def upd_entry_def base_def n_def)
  define e where "e = (if shared then None else Some (in_buf s))"
  have shorter: "unat n \<le> length (in_buf s)" using un qn by simp
  obtain c3 where c3: "queue_testcase_retake_mem (tr_heap E) q e n (qlen c q) (set_len q n base) = Inr c3"
    "cache_ok c3" "corpus c3 = corpus (set_len q n base)" "disk c3 = disk base"
    "tc_buf c3 = (if tc_buf c q = None then tc_buf c else (tc_buf c)(q \<mapsto> d))"
  proof (cases "tc_buf c q")
    case None
    then have s0: "\<not> shared" "tc_buf base = tc_buf c" using b by (simp_all add: base_def)
    have "cache_ok (base\<lparr>corpus := upd_entry q (\<lambda>e. e\<lparr>len := n\<rparr>) (corpus base)\<rparr>)"
    proof (rule cache_ok_corpus [OF base_ok])
      fix p assume "p \<in> dom (tc_buf base)"
      then have "p \<noteq> q" using None s0 by auto
      then show "len (entry (upd_entry q (\<lambda>e. e\<lparr>len := n\<rparr>) (corpus base)) p) = qlen base p" by (simp add: upd_entry_def)
    qed simp
    then have "cache_ok (set_len q n base)" by (simp add: set_len_def)
    moreover have "queue_testcase_retake_mem (tr_heap E) q e n (qlen c q) (set_len q n base) = Inr (set_len q n base)"
      using None s0 by (simp add: queue_testcase_retake_mem_def)
    ultimately show ?thesis using that [of "set_len q n base"] None s0 by (simp add: set_len_def)
  next
    case (Some b0)
    define b1 where "b1 = (if shared then in_buf s else mem)"
    have b1: "tc_buf base q = Some b1" using b Some by (simp add: base_def b1_def)
    have "take (unat n) (case e of None \<Rightarrow> b1 | Some x \<Rightarrow> x) = d" by (simp add: e_def b1_def d_def un)
    moreover have "unat n \<le> length (case e of None \<Rightarrow> b1 | Some x \<Rightarrow> x)" using shorter by (simp add: e_def b1_def)
    ultimately have "queue_testcase_retake_mem (tr_heap E) q e n (qlen base q) (set_len q n base) =
        Inr ((set_len q n base)\<lparr>tc_buf := (tc_buf base)(q \<mapsto> d), cache_size := cache_size base + ucast n - ucast (qlen base q)\<rparr>)"
      using retake_mem_eq [OF base_ok _ b1, of "tr_heap E" n e] q E(2) by (simp add: base)
    moreover have "cache_ok ((set_len q n base)\<lparr>tc_buf := (tc_buf base)(q \<mapsto> d), cache_size := cache_size base + ucast n - ucast (qlen base q)\<rparr>)"
      by (rule replace_ok [OF base_ok]) (use q b1 un qn in \<open>simp_all add: base d_def\<close>)
    moreover have "(tc_buf base)(q \<mapsto> d) = (tc_buf c)(q \<mapsto> d)" by (simp add: base_def)
    moreover have "qlen base q = qlen c q" by (simp add: base)
    ultimately show ?thesis using that Some by (simp add: set_len_def)
  qed
  define k where "k = corpus c3"
  have k: "queue_ok k" "length (queue_buf k) = length (queue_buf (corpus c))" "map_size k = map_size (corpus c)" "len (entry k q) = n"
  proof -
    have "queue_ok (corpus base)" unfolding base by (rule queue_step_ok [OF queue_step.run [OF t] ok(2)])
    then show "queue_ok k" unfolding k_def c3(3) by (rule set_len_queue_ok)
  qed (use q in \<open>simp_all add: k_def c3(3) base set_len_def upd_entry_def\<close>)
  have ct: "length (clean_trace s) = map_size k" using s E(1) k(3) by (simp add: trimmed_def)
  define k' where "k' = update_bitmap_score q (k\<lparr>trace_bits := clean_trace s\<rparr>)"
  have k': "queue_ok k'" "same_scores (k\<lparr>trace_bits := clean_trace s\<rparr>) k'"
    using score_corpus [OF k(1) _ ct, of q] q k(2) by (simp_all add: k'_def)
  have lens: "length (queue_buf k') = length (queue_buf k)" "\<And>p. p < length (queue_buf k) \<Longrightarrow> len (entry k' p) = len (entry k p)"
    "trace_bits k' = clean_trace s" using k'(2) by (simp_all add: same_scores_def)
  define c' where "c' = c3\<lparr>corpus := k'\<rparr>"
  have "cache_ok c'" unfolding c'_def
  proof (rule cache_ok_corpus [OF c3(2)])
    fix p assume "p \<in> dom (tc_buf c3)"
    moreover have "dom (tc_buf c3) \<subseteq> {..<length (queue_buf (corpus c3))}" using c3(2) by (simp add: cache_ok_def buffers_dom)
    ultimately have "p < length (queue_buf k)" by (auto simp: k_def)
    then show "len (entry k' p) = qlen c3 p" using lens(2) [of p] by (simp add: k_def)
  qed (simp add: lens k_def)
  moreover have "qlen c' q = n" "corpus c' = k'" "disk c' = (disk c)(fname (entry (corpus c) q) \<mapsto> d)" "tc_buf c' = tc_buf c3"
    using lens(2) [of q] k q c3(4) by (simp_all add: c'_def base_def)
  moreover have "subseq d mem" "take TRIM_MIN_BYTES d = take TRIM_MIN_BYTES mem" "hash64 (tr_target E) (shown E d) = tr_cksum E"
    "hash64 (tr_target E) (clean_trace s) = tr_cksum E"
    using s by (simp_all add: trimmed_def d_def)
  moreover have "d = take (unat n) (in_buf s)" by (simp add: d_def un)
  ultimately have "trim_result E q mem (in_buf s) c c'"
    unfolding trim_result_def Let_def using k'(1) c3(5) lens(3) by simp
  moreover have "finish_trim E q shared (qlen c q) s c = Some (Inr (count_out s, c'))"
    using s(2) save_trimmed_full [OF w] put c3(1)
    by (simp add: finish_trim_def Let_def d_def [symmetric] e_def [symmetric] n_def [symmetric] k_def k'_def c'_def)
  ultimately show ?thesis by blast
qed

section \<open>Custom trimmers\<close>

text \<open>The three callbacks of a custom mutator, with its state; \<open>None\<close> is a null pointer.\<close>

record 'm custom_mutator =
  afl_custom_init_trim :: "'m \<Rightarrow> u8 list \<Rightarrow> int \<times> 'm"
  afl_custom_trim :: "'m \<Rightarrow> u8 list option \<times> 'm"
  afl_custom_post_trim :: "'m \<Rightarrow> bool \<Rightarrow> int \<times> 'm"

text \<open>\<open>cu_out\<close> is \<^verbatim>\<open>out_buf\<close> with its length, \<open>cu_stage\<close> is \<^verbatim>\<open>stage_cur\<close>; the buffer is that of
  the trim.\<close>

record 'm custom_state =
  cu_mut :: 'm
  cu_stage :: int
  cu_out :: "u8 list option"
  cu_trim :: trim

text \<open>The trimmer is told whether the input was accepted. Only the answer to a refusal is checked.\<close>

definition tell :: "'m custom_mutator \<Rightarrow> bool \<Rightarrow> 'm custom_state \<Rightarrow> cache_stop + 'm custom_state" where
  "tell M success s =
    (case afl_custom_post_trim M (cu_mut s) success of (n, m) \<Rightarrow>
       if \<not> success \<and> n < 0 then Inl (Cache_Stop (FATAL ''Error ret in custom_post_trim''))
       else Inr (s\<lparr>cu_mut := m, cu_stage := n\<rparr>))"

text \<open>One proposal. An empty one is counted and refused without being run.\<close>

definition custom_try :: "trim_env \<Rightarrow> 'm custom_mutator \<Rightarrow> u8 list \<Rightarrow> 'm custom_state \<Rightarrow> cache_stop + bool \<times> 'm custom_state" where
  "custom_try E M d s =
    (let more = \<lambda>t. t\<lparr>tr_run := (tr_run t)\<lparr>trim_execs := trim_execs (tr_run t) + 1\<rparr>\<rparr>
     in if d = [] then and_then (tell M False (s\<lparr>cu_trim := more (cu_trim s)\<rparr>)) (\<lambda>s. Inr (False, s))
        else and_then (write_to_testcase (tr_hooks E) d (tr_run (cu_trim s))) (\<lambda>r.
          case fuzz_run_target (tr_target E) ((cu_trim s)\<lparr>tr_run := r\<rparr>) of (stop, t) \<Rightarrow>
            let t = more t
            in if stop then Inr (True, s\<lparr>cu_trim := t\<rparr>)
               else
                 let t = t\<lparr>tr_trace := classify_counts64 (tr_map_size E) (tr_trace t)\<rparr>
                 in if hash64 (tr_target E) (tr_trace t) \<noteq> tr_cksum E
                    then and_then (tell M False (s\<lparr>cu_trim := t\<rparr>)) (\<lambda>s. Inr (False, s))
                    else
                      let t = (if cu_out s = None then t\<lparr>clean_trace := tr_trace t\<rparr> else t)
                      in and_then (tell M True (s\<lparr>cu_trim := t, cu_out := Some d\<rparr>)) (\<lambda>s. Inr (False, s))))"

partial_function (option) custom_loop ::
    "trim_env \<Rightarrow> 'm custom_mutator \<Rightarrow> int \<Rightarrow> 'm custom_state \<Rightarrow> (cache_stop + bool \<times> 'm custom_state) option" where
  "custom_loop E M stage_max s =
    (if \<not> cu_stage s < stage_max then Some (Inr (False, s))
     else
       case afl_custom_trim M (cu_mut s) of
         (None, m) \<Rightarrow> Some (Inl (Cache_Stop (FATAL ''custom_trim failed'')))
       | (Some d, m) \<Rightarrow>
           (case custom_try E M d (s\<lparr>cu_mut := m\<rparr>) of
              Inl e \<Rightarrow> Some (Inl e)
            | Inr (stop, s) \<Rightarrow> if stop then Some (Inr (True, s)) else custom_loop E M stage_max s))"

text \<open>The file and the length change only when something was accepted and nothing was
  aborted. The check of the first callback, \<^verbatim>\<open>unlikely(retval) < 0\<close>, compares a truth value and
  never fails: a negative number of steps ends the loop at once.\<close>

definition finish_custom :: "trim_env \<Rightarrow> nat \<Rightarrow> 'm custom_state \<Rightarrow> 'r tcache \<Rightarrow> cache_stop + 'r tcache" where
  "finish_custom E q s c =
    (case cu_out s of
       None \<Rightarrow> Inr (c\<lparr>corpus := (corpus c)\<lparr>trace_bits := tr_trace (cu_trim s)\<rparr>\<rparr>)
     | Some d \<Rightarrow>
         if \<not> can_create E then Inl (Cache_Stop (PFATAL ''Unable to create''))
         else if wrote E 0 (length d) \<noteq> int (length d) then Inl (Cache_Stop (PFATAL ''Short write''))
         else
           let c = set_len q (of_nat (length d)) (c\<lparr>disk := (disk c)(fname (entry (corpus c) q) \<mapsto> d)\<rparr>)
           in Inr (c\<lparr>corpus := update_bitmap_score q ((corpus c)\<lparr>trace_bits := clean_trace (cu_trim s)\<rparr>)\<rparr>))"

definition trim_case_custom :: "trim_env \<Rightarrow> 'm custom_mutator \<Rightarrow> 'm \<Rightarrow> nat \<Rightarrow> u8 list \<Rightarrow> runner \<Rightarrow> 'r tcache \<Rightarrow>
    (cache_stop + fsrv_run_result \<times> 'm \<times> runner \<times> 'r tcache) option" where
  "trim_case_custom E M m q mem r c =
    (let n = unat (qlen c q);
         r = r\<lparr>bytes_trim_in := bytes_trim_in r + of_nat n\<rparr>;
         out = (\<lambda>(s, c). let r = tr_run (cu_trim s) in
           (tr_fault (cu_trim s), cu_mut s, r\<lparr>bytes_trim_out := bytes_trim_out r + ucast (qlen c q)\<rparr>, c))
     in if length mem < n then Some (Inl Bad_Access)
        else case afl_custom_init_trim M m (take n mem) of (stage_max, m) \<Rightarrow>
          let s = \<lparr>cu_mut = m, cu_stage = 0, cu_out = None,
                   cu_trim = \<lparr>in_buf = mem, q_len = n, len_p2 = 0, needs_write = False, clean_trace = [],
                     tr_trace = trace_bits (corpus c), tr_fault = FSRV_RUN_OK, tr_run = r\<rparr>\<rparr>
          in map_option (\<lambda>x. and_then x (\<lambda>(stop, s).
               if stop then Inr (out (s, c\<lparr>corpus := (corpus c)\<lparr>trace_bits := tr_trace (cu_trim s)\<rparr>\<rparr>))
               else and_then (finish_custom E q s c) (\<lambda>c. Inr (out (s, c)))))
             (custom_loop E M stage_max s))"

text \<open>The head of \<^verbatim>\<open>trim_case\<close>: every mutator that has a trimmer, on the same buffer, then the
  cached copy is read again from the file; without a trimmer the built-in trim runs.\<close>

fun custom_trimmers :: "trim_env \<Rightarrow> nat \<Rightarrow> u8 list \<Rightarrow> ('m custom_mutator \<times> 'm) list \<Rightarrow> fsrv_run_result \<Rightarrow> runner \<Rightarrow> 'r tcache \<Rightarrow>
    (cache_stop + fsrv_run_result \<times> runner \<times> 'r tcache) option" where
  "custom_trimmers E q mem [] fault r c = Some (Inr (fault, r, c))"
| "custom_trimmers E q mem ((M, m) # Ms) fault r c =
    Option.bind (trim_case_custom E M m q mem r c) (\<lambda>x. case x of
      Inl e \<Rightarrow> Some (Inl e)
    | Inr (fault, m, r, c) \<Rightarrow> custom_trimmers E q mem Ms fault r c)"

definition trim_entry :: "trim_env \<Rightarrow> ('m custom_mutator \<times> 'm) list \<Rightarrow> nat \<Rightarrow> bool \<Rightarrow> u8 list \<Rightarrow> runner \<Rightarrow> 'r tcache \<Rightarrow>
    (cache_stop + fsrv_run_result \<times> u8 list \<times> runner \<times> 'r tcache) option" where
  "trim_entry E Ms q shared mem r c =
    (if Ms = [] then trim_case E q shared mem r c
     else map_option (\<lambda>x. and_then x (\<lambda>(fault, r, c').
       and_then (queue_testcase_retake (tr_heap E) q (qlen c q) c') (\<lambda>c'. Inr (fault, mem, r, c'))))
      (custom_trimmers E q mem Ms FSRV_RUN_OK r c))"

section \<open>What custom trimming keeps\<close>

lemma update_bitmap_score_keep:
  assumes "\<And>e x. g (e\<lparr>tc_ref := x\<rparr>) = g e" and "\<And>e x. g (e\<lparr>trace_mini := x\<rparr>) = g e"
  shows "map g (queue_buf (update_bitmap_score q s)) = map g (queue_buf s)"
proof -
  have "map g (queue_buf (drop_ref t s)) = map g (queue_buf s)" "map g (queue_buf (take_slot q i s)) = map g (queue_buf s)" for t i s
    using assms by (simp_all add: drop_ref_def take_slot_def Let_def upd_keep)
  then have "map g (queue_buf (score_byte q fav p2 i s)) = map g (queue_buf s)" for fav p2 i s
    by (auto simp: score_byte_def split: option.splits)
  then have "map g (queue_buf (fold (score_byte q fav p2) is s)) = map g (queue_buf s)" for fav p2 "is" s
    by (induction "is" arbitrary: s) simp_all
  then show ?thesis by (simp add: update_bitmap_score_def)
qed

lemma score_fname: "q < length (queue_buf k) \<Longrightarrow> fname (entry (update_bitmap_score p k) q) = fname (entry k q)"
proof -
  assume q: "q < length (queue_buf k)"
  have m: "map fname (queue_buf (update_bitmap_score p k)) = map fname (queue_buf k)"
    by (rule update_bitmap_score_keep) simp_all
  then have "length (queue_buf (update_bitmap_score p k)) = length (queue_buf k)" by (rule map_eq_imp_length_eq)
  then show ?thesis using q arg_cong [OF m, of "\<lambda>xs. xs ! q"] by simp
qed

text \<open>A trimmer that keeps to its contract: it always proposes something, answers with an index that
  is not negative, and either reaches the last index or comes closer to it.\<close>

definition good_trimmer :: "'m custom_mutator \<Rightarrow> ('m \<Rightarrow> nat) \<Rightarrow> int \<Rightarrow> bool" where
  "good_trimmer M \<mu> stage_max \<longleftrightarrow> (\<forall>m. \<exists>d m1. afl_custom_trim M m = (Some d, m1) \<and> length d < 2 ^ 32 \<and>
     (\<forall>b. 0 \<le> fst (afl_custom_post_trim M m1 b) \<and>
       (stage_max \<le> fst (afl_custom_post_trim M m1 b) \<or> \<mu> (snd (afl_custom_post_trim M m1 b)) < \<mu> m)))"

definition customized :: "trim_env \<Rightarrow> 'm custom_state \<Rightarrow> bool" where
  "customized E s \<longleftrightarrow> files_only (tr_run (cu_trim s)) \<and> length (tr_trace (cu_trim s)) = tr_map_size E \<and>
     (\<forall>d. cu_out s = Some d \<longrightarrow> length d < 2 ^ 32 \<and> hash64 (tr_target E) (shown E d) = tr_cksum E \<and>
        hash64 (tr_target E) (clean_trace (cu_trim s)) = tr_cksum E \<and> length (clean_trace (cu_trim s)) = tr_map_size E)"

lemma custom_try_keeps:
  assumes fine: "runs_fine E" and c: "customized E s" and d: "length d < 2 ^ 32"
    and post: "\<And>b. 0 \<le> fst (afl_custom_post_trim M (cu_mut s) b)"
  shows "\<exists>s' b. custom_try E M d s = Inr (False, s') \<and> customized E s' \<and>
    (cu_stage s', cu_mut s') = afl_custom_post_trim M (cu_mut s) b"
proof (cases "d = []")
  case True
  obtain n m where p: "afl_custom_post_trim M (cu_mut s) False = (n, m)" by fastforce
  then have "0 \<le> n" using post [of False] by simp
  then show ?thesis using True c p
    by (intro exI [of _ "s\<lparr>cu_trim := (cu_trim s)\<lparr>tr_run := (tr_run (cu_trim s))\<lparr>trim_execs := trim_execs (tr_run (cu_trim s)) + 1\<rparr>\<rparr>,
        cu_mut := m, cu_stage := n\<rparr>"] exI [of _ False])
      (simp add: custom_try_def tell_def Let_def customized_def files_only_def)
next
  case False
  have hooks: "tr_hooks E = []" using fine by (simp add: runs_fine_def)
  have f: "files_only (tr_run (cu_trim s))" using c by (simp add: customized_def)
  obtain r where r: "rewrite d (tr_run (cu_trim s)) = Inr r" "input_of r = d" "files_only r"
    using rewrite_file [OF f] by blast
  have w: "write_to_testcase (tr_hooks E) d (tr_run (cu_trim s)) = Inr r"
    using r(1) f hooks by (simp add: write_to_testcase_def afl_fsrv_write_to_testcase_def files_only_def)
  define o1 where "o1 = exec (tr_target E) (ran r) d"
  have stop: "\<not> run_stop_soon o1" "run_result o1 \<noteq> FSRV_RUN_ERROR" using fine by (simp_all add: o1_def runs_fine_def)
  have tr: "run_trace o1 = run_trace (exec (tr_target E) 0 d)" "length (run_trace o1) = tr_map_size E"
    using fine by (simp_all add: o1_def runs_fine_def steady_def)
  then have sh: "classify_counts64 (tr_map_size E) (run_trace o1) = shown E d" "length (shown E d) = tr_map_size E"
    by (simp_all add: shown_def length_classify64)
  define t where "t = (cu_trim s)\<lparr>tr_fault := run_result o1,
    tr_run := r\<lparr>ran := ran r + 1, trim_execs := trim_execs r + 1\<rparr>, tr_trace := shown E d\<rparr>"
  define b where "b = (hash64 (tr_target E) (shown E d) = tr_cksum E)"
  obtain n m where p: "afl_custom_post_trim M (cu_mut s) b = (n, m)" by fastforce
  have n: "0 \<le> n" using post [of b] p by simp
  show ?thesis
  proof (cases b)
    case True
    define t' where "t' = (if cu_out s = None then t\<lparr>clean_trace := shown E d\<rparr> else t)"
    have "custom_try E M d s = Inr (False, s\<lparr>cu_trim := t', cu_out := Some d, cu_mut := m, cu_stage := n\<rparr>)"
      using False w True stop sh p
      by (simp add: custom_try_def Let_def fuzz_run_target_def r(2) o1_def [symmetric] tell_def b_def t'_def t_def)
    moreover have "customized E (s\<lparr>cu_trim := t', cu_out := Some d, cu_mut := m, cu_stage := n\<rparr>)"
      using c r(3) sh d True by (auto simp: customized_def t'_def t_def b_def files_only_def)
    ultimately show ?thesis using p
      by (intro exI [of _ "s\<lparr>cu_trim := t', cu_out := Some d, cu_mut := m, cu_stage := n\<rparr>"] exI [of _ b]) simp
  next
    case no: False
    have "custom_try E M d s = Inr (False, s\<lparr>cu_trim := t, cu_mut := m, cu_stage := n\<rparr>)"
      using False w no stop sh p n
      by (simp add: custom_try_def Let_def fuzz_run_target_def r(2) o1_def [symmetric] tell_def b_def t_def)
    moreover have "customized E (s\<lparr>cu_trim := t, cu_mut := m, cu_stage := n\<rparr>)"
      using c r(3) sh by (auto simp: customized_def t_def files_only_def)
    ultimately show ?thesis using p
      by (intro exI [of _ "s\<lparr>cu_trim := t, cu_mut := m, cu_stage := n\<rparr>"] exI [of _ b]) simp
  qed
qed

lemma custom_loop_keeps:
  assumes "runs_fine E" and M: "good_trimmer M \<mu> stage_max"
  shows "customized E s \<Longrightarrow> \<exists>s'. custom_loop E M stage_max s = Some (Inr (False, s')) \<and> customized E s'"
proof (induction "\<mu> (cu_mut s)" arbitrary: s rule: less_induct)
  case less
  show ?case
  proof (cases "cu_stage s < stage_max")
    case False
    then show ?thesis using less.prems by (subst custom_loop.simps) simp
  next
    case True
    obtain d m1 where d: "afl_custom_trim M (cu_mut s) = (Some d, m1)" "length d < 2 ^ 32"
      and post: "\<And>b. 0 \<le> fst (afl_custom_post_trim M m1 b) \<and>
       (stage_max \<le> fst (afl_custom_post_trim M m1 b) \<or> \<mu> (snd (afl_custom_post_trim M m1 b)) < \<mu> (cu_mut s))"
      using M unfolding good_trimmer_def by metis
    have "customized E (s\<lparr>cu_mut := m1\<rparr>)" using less.prems by (simp add: customized_def)
    then obtain s1 b where s1: "custom_try E M d (s\<lparr>cu_mut := m1\<rparr>) = Inr (False, s1)" "customized E s1"
      "(cu_stage s1, cu_mut s1) = afl_custom_post_trim M m1 b"
      using custom_try_keeps [OF assms(1) _ d(2), of "s\<lparr>cu_mut := m1\<rparr>" M] post by auto
    have unf: "custom_loop E M stage_max s = custom_loop E M stage_max s1"
      using True d(1) s1(1) by (subst custom_loop.simps) simp
    have "stage_max \<le> cu_stage s1 \<or> \<mu> (cu_mut s1) < \<mu> (cu_mut s)"
      using post [of b] s1(3) [symmetric] by simp
    then show ?thesis
    proof
      assume "stage_max \<le> cu_stage s1"
      then show ?thesis using unf s1(2) by (subst (asm) custom_loop.simps) simp
    next
      assume "\<mu> (cu_mut s1) < \<mu> (cu_mut s)"
      then show ?thesis using less.hyps s1(2) unf by simp
    qed
  qed
qed

lemma retake_eq:
  assumes "tc_buf s q = Some b" and "qlen s q = n" and "heap (unat n) \<noteq> None"
    and "disk s (fname (entry (corpus s) q)) = Some d" and "length d = unat n"
  shows "queue_testcase_retake heap q old s = Inr (s\<lparr>tc_buf := (tc_buf s)(q \<mapsto> d),
    cache_size := (if n = old then cache_size s else cache_size s + ucast n - ucast old)\<rparr>)"
proof -
  obtain b' where "realloc heap b (unat n) = Some b'" using assms(3) by (auto simp: realloc_def)
  then show ?thesis using assms by (auto simp: queue_testcase_retake_def read_case_def Let_def)
qed

lemma finish_custom_keeps:
  fixes c :: "'r tcache"
  assumes ok: "cache_ok c" "queue_ok (corpus c)" and q: "q < length (queue_buf (corpus c))"
    and b: "tc_buf c q = Some mem \<or> tc_buf c q = None"
    and E: "tr_map_size E = map_size (corpus c)" "\<forall>n. tr_heap E n \<noteq> None"
    and s: "customized E s" "cu_out s = Some d" and w: "can_create E" "\<forall>n. wrote E 0 n = int n"
  shows "\<exists>c1 c2. finish_custom E q s c = Inr c1 \<and> queue_testcase_retake (tr_heap E) q (qlen c q) c1 = Inr c2 \<and>
    cache_ok c2 \<and> queue_ok (corpus c2) \<and> unat (qlen c2 q) = length d \<and> disk c2 = (disk c)(fname (entry (corpus c) q) \<mapsto> d) \<and>
    tc_buf c2 = (if tc_buf c q = None then tc_buf c else (tc_buf c)(q \<mapsto> d)) \<and>
    hash64 (tr_target E) (trace_bits (corpus c2)) = tr_cksum E"
proof -
  define n :: u32 where "n = of_nat (length d)"
  have ld: "length d < 2 ^ 32" and ct: "length (clean_trace (cu_trim s)) = map_size (corpus c)"
    and hs: "hash64 (tr_target E) (clean_trace (cu_trim s)) = tr_cksum E" using s E(1) by (simp_all add: customized_def)
  have un: "unat n = length d" using ld by (simp add: n_def)
  define base where "base = c\<lparr>disk := (disk c)(fname (entry (corpus c) q) \<mapsto> d)\<rparr>"
  have base: "cache_ok base" "corpus base = corpus c" "tc_buf base = tc_buf c" using ok(1) by (simp_all add: base_def)
  define k where "k = corpus (set_len q n base)"
  have k: "queue_ok k" "length (queue_buf k) = length (queue_buf (corpus c))" "len (entry k q) = n" "map_size k = map_size (corpus c)"
    "fname (entry k q) = fname (entry (corpus c) q)"
  proof -
    show "queue_ok k" unfolding k_def by (rule set_len_queue_ok) (simp add: base ok)
  qed (use q in \<open>simp_all add: k_def base set_len_def upd_entry_def\<close>)
  define k' where "k' = update_bitmap_score q (k\<lparr>trace_bits := clean_trace (cu_trim s)\<rparr>)"
  have k': "queue_ok k'" "same_scores (k\<lparr>trace_bits := clean_trace (cu_trim s)\<rparr>) k'"
    using score_corpus [OF k(1), of q "clean_trace (cu_trim s)"] q k(2,4) ct by (simp_all add: k'_def)
  have lens: "length (queue_buf k') = length (queue_buf k)" "\<And>p. p < length (queue_buf k) \<Longrightarrow> len (entry k' p) = len (entry k p)"
    "trace_bits k' = clean_trace (cu_trim s)" using k'(2) by (simp_all add: same_scores_def)
  have fn: "fname (entry k' q) = fname (entry (corpus c) q)"
    using score_fname [of q "k\<lparr>trace_bits := clean_trace (cu_trim s)\<rparr>" q] q k by (simp add: k'_def)
  define c1 where "c1 = (set_len q n base)\<lparr>corpus := k'\<rparr>"
  have c1: "finish_custom E q s c = Inr c1"
    using s(2) w by (simp add: finish_custom_def Let_def c1_def k'_def k_def base_def n_def)
  have scored: "cache_ok (x\<lparr>corpus := k'\<rparr>)" if "cache_ok x" "corpus x = k" for x :: "'r tcache"
  proof (rule cache_ok_corpus [OF that(1)])
    fix p assume "p \<in> dom (tc_buf x)"
    moreover have "dom (tc_buf x) \<subseteq> {..<length (queue_buf (corpus x))}" using that(1) by (simp add: cache_ok_def buffers_dom)
    ultimately show "len (entry k' p) = qlen x p" using lens(2) [of p] that(2) by auto
  qed (simp add: lens that(2))
  have f1: "disk c1 (fname (entry (corpus c1) q)) = Some d" "qlen c1 q = n" "tc_buf c1 = tc_buf c" "cache_size c1 = cache_size c"
    using fn lens(2) [of q] k q by (simp_all add: c1_def base_def set_len_def)
  show ?thesis
  proof (cases "tc_buf c q")
    case None
    have "cache_ok (base\<lparr>corpus := upd_entry q (\<lambda>e. e\<lparr>len := n\<rparr>) (corpus base)\<rparr>)"
    proof (rule cache_ok_corpus [OF base(1)])
      fix p assume "p \<in> dom (tc_buf base)"
      then have "p \<noteq> q" using None base by auto
      then show "len (entry (upd_entry q (\<lambda>e. e\<lparr>len := n\<rparr>) (corpus base)) p) = qlen base p" by (simp add: upd_entry_def)
    qed simp
    then have "cache_ok c1" using scored [of "set_len q n base"] by (simp add: c1_def k_def set_len_def)
    moreover have "queue_testcase_retake (tr_heap E) q (qlen c q) c1 = Inr c1"
      using None f1 by (simp add: queue_testcase_retake_def)
    ultimately show ?thesis using c1 f1 un None k'(1) lens(3) hs by (simp add: c1_def base_def set_len_def)
  next
    case (Some b0)
    define c2 where "c2 = c1\<lparr>tc_buf := (tc_buf c)(q \<mapsto> d),
      cache_size := (if n = qlen c q then cache_size c else cache_size c + ucast n - ucast (qlen c q))\<rparr>"
    have "queue_testcase_retake (tr_heap E) q (qlen c q) c1 = Inr c2"
    proof -
      have "tc_buf c1 q = Some b0" using Some by (simp add: f1(3))
      moreover have "tr_heap E (unat n) \<noteq> None" using E(2) by blast
      ultimately have "queue_testcase_retake (tr_heap E) q (qlen c q) c1 = Inr (c1\<lparr>tc_buf := (tc_buf c1)(q \<mapsto> d),
          cache_size := (if n = qlen c q then cache_size c1 else cache_size c1 + ucast n - ucast (qlen c q))\<rparr>)"
        by (rule retake_eq [OF _ f1(2) _ f1(1) un [symmetric]])
      then show ?thesis unfolding c2_def f1(3,4) .
    qed
    moreover have "cache_ok c2"
    proof -
      have "cache_ok ((set_len q n base)\<lparr>tc_buf := (tc_buf base)(q \<mapsto> d), cache_size := cache_size base + ucast n - ucast (qlen base q)\<rparr>)"
        by (rule replace_ok [OF base(1)]) (use q Some un in \<open>simp_all add: base\<close>)
      moreover define x where "x = (set_len q n base)\<lparr>tc_buf := (tc_buf base)(q \<mapsto> d), cache_size := cache_size base + ucast n - ucast (qlen base q)\<rparr>"
      ultimately have "cache_ok (x\<lparr>corpus := k'\<rparr>)" using scored [of x] by (simp add: k_def)
      moreover have "c2 = x\<lparr>corpus := k'\<rparr>" by (simp add: c2_def x_def c1_def base_def set_len_def)
      ultimately show ?thesis by simp
    qed
    ultimately show ?thesis using c1 f1 un Some k'(1) lens(3) hs by (simp add: c2_def c1_def base_def set_len_def)
  qed
qed

section \<open>What the code gets wrong\<close>

text \<open>With shared memory, the target is given the end of the input over its beginning.\<close>

lemma gap_in_shared_memory:
  assumes "afl_realloc heap (out_scratch r) 5 = Some m" and "use_shmem_fuzz r" and "shmem_fuzz r = [0, 0, 0, 0, 0, 0, 0, 0]"
  shows "\<exists>r'. write_with_gap heap [] [1, 2, 3, 4, 5, 6] 6 2 2 r = Inr r' \<and> input_of r' = [5, 6, 0, 0]"
  using assms by (simp add: write_with_gap_def Let_def into_shmem_def overwrite_def input_of_def)

text \<open>A trim that is aborted after a deletion has shortened the entry, but not its file, and the
  cached buffer keeps its size: the cache is inconsistent.\<close>

lemma abort_leaves_stale:
  assumes "q < length (queue_buf (corpus c))" and "q_len s < length (in_buf s)" and "length (in_buf s) < 2 ^ 32"
  shows "\<not> cache_ok (put_back q True s c)" and "disk (put_back q True s c) = disk c"
proof -
  let ?c = "put_back q True s c"
  have "tc_buf ?c q = Some (in_buf s)" "qlen ?c q = of_nat (q_len s)" and d: "disk ?c = disk c"
    using assms(1) by (simp_all add: put_back_def Let_def set_len_def upd_entry_def)
  moreover have "unat (of_nat (q_len s) :: u32) = q_len s" using assms(2,3) by simp
  ultimately have "\<not> buffers_ok ?c" using assms(2) unfolding buffers_ok_def by (metis less_irrefl)
  then show "\<not> cache_ok ?c" by (simp add: cache_ok_def)
  show "disk ?c = disk c" by (fact d)
qed

section \<open>Properties\<close>



section \<open>Witnesses\<close>

text \<open>A target whose path depends on the byte 9, and an entry of twelve bytes.\<close>

definition nine :: "u8 list \<Rightarrow> outcome" where
  "nine d = \<lparr>run_result = FSRV_RUN_OK, run_trace = replicate 8 (if 9 \<in> set d then 1 else 0), run_timed_out = False,
     run_stop_soon = False\<rparr>"

definition nine_env :: trim_env where
  "nine_env = \<lparr>tr_target = \<lparr>exec = \<lambda>k. nine, hash64 = load_le\<rparr>, tr_hooks = [], tr_heap = \<lambda>n. Some (\<lambda>i. 0),
     tr_map_size = 8, tr_cksum = load_le (replicate 8 1), no_unlink = False, can_create = True, wrote = \<lambda>k n. int n\<rparr>"

definition twelve :: "u8 list" where
  "twelve = [1, 2, 3, 4, 5, 6, 7, 8, 9, 10, 11, 12]"

definition twelve_queue :: queue_state where
  "twelve_queue = add_to_queue ''q/a'' 12 False 0 None (empty_queue 8)"

definition twelve_cache :: "nat tcache" where
  "twelve_cache = (empty_cache 7 3)\<lparr>corpus := twelve_queue, disk := [''q/a'' \<mapsto> twelve]\<rparr>"

definition file_runner :: runner where
  "file_runner = \<lparr>use_shmem_fuzz = False, use_stdin = True, shmem_fuzz = [], shmem_fuzz_len = 0, out_file = [], out_fails = False,
     out_scratch = None, ran = 0, trim_execs = 0, bytes_trim_in = 0, bytes_trim_out = 0\<rparr>"

lemma nine_env_fine: "runs_fine nine_env"
  by (simp add: runs_fine_def nine_env_def nine_def steady_def)

lemma twelve_queue: "queue_ok twelve_queue" "length (queue_buf twelve_queue) = 1" "map_size twelve_queue = 8"
  "len (entry twelve_queue 0) = 12" "fname (entry twelve_queue 0) = ''q/a''"
proof -
  have "queue_step (empty_queue 8) twelve_queue"
    unfolding twelve_queue_def by (rule queue_step.add) (simp add: used_names_def empty_queue_def)
  then show "queue_ok twelve_queue" by (rule queue_step_ok) (rule empty_queue_ok; simp)
qed (simp_all add: twelve_queue_def add_to_queue_def empty_queue_def Let_def)

lemma twelve_cache_ok: "cache_ok twelve_cache"
proof -
  have "live twelve_cache = {}" by (auto simp: live_def twelve_cache_def empty_cache_def)
  then show "cache_ok twelve_cache"
    by (simp add: cache_ok_def counters_ok_def buffers_ok_def) (simp add: twelve_cache_def empty_cache_def)
qed

lemma twelve_setup: "corpus twelve_cache = twelve_queue" "tc_buf twelve_cache = (\<lambda>_. None)" "disk twelve_cache ''q/a'' = Some twelve"
  "files_only file_runner" "length twelve = 12"
  by (simp_all add: twelve_cache_def empty_cache_def files_only_def file_runner_def twelve_def)


text \<open>A trimmer that proposes, in one step, the input without its first eight bytes.\<close>

definition last_four :: "nat custom_mutator" where
  "last_four = \<lparr>afl_custom_init_trim = \<lambda>m d. (1, 1), afl_custom_trim = \<lambda>m. (Some (drop 8 twelve), m),
     afl_custom_post_trim = \<lambda>m b. (1, 0)\<rparr>"


end
