(* ===== verification/Calibration.thy ===== *)
theory Calibration
  imports Trimming
begin

text \<open>
  Calibration, \<^verbatim>\<open>calibrate_case\<close> of \<^verbatim>\<open>src/afl-fuzz-run.c\<close>: a new entry is run several times,
  its trace is compared with the first one, bytes of the map that vary are taken out of the search for new
  coverage, and the entry enters the race for the slots. The map routines are those of \<open>Bitmap\<close>, the queue is that of
  \<open>Corpus\<close>, the way an input reaches the target is that of \<open>Trimming\<close>.
\<close>

section \<open>State\<close>

text \<open>The fields of an entry that only calibration reads and writes.\<close>

record calibration =
  exec_cksum :: u64
  cal_failed :: u8
  has_new_cov :: bool
  bitmap_size :: u32
  handicap :: u64

text \<open>\<open>cal q\<close> are these fields of the entry \<open>q\<close>. The rest of the state are fields of \<^verbatim>\<open>afl_state_t\<close>.\<close>

record cal_state =
  cal_queue :: queue_state
  cal_run :: runner
  cal :: "nat \<Rightarrow> calibration"
  var_bytes :: "u8 list"
  first_trace :: "u8 list"
  total_cal_us :: u64
  total_cal_cycles :: u64
  total_bitmap_size :: u64
  total_bitmap_entries :: u64
  queued_with_cov :: u32
  queued_variable :: u32
  var_byte_count :: u32

text \<open>\<open>expected\<close> is \<^verbatim>\<open>crash_mode\<close>: what every run has to end in. \<open>links\<close> is whether the file system
  has symbolic links, \<open>clock k\<close> the time in microseconds when \<open>k\<close> executions have been made.\<close>

record cal_env =
  ca_target :: target
  ca_hooks :: "post_process list"
  expected :: fsrv_run_result
  cal_fast :: bool
  ca_fixed_seed :: bool
  exec_tmout :: u32
  links :: bool
  clock :: "nat \<Rightarrow> u64"

definition CAL_CYCLES :: nat where "CAL_CYCLES = (8 :: nat)"
definition CAL_CYCLES_LONG :: nat where "CAL_CYCLES_LONG = (20 :: nat)"

text \<open>\<^verbatim>\<open>stage_max\<close>, which grows when the first instability is seen.\<close>

definition cal_cycles :: "bool \<Rightarrow> bool \<Rightarrow> nat" where
  "cal_cycles fast var_detected =
    (if var_detected then (if fast then CAL_CYCLES else CAL_CYCLES_LONG) else (if fast then 3 else CAL_CYCLES))"

section \<open>One stage\<close>

text \<open>The local variables of \<^verbatim>\<open>calibrate_case\<close>: \<open>new_bits\<close>, \<open>var_detected\<close> and \<open>fault\<close>.\<close>

record cal_vars =
  new_bits :: u8
  var_detected :: bool
  ca_fault :: fsrv_run_result

definition see_new_bits :: "cal_state \<times> cal_vars \<Rightarrow> cal_state \<times> cal_vars" where
  "see_new_bits = (\<lambda>(s, v). case has_new_bits Virgin_Bits (cal_queue s) of (hnb, k) \<Rightarrow>
     (s\<lparr>cal_queue := k\<rparr>, if new_bits v < hnb then v\<lparr>new_bits := hnb\<rparr> else v))"

text \<open>A byte that differs from the first trace is variable from now on, and no longer unseen.\<close>

definition mark_variable_bytes :: "cal_state \<Rightarrow> cal_state" where
  "mark_variable_bytes s =
    (let k = cal_queue s;
         fresh = \<lambda>i. var_bytes s ! i = 0 \<and> first_trace s ! i \<noteq> trace_bits k ! i
     in fold (\<lambda>i s. if fresh i
          then s\<lparr>var_bytes := (var_bytes s)[i := 1], cal_queue := (cal_queue s)\<lparr>virgin_bits := (virgin_bits (cal_queue s))[i := 0]\<rparr>\<rparr>
          else s) [0..<map_size k] s)"

definition set_cal :: "nat \<Rightarrow> (calibration \<Rightarrow> calibration) \<Rightarrow> cal_state \<Rightarrow> cal_state" where
  "set_cal q f s = s\<lparr>cal := (cal s)(q := f (cal s q))\<rparr>"

definition compare_trace :: "cal_env \<Rightarrow> nat \<Rightarrow> cal_state \<times> cal_vars \<Rightarrow> cal_state \<times> cal_vars" where
  "compare_trace E q x =
    (let cksum = hash64 (ca_target E) (trace_bits (cal_queue (fst x)))
     in if exec_cksum (cal (fst x) q) = cksum then x
        else
          (case see_new_bits x of (s, v) \<Rightarrow>
            if exec_cksum (cal s q) \<noteq> 0 then (mark_variable_bytes s, v\<lparr>var_detected := True\<rparr>)
            else ((set_cal q (\<lambda>e. e\<lparr>exec_cksum := cksum\<rparr>) s)\<lparr>first_trace := trace_bits (cal_queue s)\<rparr>, v)))"

text \<open>One execution; \<open>True\<close> is the jump to \<^verbatim>\<open>abort_calibration\<close>.\<close>

definition cal_stage :: "cal_env \<Rightarrow> nat \<Rightarrow> u8 list \<Rightarrow> nat \<Rightarrow> cal_state \<times> cal_vars \<Rightarrow> cache_stop + bool \<times> cal_state \<times> cal_vars" where
  "cal_stage E q use_mem stage_cur = (\<lambda>(s, v).
    and_then (write_to_testcase (ca_hooks E) (take (unat (len (entry (cal_queue s) q))) use_mem) (cal_run s)) (\<lambda>r.
      let o1 = exec (ca_target E) (ran r) (input_of r);
          s = s\<lparr>cal_run := r\<lparr>ran := ran r + 1\<rparr>, cal_queue := (cal_queue s)\<lparr>trace_bits := run_trace o1\<rparr>\<rparr>;
          v = v\<lparr>ca_fault := run_result o1\<rparr>;
          k = cal_queue s
      in if run_stop_soon o1 \<or> run_result o1 \<noteq> expected E then Inr (True, s, v)
         else if \<not> non_instrumented_mode k \<and> stage_cur = 0 \<and> count_bytes (map_size k) (trace_bits k) = 0
         then Inr (True, s, v\<lparr>ca_fault := FSRV_RUN_NOINST\<rparr>)
         else
           case compare_trace E q (s\<lparr>cal_queue := classify_counts k\<rparr>, v) of (s, v) \<Rightarrow> Inr (False, s, v)))"

function cal_loop :: "cal_env \<Rightarrow> nat \<Rightarrow> u8 list \<Rightarrow> nat \<Rightarrow> cal_state \<times> cal_vars \<Rightarrow> cache_stop + bool \<times> cal_state \<times> cal_vars" where
  "cal_loop E q use_mem stage_cur x =
    (if \<not> stage_cur < cal_cycles (cal_fast E) (var_detected (snd x)) then Inr (False, x)
     else case cal_stage E q use_mem stage_cur x of
       Inl e \<Rightarrow> Inl e
     | Inr (stop, x) \<Rightarrow> if stop then Inr (True, x) else cal_loop E q use_mem (stage_cur + 1) x)"
  by pat_completeness auto
termination
  by (relation "measure (\<lambda>(E, q, use_mem, stage_cur, x). CAL_CYCLES_LONG - stage_cur)")
    (auto simp: cal_cycles_def CAL_CYCLES_def CAL_CYCLES_LONG_def split: if_splits)

declare cal_loop.simps [simp del]

section \<open>calibrate_case\<close>

text \<open>What follows when no stage was aborted.\<close>

definition cal_success :: "cal_env \<Rightarrow> nat \<Rightarrow> u64 \<Rightarrow> u64 \<Rightarrow> bool \<Rightarrow> cal_state \<times> cal_vars \<Rightarrow> cal_state \<times> cal_vars" where
  "cal_success E q h start_us first_run = (\<lambda>(s, v).
    let stage_max = of_nat (cal_cycles (cal_fast E) (var_detected v)) :: u64;
        stop_us = clock E (ran (cal_run s));
        diff_us = (if ca_fixed_seed E then ucast (exec_tmout E - 1) * stage_max
                   else if stop_us - start_us = 0 then 1 else stop_us - start_us);
        k = cal_queue s;
        bits = count_bytes (map_size k) (trace_bits k);
        k = update_bitmap_score q (upd_entry q (\<lambda>e. e\<lparr>exec_us := diff_us div stage_max\<rparr>) k);
        s = (set_cal q (\<lambda>e. e\<lparr>bitmap_size := bits, handicap := h, cal_failed := 0\<rparr>) s)\<lparr>cal_queue := k,
          total_cal_us := total_cal_us s + diff_us, total_cal_cycles := total_cal_cycles s + stage_max,
          total_bitmap_size := total_bitmap_size s + ucast bits, total_bitmap_entries := total_bitmap_entries s + 1\<rparr>
    in (s, if \<not> non_instrumented_mode k \<and> first_run \<and> ca_fault v = FSRV_RUN_OK \<and> new_bits v = 0
           then v\<lparr>ca_fault := FSRV_RUN_NOBITS\<rparr> else v))"

text \<open>From the label \<^verbatim>\<open>abort_calibration\<close> on.\<close>

definition cal_finish :: "cal_env \<Rightarrow> nat \<Rightarrow> cal_state \<times> cal_vars \<Rightarrow> queue_stop + fsrv_run_result \<times> cal_state" where
  "cal_finish E q = (\<lambda>(s, v).
    let s = (if new_bits v = 2 \<and> \<not> has_new_cov (cal s q)
             then (set_cal q (\<lambda>e. e\<lparr>has_new_cov := True\<rparr>) s)\<lparr>queued_with_cov := queued_with_cov s + 1\<rparr> else s)
    in if \<not> var_detected v then Inr (ca_fault v, s)
       else
         let s = s\<lparr>var_byte_count := count_bytes (map_size (cal_queue s)) (var_bytes s)\<rparr>
         in if var_behavior (entry (cal_queue s) q) then Inr (ca_fault v, s)
            else and_then (mark_as_variable (links E) q (cal_queue s)) (\<lambda>k.
              Inr (ca_fault v, s\<lparr>cal_queue := k, queued_variable := queued_variable s + 1\<rparr>)))"

text \<open>The time limit and the start of the fork server are part of the target. How it ends: a fatal
  error while the input is handed over, or one while the entry is marked.\<close>

definition calibrate_case :: "cal_env \<Rightarrow> nat \<Rightarrow> u8 list \<Rightarrow> u64 \<Rightarrow> cal_state \<Rightarrow>
    (cache_stop + queue_stop) + fsrv_run_result \<times> cal_state" where
  "calibrate_case E q use_mem h s =
    (let s = (if cmplog_mode (cal_queue s) then set_cal q (\<lambda>e. e\<lparr>exec_cksum := 0\<rparr>) s else s);
         first_run = (exec_cksum (cal s q) = 0);
         s = set_cal q (\<lambda>e. e\<lparr>cal_failed := cal_failed e + 1\<rparr>) s;
         v = \<lparr>new_bits = 0, var_detected = False, ca_fault = FSRV_RUN_OK\<rparr>;
         x = (if first_run then (s, v) else see_new_bits (s\<lparr>first_trace := trace_bits (cal_queue s)\<rparr>, v));
         start_us = clock E (ran (cal_run s))
     in case cal_loop E q use_mem 0 x of
          Inl e \<Rightarrow> Inl (Inl e)
        | Inr (stop, x) \<Rightarrow>
            (case cal_finish E q (if stop then x else cal_success E q h start_us first_run x) of
               Inl e \<Rightarrow> Inl (Inr e)
             | Inr y \<Rightarrow> Inr y))"

section \<open>The invariant\<close>

text \<open>A byte once found to be variable is never reported as new again.\<close>

definition cal_ok :: "cal_state \<Rightarrow> bool" where
  "cal_ok s \<longleftrightarrow> queue_ok (cal_queue s) \<and> length (virgin_bits (cal_queue s)) = map_size (cal_queue s) \<and>
     length (var_bytes s) = map_size (cal_queue s) \<and> length (first_trace s) = map_size (cal_queue s) \<and>
     (\<forall>i < map_size (cal_queue s). var_bytes s ! i \<noteq> 0 \<longrightarrow> virgin_bits (cal_queue s) ! i = 0)"

lemma queue_ok_coverage [simp]:
  "queue_ok (k\<lparr>virgin_bits := v\<rparr>) = queue_ok k" "queue_ok (k\<lparr>bitmap_changed := b\<rparr>) = queue_ok k"
  by (simp_all add: queue_ok_def refs_ok_def marks_ok_def)

lemma has_new_bits_main:
  assumes "queue_ok k" and "length (virgin_bits k) = map_size k"
  shows "has_new_bits Virgin_Bits k = (verdict (trace_bits k) (virgin_bits k),
    k\<lparr>virgin_bits := clear_seen (trace_bits k) (virgin_bits k),
      bitmap_changed := bitmap_changed k \<or> verdict (trace_bits k) (virgin_bits k) \<noteq> 0\<rparr>)"
proof -
  have "wf_map 8 Virgin_Bits k" using assms by (simp add: wf_map_def queue_ok_def refs_ok_def)
  from has_new_bits_eq [OF this] show ?thesis by simp
qed

lemma see_new_bits_eq:
  assumes "queue_ok (cal_queue s)" and "length (virgin_bits (cal_queue s)) = map_size (cal_queue s)"
  shows "see_new_bits (s, v) = (let k = cal_queue s; hnb = verdict (trace_bits k) (virgin_bits k) in
    (s\<lparr>cal_queue := k\<lparr>virgin_bits := clear_seen (trace_bits k) (virgin_bits k), bitmap_changed := bitmap_changed k \<or> hnb \<noteq> 0\<rparr>\<rparr>,
     if new_bits v < hnb then v\<lparr>new_bits := hnb\<rparr> else v))"
  by (simp add: see_new_bits_def has_new_bits_main [OF assms] Let_def)

lemma see_new_bits_ok:
  assumes "cal_ok s" and "see_new_bits (s, v) = (s', v')"
  shows "cal_ok s'" "cal_run s' = cal_run s" "map_size (cal_queue s') = map_size (cal_queue s)"
    "queue_buf (cal_queue s') = queue_buf (cal_queue s)" "trace_bits (cal_queue s') = trace_bits (cal_queue s)" "cal s' = cal s"
proof -
  let ?k = "cal_queue s"
  have k: "queue_ok ?k" "length (virgin_bits ?k) = map_size ?k" "length (trace_bits ?k) = map_size ?k"
    using assms(1) by (simp_all add: cal_ok_def queue_ok_def refs_ok_def)
  have s': "s' = s\<lparr>cal_queue := ?k\<lparr>virgin_bits := clear_seen (trace_bits ?k) (virgin_bits ?k),
      bitmap_changed := bitmap_changed ?k \<or> verdict (trace_bits ?k) (virgin_bits ?k) \<noteq> 0\<rparr>\<rparr>"
    using assms(2) unfolding see_new_bits_eq [OF k(1,2)] Let_def by simp
  have "clear_seen (trace_bits ?k) (virgin_bits ?k) ! i = 0" if "i < map_size ?k" "virgin_bits ?k ! i = 0" for i
    using that k by (simp add: clear_seen_def)
  then show "cal_ok s'" using assms(1) k unfolding s' by (simp add: cal_ok_def)
qed (use assms(2) in \<open>auto simp: see_new_bits_def has_new_bits_def Let_def split: prod.splits if_splits\<close>)

definition fresh_variable :: "cal_state \<Rightarrow> nat \<Rightarrow> bool" where
  "fresh_variable s i \<longleftrightarrow> var_bytes s ! i = 0 \<and> first_trace s ! i \<noteq> trace_bits (cal_queue s) ! i"

lemma mark_variable_bytes_eq:
  assumes "length (var_bytes s) = map_size (cal_queue s)" and "length (virgin_bits (cal_queue s)) = map_size (cal_queue s)"
  shows "mark_variable_bytes s = s\<lparr>
    var_bytes := map (\<lambda>i. if fresh_variable s i then 1 else var_bytes s ! i) [0..<map_size (cal_queue s)],
    cal_queue := (cal_queue s)\<lparr>virgin_bits :=
      map (\<lambda>i. if fresh_variable s i then 0 else virgin_bits (cal_queue s) ! i) [0..<map_size (cal_queue s)]\<rparr>\<rparr>"
proof -
  define N where "N = map_size (cal_queue s)"
  define f :: "nat \<Rightarrow> cal_state \<Rightarrow> cal_state" where "f = (\<lambda>i s'. if fresh_variable s i
    then s'\<lparr>var_bytes := (var_bytes s')[i := 1], cal_queue := (cal_queue s')\<lparr>virgin_bits := (virgin_bits (cal_queue s'))[i := 0]\<rparr>\<rparr>
    else s')"
  have upd: "(map g [0..<N])[n := y] = map (g(n := y)) [0..<N]" for n y and g :: "nat \<Rightarrow> u8"
    by (rule nth_equalityI) (auto simp: nth_list_update)
  have "n \<le> N \<Longrightarrow> fold f [0..<n] s = s\<lparr>
      var_bytes := map (\<lambda>i. if i < n \<and> fresh_variable s i then 1 else var_bytes s ! i) [0..<N],
      cal_queue := (cal_queue s)\<lparr>virgin_bits := map (\<lambda>i. if i < n \<and> fresh_variable s i then 0 else virgin_bits (cal_queue s) ! i) [0..<N]\<rparr>\<rparr>" for n
  proof (induction n)
    case 0
    have "map (\<lambda>i. var_bytes s ! i) [0..<N] = var_bytes s" "map (\<lambda>i. virgin_bits (cal_queue s) ! i) [0..<N] = virgin_bits (cal_queue s)"
      using map_nth [of "var_bytes s"] map_nth [of "virgin_bits (cal_queue s)"] assms by (simp_all add: N_def)
    then show ?case by simp
  next
    case (Suc n)
    have e: "(\<lambda>i. if i < n \<and> P i then y else h i)(n := y) = (\<lambda>i. if i < Suc n \<and> P i then y else h i)" if "P n" for P h and y :: u8
      using that by (auto simp: less_Suc_eq fun_eq_iff)
    have e': "(\<lambda>i. if i < Suc n \<and> P i then y else h i) = (\<lambda>i. if i < n \<and> P i then y else h i)" if "\<not> P n" for P h and y :: u8
      using that by (auto simp: less_Suc_eq fun_eq_iff)
    show ?case
    proof (cases "fresh_variable s n")
      case True
      then show ?thesis using Suc by (simp add: f_def upd e)
    next
      case False
      then show ?thesis using Suc by (simp add: f_def e')
    qed
  qed
  from this [of N] have "fold f [0..<N] s = s\<lparr>
      var_bytes := map (\<lambda>i. if i < N \<and> fresh_variable s i then 1 else var_bytes s ! i) [0..<N],
      cal_queue := (cal_queue s)\<lparr>virgin_bits := map (\<lambda>i. if i < N \<and> fresh_variable s i then 0 else virgin_bits (cal_queue s) ! i) [0..<N]\<rparr>\<rparr>"
    by simp
  moreover have "mark_variable_bytes s = fold f [0..<N] s"
    by (simp add: mark_variable_bytes_def f_def N_def Let_def fresh_variable_def)
  moreover have "map (\<lambda>i. if i < N \<and> P i then y else h i) [0..<N] = map (\<lambda>i. if P i then y else h i) [0..<N]"
    for P h and y :: u8
    by (rule map_cong) auto
  ultimately show ?thesis by (simp only: N_def [symmetric])
qed

lemma mark_variable_bytes_ok:
  assumes "cal_ok s"
  shows "cal_ok (mark_variable_bytes s)"
  using assms mark_variable_bytes_eq [of s] by (auto simp: cal_ok_def)

lemma mark_variable_bytes_fields [simp]:
  "cal_run (mark_variable_bytes s) = cal_run s" "cal (mark_variable_bytes s) = cal s"
  "queue_buf (cal_queue (mark_variable_bytes s)) = queue_buf (cal_queue s)"
  "map_size (cal_queue (mark_variable_bytes s)) = map_size (cal_queue s)"
  unfolding mark_variable_bytes_def Let_def
  by (rule fold_keeps, simp)+

lemma cal_ok_set_cal [simp]: "cal_ok (set_cal q f s) = cal_ok s"
  by (simp add: cal_ok_def set_cal_def)

lemma set_cal_fields [simp]:
  "cal_queue (set_cal q f s) = cal_queue s" "cal_run (set_cal q f s) = cal_run s" "cal (set_cal q f s) q = f (cal s q)"
  "var_bytes (set_cal q f s) = var_bytes s" "first_trace (set_cal q f s) = first_trace s"
  by (simp_all add: set_cal_def)

text \<open>What every part of a calibration keeps, apart from the invariant.\<close>

definition same_run :: "cal_state \<Rightarrow> cal_state \<Rightarrow> bool" where
  "same_run s s' \<longleftrightarrow> map_size (cal_queue s') = map_size (cal_queue s) \<and>
     queue_buf (cal_queue s') = queue_buf (cal_queue s) \<and> (cal_ok s \<longrightarrow> cal_ok s')"

lemma same_run_refl [simp]: "same_run s s"
  by (simp add: same_run_def)

lemma same_run_trans: "same_run s s' \<Longrightarrow> same_run s' s'' \<Longrightarrow> same_run s s''"
  by (simp add: same_run_def)

lemma cal_ok_trace: "cal_ok s \<Longrightarrow> length t = map_size (cal_queue s) \<Longrightarrow> cal_ok (s\<lparr>cal_queue := (cal_queue s)\<lparr>trace_bits := t\<rparr>\<rparr>)"
  using queue_step_ok [OF queue_step.run [of t "cal_queue s"]] by (simp add: cal_ok_def)

lemma cal_ok_first_trace: "cal_ok s \<Longrightarrow> cal_ok (s\<lparr>first_trace := trace_bits (cal_queue s)\<rparr>)"
  by (simp add: cal_ok_def queue_ok_def refs_ok_def)

lemma compare_trace_keeps:
  assumes "compare_trace E q (s, v) = (s', v')"
  shows "same_run s s'" "cal_run s' = cal_run s"
proof -
  obtain s1 v1 where n: "see_new_bits (s, v) = (s1, v1)" by fastforce
  define m where "m = (set_cal q (\<lambda>e. e\<lparr>exec_cksum := hash64 (ca_target E) (trace_bits (cal_queue s))\<rparr>) s1)\<lparr>first_trace := trace_bits (cal_queue s1)\<rparr>"
  have c: "s' = s \<or> s' = mark_variable_bytes s1 \<or> s' = m"
    using assms n by (auto simp: compare_trace_def Let_def m_def split: if_splits)
  have "same_run s s1" using see_new_bits_ok [OF _ n] n
    by (auto simp: same_run_def see_new_bits_def has_new_bits_def Let_def split: prod.splits if_splits)
  moreover have "cal_run s1 = cal_run s"
    using n by (auto simp: see_new_bits_def has_new_bits_def Let_def split: prod.splits if_splits)
  moreover have "same_run s1 (mark_variable_bytes s1)" using mark_variable_bytes_ok by (simp add: same_run_def)
  moreover have "same_run s1 m"
    using cal_ok_first_trace [of "set_cal q (\<lambda>e. e\<lparr>exec_cksum := hash64 (ca_target E) (trace_bits (cal_queue s))\<rparr>) s1"]
    by (simp add: same_run_def m_def)
  ultimately show "same_run s s'" "cal_run s' = cal_run s" using c by (auto simp: m_def intro: same_run_trans)
qed

lemma ran_rewrite: "rewrite d r = Inr r' \<Longrightarrow> ran r' = ran r"
  by (auto simp: rewrite_def split: if_splits)

lemma ran_write_to_testcase: "write_to_testcase hooks d r = Inr r' \<Longrightarrow> ran r' = ran r"
  by (auto simp: write_to_testcase_def and_then_Inr_iff afl_fsrv_write_to_testcase_def into_shmem_def
    dest: ran_rewrite split: if_splits)

text \<open>The target fills the map in every run.\<close>

definition fills_map :: "target \<Rightarrow> nat \<Rightarrow> bool" where
  "fills_map T n \<longleftrightarrow> (\<forall>k d. length (run_trace (exec T k d)) = n)"

lemma cal_stage_keeps:
  assumes T: "fills_map (ca_target E) (map_size (cal_queue s))" and st: "cal_stage E q mem k (s, v) = Inr (stop, s', v')"
  shows "same_run s s'" "ran (cal_run s') = ran (cal_run s) + 1"
proof -
  obtain r where r: "write_to_testcase (ca_hooks E) (take (unat (len (entry (cal_queue s) q))) mem) (cal_run s) = Inr r"
    using st by (auto simp: cal_stage_def and_then_Inr_iff)
  note ran = ran_write_to_testcase [OF r]
  define o1 where "o1 = exec (ca_target E) (ran r) (input_of r)"
  define s1 where "s1 = s\<lparr>cal_run := r\<lparr>ran := ran r + 1\<rparr>, cal_queue := (cal_queue s)\<lparr>trace_bits := run_trace o1\<rparr>\<rparr>"
  have len: "length (run_trace o1) = map_size (cal_queue s)" using T by (simp add: fills_map_def o1_def)
  have "cal_ok s1" if "cal_ok s"
    using cal_ok_trace [OF that len] by (simp add: s1_def cal_ok_def)
  then have s1: "same_run s s1" "ran (cal_run s1) = ran (cal_run s) + 1" by (simp_all add: same_run_def s1_def ran)
  define s2 where "s2 = s1\<lparr>cal_queue := classify_counts (cal_queue s1)\<rparr>"
  have "cal_ok s2" if "cal_ok s1"
    using cal_ok_trace [OF that, of "classify_counts64 (map_size (cal_queue s1)) (trace_bits (cal_queue s1))"] len
    by (simp add: s2_def classify_counts_def s1_def length_classify64)
  then have s2: "same_run s1 s2" "cal_run s2 = cal_run s1" by (simp_all add: same_run_def s2_def classify_counts_def)
  define v1 where "v1 = v\<lparr>ca_fault := run_result o1\<rparr>"
  have "s' = s1 \<or> compare_trace E q (s2, v1) = (s', v')"
    using st r unfolding cal_stage_def
    by (auto simp: Let_def o1_def [symmetric] s1_def s2_def v1_def split: if_splits prod.splits)
  then show "same_run s s'" "ran (cal_run s') = ran (cal_run s) + 1"
    using s1 s2 compare_trace_keeps [of E q s2 v1 s' v'] by (auto intro: same_run_trans)
qed

lemma cal_loop_keeps:
  assumes "fills_map (ca_target E) (map_size (cal_queue (fst x)))" and "cal_loop E q mem k x = Inr (stop, x')"
  shows "same_run (fst x) (fst x') \<and> ran (cal_run (fst x')) \<le> ran (cal_run (fst x)) + (CAL_CYCLES_LONG - k)"
  using assms
proof (induction "CAL_CYCLES_LONG - k" arbitrary: k x rule: less_induct)
  case less
  show ?case
  proof (cases "k < cal_cycles (cal_fast E) (var_detected (snd x))")
    case False
    then show ?thesis using less.prems by (simp add: cal_loop.simps)
  next
    case True
    then have k: "k < CAL_CYCLES_LONG" by (auto simp: cal_cycles_def CAL_CYCLES_def CAL_CYCLES_LONG_def split: if_splits)
    obtain st s1 v1 where st: "cal_stage E q mem k x = Inr (st, s1, v1)"
      using less.prems True by (cases "cal_stage E q mem k x") (auto simp: cal_loop.simps [of E q mem k x])
    obtain s v where x: "x = (s, v)" by (cases x)
    note keep = cal_stage_keeps [OF _ st [unfolded x]]
    have k1: "same_run s s1" "ran (cal_run s1) = ran (cal_run s) + 1" using keep less.prems(1) x by auto
    show ?thesis
    proof (cases st)
      case True
      then have "x' = (s1, v1)" using less.prems(2) st \<open>k < cal_cycles _ _\<close> by (simp add: cal_loop.simps [of E q mem k x])
      then show ?thesis using k1 k x by simp
    next
      case False
      have "cal_loop E q mem (k + 1) (s1, v1) = Inr (stop, x')"
        using less.prems(2) st True False by (simp add: cal_loop.simps [of E q mem k x])
      then have "same_run s1 (fst x') \<and> ran (cal_run (fst x')) \<le> ran (cal_run s1) + (CAL_CYCLES_LONG - (k + 1))"
        using less.hyps [of "k + 1" "(s1, v1)"] k less.prems(1) k1(1) x by (simp add: same_run_def)
      then show ?thesis using k1 k x same_run_trans [OF k1(1), of "fst x'"] by auto
    qed
  qed
qed

lemma upd_entry_virgin [simp]: "virgin_bits (upd_entry q f k) = virgin_bits k" "non_instrumented_mode (upd_entry q f k) = non_instrumented_mode k"
  by (simp_all add: upd_entry_def)

lemma score_byte_virgin:
  "virgin_bits (score_byte q fav p2 i k) = virgin_bits k" "map_size (score_byte q fav p2 i k) = map_size k"
  "trace_bits (score_byte q fav p2 i k) = trace_bits k" "non_instrumented_mode (score_byte q fav p2 i k) = non_instrumented_mode k"
  by (simp_all add: score_byte_def drop_ref_def take_slot_def Let_def split: option.split)

lemma update_bitmap_score_virgin [simp]:
  "virgin_bits (update_bitmap_score q k) = virgin_bits k" "map_size (update_bitmap_score q k) = map_size k"
  "trace_bits (update_bitmap_score q k) = trace_bits k"
  "non_instrumented_mode (update_bitmap_score q k) = non_instrumented_mode k"
  unfolding update_bitmap_score_def by (rule fold_keeps, simp add: score_byte_virgin)+

lemma update_bitmap_score_length [simp]: "length (queue_buf (update_bitmap_score q k)) = length (queue_buf k)"
proof -
  have "map fname (queue_buf (update_bitmap_score q k)) = map fname (queue_buf k)" by (rule update_bitmap_score_keep) simp_all
  then show ?thesis by (rule map_eq_imp_length_eq)
qed

lemma measured_ok:
  assumes "queue_ok k" and "q < length (queue_buf k)"
  shows "queue_ok (update_bitmap_score q (upd_entry q (\<lambda>e. e\<lparr>exec_us := us\<rparr>) k))"
proof -
  have "queue_ok (upd_entry q (\<lambda>e. e\<lparr>exec_us := us\<rparr>) k)"
    using upd_entry_queue_ok [of k "\<lambda>e. e\<lparr>exec_us := us\<rparr>" q] assms(1) by (simp add: queue_ok_def)
  then show ?thesis by (rule queue_step_ok [OF queue_step.score, rotated]) (use assms(2) in simp)
qed

lemma cal_success_keeps:
  assumes "cal_success E q h t0 first_run (s, v) = (s', v')" and "cal_ok s" and "q < length (queue_buf (cal_queue s))"
  shows "cal_ok s'" "cal_run s' = cal_run s" "length (queue_buf (cal_queue s')) = length (queue_buf (cal_queue s))"
    "map_size (cal_queue s') = map_size (cal_queue s)" "virgin_bits (cal_queue s') = virgin_bits (cal_queue s)"
    "trace_bits (cal_queue s') = trace_bits (cal_queue s)" "var_bytes s' = var_bytes s"
    "exec_cksum (cal s' q) = exec_cksum (cal s q)" "cal_failed (cal s' q) = 0" "has_new_cov (cal s' q) = has_new_cov (cal s q)"
    "new_bits v' = new_bits v" "var_detected v' = var_detected v"
    "ca_fault v' = (if \<not> non_instrumented_mode (cal_queue s) \<and> first_run \<and> ca_fault v = FSRV_RUN_OK \<and> new_bits v = 0
       then FSRV_RUN_NOBITS else ca_fault v)"
proof -
  note unf = assms(1) [unfolded cal_success_def Let_def prod.case prod.inject]
  obtain us bits a b c d where s': "s' = (set_cal q (\<lambda>e. e\<lparr>bitmap_size := bits, handicap := h, cal_failed := 0\<rparr>) s)\<lparr>
      cal_queue := update_bitmap_score q (upd_entry q (\<lambda>e. e\<lparr>exec_us := us\<rparr>) (cal_queue s)),
      total_cal_us := a, total_cal_cycles := b, total_bitmap_size := c, total_bitmap_entries := d\<rparr>"
    using unf [THEN conjunct1, symmetric] by (rule that)
  have v': "v' = (if \<not> non_instrumented_mode (cal_queue s) \<and> first_run \<and> ca_fault v = FSRV_RUN_OK \<and> new_bits v = 0
       then v\<lparr>ca_fault := FSRV_RUN_NOBITS\<rparr> else v)"
    using unf [THEN conjunct2, symmetric] by simp
  show "cal_ok s'" using assms(2,3) measured_ok [of "cal_queue s" q us] by (simp add: s' cal_ok_def)
  show "cal_run s' = cal_run s" "length (queue_buf (cal_queue s')) = length (queue_buf (cal_queue s))"
    "map_size (cal_queue s') = map_size (cal_queue s)" "virgin_bits (cal_queue s') = virgin_bits (cal_queue s)"
    "trace_bits (cal_queue s') = trace_bits (cal_queue s)" "var_bytes s' = var_bytes s"
    "exec_cksum (cal s' q) = exec_cksum (cal s q)" "cal_failed (cal s' q) = 0" "has_new_cov (cal s' q) = has_new_cov (cal s q)"
    by (simp_all add: s' set_cal_def)
  show "new_bits v' = new_bits v" "var_detected v' = var_detected v"
    "ca_fault v' = (if \<not> non_instrumented_mode (cal_queue s) \<and> first_run \<and> ca_fault v = FSRV_RUN_OK \<and> new_bits v = 0
       then FSRV_RUN_NOBITS else ca_fault v)" by (simp_all add: v')
qed

lemma mark_as_variable_InrD:
  assumes "mark_as_variable l q k = Inr k'"
  shows "queue_ok k \<Longrightarrow> queue_ok k'" "map_size k' = map_size k" "virgin_bits k' = virgin_bits k"
    "trace_bits k' = trace_bits k" "length (queue_buf k') = length (queue_buf k)"
proof -
  define fs where "fs = insert (base_name (fname (entry k q))) (variable_files k)"
  have k': "k' = upd_entry q (\<lambda>e. e\<lparr>var_behavior := True\<rparr>) (k\<lparr>variable_files := fs\<rparr>)"
    using assms by (auto simp: mark_as_variable_def Let_def fs_def split: if_splits)
  have "queue_ok (k\<lparr>variable_files := fs\<rparr>) = queue_ok k" by (simp add: queue_ok_def refs_ok_def marks_ok_def)
  then show "queue_ok k \<Longrightarrow> queue_ok k'"
    using upd_entry_queue_ok [of "k\<lparr>variable_files := fs\<rparr>" "\<lambda>e. e\<lparr>var_behavior := True\<rparr>" q] by (simp add: queue_ok_def k')
  show "map_size k' = map_size k" "virgin_bits k' = virgin_bits k" "trace_bits k' = trace_bits k" "length (queue_buf k') = length (queue_buf k)"
    by (simp_all add: k')
qed

lemma cal_finish_keeps:
  assumes "cal_finish E q (s, v) = Inr (fault, s')"
  shows "fault = ca_fault v" "cal_ok s \<Longrightarrow> cal_ok s'" "cal_run s' = cal_run s"
    "virgin_bits (cal_queue s') = virgin_bits (cal_queue s)" "trace_bits (cal_queue s') = trace_bits (cal_queue s)"
    "var_bytes s' = var_bytes s" "map_size (cal_queue s') = map_size (cal_queue s)"
    "length (queue_buf (cal_queue s')) = length (queue_buf (cal_queue s))"
proof -
  define s1 where "s1 = (if new_bits v = 2 \<and> \<not> has_new_cov (cal s q)
    then (set_cal q (\<lambda>e. e\<lparr>has_new_cov := True\<rparr>) s)\<lparr>queued_with_cov := queued_with_cov s + 1\<rparr> else s)"
  define n where "n = count_bytes (map_size (cal_queue s1)) (var_bytes s1)"
  have s1: "cal_queue s1 = cal_queue s" "cal_run s1 = cal_run s" "var_bytes s1 = var_bytes s" "first_trace s1 = first_trace s"
    by (simp_all add: s1_def)
  have unf: "cal_finish E q (s, v) = (if \<not> var_detected v then Inr (ca_fault v, s1)
      else if var_behavior (entry (cal_queue s) q) then Inr (ca_fault v, s1\<lparr>var_byte_count := n\<rparr>)
      else and_then (mark_as_variable (links E) q (cal_queue s)) (\<lambda>k.
              Inr (ca_fault v, s1\<lparr>var_byte_count := n, cal_queue := k, queued_variable := queued_variable s1 + 1\<rparr>)))"
    unfolding cal_finish_def prod.case Let_def s1_def [symmetric] n_def using s1 by simp
  have "fault = ca_fault v \<and> (cal_ok s \<longrightarrow> cal_ok s') \<and> cal_run s' = cal_run s \<and>
    virgin_bits (cal_queue s') = virgin_bits (cal_queue s) \<and> trace_bits (cal_queue s') = trace_bits (cal_queue s) \<and>
    var_bytes s' = var_bytes s \<and> map_size (cal_queue s') = map_size (cal_queue s) \<and>
    length (queue_buf (cal_queue s')) = length (queue_buf (cal_queue s))"
  proof (cases "var_detected v \<and> \<not> var_behavior (entry (cal_queue s) q)")
    case False
    then have "fault = ca_fault v" "s' = s1 \<or> s' = s1\<lparr>var_byte_count := n\<rparr>" using assms unfolding unf by (auto split: if_splits)
    then show ?thesis using s1 by (auto simp: cal_ok_def)
  next
    case True
    then obtain k where k: "mark_as_variable (links E) q (cal_queue s) = Inr k" "fault = ca_fault v"
      "s' = s1\<lparr>var_byte_count := n, cal_queue := k, queued_variable := queued_variable s1 + 1\<rparr>"
      using assms unfolding unf by (auto simp: and_then_Inr_iff)
    show ?thesis using mark_as_variable_InrD [OF k(1)] k(2) s1 by (simp add: k(3) cal_ok_def)
  qed
  then show "fault = ca_fault v" "cal_ok s \<Longrightarrow> cal_ok s'" "cal_run s' = cal_run s"
    "virgin_bits (cal_queue s') = virgin_bits (cal_queue s)" "trace_bits (cal_queue s') = trace_bits (cal_queue s)"
    "var_bytes s' = var_bytes s" "map_size (cal_queue s') = map_size (cal_queue s)"
    "length (queue_buf (cal_queue s')) = length (queue_buf (cal_queue s))" by blast+
qed

lemma calibrate_case_keeps:
  assumes T: "fills_map (ca_target E) (map_size (cal_queue s))" and ok: "cal_ok s"
    and q: "q < length (queue_buf (cal_queue s))" and r: "calibrate_case E q mem h s = Inr (fault, s')"
  shows "cal_ok s' \<and> ran (cal_run s') \<le> ran (cal_run s) + CAL_CYCLES_LONG \<and> map_size (cal_queue s') = map_size (cal_queue s) \<and>
    length (queue_buf (cal_queue s')) = length (queue_buf (cal_queue s))"
proof -
  define s0 where "s0 = (if cmplog_mode (cal_queue s) then set_cal q (\<lambda>e. e\<lparr>exec_cksum := 0\<rparr>) s else s)"
  define s1 where "s1 = set_cal q (\<lambda>e. e\<lparr>cal_failed := cal_failed e + 1\<rparr>) s0"
  define fr where "fr = (exec_cksum (cal s0 q) = 0)"
  define v0 where "v0 = \<lparr>new_bits = 0, var_detected = False, ca_fault = FSRV_RUN_OK\<rparr>"
  define x where "x = (if fr then (s1, v0) else see_new_bits (s1\<lparr>first_trace := trace_bits (cal_queue s1)\<rparr>, v0))"
  have s1: "cal_ok s1" "cal_queue s1 = cal_queue s" "cal_run s1 = cal_run s"
    using ok by (simp_all add: s1_def s0_def)
  have x: "cal_ok (fst x)" "map_size (cal_queue (fst x)) = map_size (cal_queue s)"
    "queue_buf (cal_queue (fst x)) = queue_buf (cal_queue s)" "cal_run (fst x) = cal_run s"
  proof -
    obtain s2 v2 where n: "see_new_bits (s1\<lparr>first_trace := trace_bits (cal_queue s1)\<rparr>, v0) = (s2, v2)" by fastforce
    note see_new_bits_ok [OF cal_ok_first_trace [OF s1(1)] n]
    then show "cal_ok (fst x)" "map_size (cal_queue (fst x)) = map_size (cal_queue s)"
      "queue_buf (cal_queue (fst x)) = queue_buf (cal_queue s)" "cal_run (fst x) = cal_run s"
      using s1 n by (simp_all add: x_def)
  qed
  define t0 where "t0 = clock E (ran (cal_run s1))"
  have unf: "calibrate_case E q mem h s =
      (case cal_loop E q mem 0 x of Inl e \<Rightarrow> Inl (Inl e)
       | Inr (stop, x) \<Rightarrow> (case cal_finish E q (if stop then x else cal_success E q h t0 fr x) of Inl e \<Rightarrow> Inl (Inr e) | Inr y \<Rightarrow> Inr y))"
    unfolding calibrate_case_def Let_def s0_def s1_def fr_def v0_def x_def t0_def by (rule refl)
  obtain stop s2 v2 where l: "cal_loop E q mem 0 x = Inr (stop, s2, v2)"
    using r unfolding unf by (cases "cal_loop E q mem 0 x") auto
  have k2: "same_run (fst x) s2" "ran (cal_run s2) \<le> ran (cal_run s) + CAL_CYCLES_LONG"
    using cal_loop_keeps [OF _ l] T x by auto
  then have ok2: "cal_ok s2" "queue_buf (cal_queue s2) = queue_buf (cal_queue s)" "map_size (cal_queue s2) = map_size (cal_queue s)"
    using x by (simp_all add: same_run_def)
  obtain s3 v3 where y: "(if stop then (s2, v2) else cal_success E q h t0 fr (s2, v2)) = (s3, v3)" by fastforce
  have s3: "cal_ok s3 \<and> cal_run s3 = cal_run s2 \<and> map_size (cal_queue s3) = map_size (cal_queue s) \<and>
    length (queue_buf (cal_queue s3)) = length (queue_buf (cal_queue s))"
  proof (cases stop)
    case True
    then show ?thesis using y ok2 by simp
  next
    case False
    then have "cal_success E q h t0 fr (s2, v2) = (s3, v3)" using y by (simp only: if_False)
    from cal_success_keeps(1-4) [OF this ok2(1)] show ?thesis using ok2 q by simp
  qed
  have "cal_finish E q (s3, v3) = Inr (fault, s')"
  proof -
    have "calibrate_case E q mem h s = (case cal_finish E q (s3, v3) of Inl e \<Rightarrow> Inl (Inr e) | Inr y \<Rightarrow> Inr y)"
      unfolding unf l sum.case prod.case y ..
    then show ?thesis using r by (cases "cal_finish E q (s3, v3)") simp_all
  qed
  from cal_finish_keeps [OF this] show ?thesis using s3 k2 by simp
qed

section \<open>A steady target\<close>

definition calm_env :: "cal_env \<Rightarrow> nat \<Rightarrow> bool" where
  "calm_env E n \<longleftrightarrow> ca_hooks E = [] \<and> steady (ca_target E) \<and> fills_map (ca_target E) n \<and>
     (\<forall>k d. \<not> run_stop_soon (exec (ca_target E) k d) \<and> run_result (exec (ca_target E) k d) = expected E)"

text \<open>The classified trace of an input.\<close>

definition class_trace :: "cal_env \<Rightarrow> nat \<Rightarrow> u8 list \<Rightarrow> u8 list" where
  "class_trace E n d = classify_counts64 n (run_trace (exec (ca_target E) 0 d))"

lemma calm_stage:
  assumes E: "calm_env E (map_size (cal_queue s))" and f: "files_only (cal_run s)"
    and d: "d = take (unat (len (entry (cal_queue s) q))) mem"
    and c: "non_instrumented_mode (cal_queue s) \<or> 0 < k \<or> count_bytes (map_size (cal_queue s)) (run_trace (exec (ca_target E) 0 d)) \<noteq> 0"
  shows "\<exists>r. files_only r \<and> ran r = ran (cal_run s) + 1 \<and>
    cal_stage E q mem k (s, v) = (case compare_trace E q
      (s\<lparr>cal_run := r, cal_queue := (cal_queue s)\<lparr>trace_bits := class_trace E (map_size (cal_queue s)) d\<rparr>\<rparr>, v\<lparr>ca_fault := expected E\<rparr>)
      of (s, v) \<Rightarrow> Inr (False, s, v))"
proof -
  obtain r where r: "rewrite d (cal_run s) = Inr r" "input_of r = d" "files_only r" "ran r = ran (cal_run s)"
    using rewrite_file [OF f] by blast
  have hooks: "ca_hooks E = []" using E by (simp add: calm_env_def)
  have w: "write_to_testcase (ca_hooks E) (take (unat (len (entry (cal_queue s) q))) mem) (cal_run s) = Inr r"
    using r(1) f hooks d by (simp add: write_to_testcase_def afl_fsrv_write_to_testcase_def files_only_def)
  define o1 where "o1 = exec (ca_target E) (ran r) d"
  have o1: "\<not> run_stop_soon o1" "run_result o1 = expected E" "run_trace o1 = run_trace (exec (ca_target E) 0 d)"
    using E by (simp_all add: o1_def calm_env_def steady_def)
  have "files_only (r\<lparr>ran := ran r + 1\<rparr>)" using r(3) by (simp add: files_only_def)
  moreover have "cal_stage E q mem k (s, v) = (case compare_trace E q
      (s\<lparr>cal_run := r\<lparr>ran := ran r + 1\<rparr>, cal_queue := (cal_queue s)\<lparr>trace_bits := class_trace E (map_size (cal_queue s)) d\<rparr>\<rparr>,
       v\<lparr>ca_fault := expected E\<rparr>) of (s, v) \<Rightarrow> Inr (False, s, v))"
    using c o1 by (auto simp: cal_stage_def w r(2) o1_def [symmetric] Let_def classify_counts_def class_trace_def)
  ultimately show ?thesis using r(4) by (intro exI [of _ "r\<lparr>ran := ran r + 1\<rparr>"]) simp
qed

lemma calm_rest:
  assumes E: "calm_env E (map_size (cal_queue s))" and d: "d = take (unat (len (entry (cal_queue s) q))) mem"
    and t: "trace_bits (cal_queue s) = class_trace E (map_size (cal_queue s)) d"
    and c: "exec_cksum (cal s q) = hash64 (ca_target E) (trace_bits (cal_queue s))"
    and v: "\<not> var_detected v" "ca_fault v = expected E"
  shows "files_only r \<Longrightarrow> 0 < k \<Longrightarrow> k \<le> cal_cycles (cal_fast E) False \<Longrightarrow>
    \<exists>r'. files_only r' \<and> ran r' + k = ran r + cal_cycles (cal_fast E) False \<and>
      cal_loop E q mem k (s\<lparr>cal_run := r\<rparr>, v) = Inr (False, s\<lparr>cal_run := r'\<rparr>, v)"
proof (induction "cal_cycles (cal_fast E) False - k" arbitrary: k r)
  case 0
  then show ?case using v by (auto simp: cal_loop.simps [of E q mem k])
next
  case (Suc n)
  let ?s = "s\<lparr>cal_run := r\<rparr>"
  have k: "k < cal_cycles (cal_fast E) False" using Suc.hyps(2) by simp
  obtain r1 where r1: "files_only r1" "ran r1 = ran r + 1"
    "cal_stage E q mem k (?s, v) = (case compare_trace E q
      (?s\<lparr>cal_run := r1, cal_queue := (cal_queue ?s)\<lparr>trace_bits := class_trace E (map_size (cal_queue ?s)) d\<rparr>\<rparr>, v\<lparr>ca_fault := expected E\<rparr>)
      of (s, v) \<Rightarrow> Inr (False, s, v))"
    using calm_stage [of E ?s d q mem k v] E d Suc.prems(1,2) by auto
  have "v\<lparr>ca_fault := expected E\<rparr> = v" using v(2) by simp
  moreover have "(cal_queue ?s)\<lparr>trace_bits := class_trace E (map_size (cal_queue ?s)) d\<rparr> = cal_queue s" using t by simp
  ultimately have "cal_stage E q mem k (?s, v) = Inr (False, s\<lparr>cal_run := r1\<rparr>, v)"
    using r1(3) c by (simp add: compare_trace_def)
  then have "cal_loop E q mem k (?s, v) = cal_loop E q mem (k + 1) (s\<lparr>cal_run := r1\<rparr>, v)"
    using k v by (simp add: cal_loop.simps [of E q mem k])
  moreover have "\<exists>r'. files_only r' \<and> ran r' + (k + 1) = ran r1 + cal_cycles (cal_fast E) False \<and>
      cal_loop E q mem (k + 1) (s\<lparr>cal_run := r1\<rparr>, v) = Inr (False, s\<lparr>cal_run := r'\<rparr>, v)"
    using Suc.hyps(1) [of "k + 1" r1] Suc.hyps(2) r1(1) k by simp
  ultimately show ?case using r1(2) by auto
qed

lemma calm_first:
  fixes s :: cal_state and q :: nat and mem :: "u8 list" and E :: cal_env
  defines "n \<equiv> map_size (cal_queue s)" and "d \<equiv> take (unat (len (entry (cal_queue s) q))) mem"
  defines "t \<equiv> class_trace E n d"
  defines "b \<equiv> verdict t (virgin_bits (cal_queue s))"
  assumes E: "calm_env E n" and f: "files_only (cal_run s)" and ok: "cal_ok s"
    and seen: "non_instrumented_mode (cal_queue s) \<or> count_bytes n (run_trace (exec (ca_target E) 0 d)) \<noteq> 0"
    and new: "exec_cksum (cal s q) = 0" and h: "hash64 (ca_target E) t \<noteq> 0"
    and v: "v = \<lparr>new_bits = 0, var_detected = False, ca_fault = FSRV_RUN_OK\<rparr>"
  shows "\<exists>s'. cal_loop E q mem 0 (s, v) = Inr (False, s', v\<lparr>new_bits := b, ca_fault := expected E\<rparr>) \<and> cal_ok s' \<and>
    files_only (cal_run s') \<and> ran (cal_run s') = ran (cal_run s) + cal_cycles (cal_fast E) False \<and>
    trace_bits (cal_queue s') = t \<and> virgin_bits (cal_queue s') = clear_seen t (virgin_bits (cal_queue s)) \<and>
    queue_buf (cal_queue s') = queue_buf (cal_queue s) \<and> map_size (cal_queue s') = n \<and>
    non_instrumented_mode (cal_queue s') = non_instrumented_mode (cal_queue s) \<and>
    var_bytes s' = var_bytes s \<and> cal s' q = (cal s q)\<lparr>exec_cksum := hash64 (ca_target E) t\<rparr>"
proof -
  obtain r where r: "files_only r" "ran r = ran (cal_run s) + 1"
    "cal_stage E q mem 0 (s, v) = (case compare_trace E q
      (s\<lparr>cal_run := r, cal_queue := (cal_queue s)\<lparr>trace_bits := t\<rparr>\<rparr>, v\<lparr>ca_fault := expected E\<rparr>) of (s, v) \<Rightarrow> Inr (False, s, v))"
    using calm_stage [of E s d q mem 0 v] E f seen unfolding d_def n_def t_def by auto
  define s1 where "s1 = s\<lparr>cal_run := r, cal_queue := (cal_queue s)\<lparr>trace_bits := t\<rparr>\<rparr>"
  have lt: "length t = n" using E by (simp add: t_def class_trace_def calm_env_def fills_map_def length_classify64)
  have s1: "cal_ok s1" using cal_ok_trace [OF ok, of t] lt by (simp add: s1_def cal_ok_def n_def)
  define s2 where "s2 = s1\<lparr>cal_queue := (cal_queue s1)\<lparr>virgin_bits := clear_seen t (virgin_bits (cal_queue s)),
    bitmap_changed := bitmap_changed (cal_queue s) \<or> b \<noteq> 0\<rparr>\<rparr>"
  have k1: "queue_ok (cal_queue s1)" "length (virgin_bits (cal_queue s1)) = map_size (cal_queue s1)"
    using s1 by (simp_all add: cal_ok_def)
  have b: "verdict (trace_bits (cal_queue s1)) (virgin_bits (cal_queue s1)) = b" by (simp add: s1_def b_def)
  have sn: "see_new_bits (s1, v\<lparr>ca_fault := expected E\<rparr>) = (s2, v\<lparr>new_bits := b, ca_fault := expected E\<rparr>)"
    using see_new_bits_eq [OF k1, of "v\<lparr>ca_fault := expected E\<rparr>"] v b
    by (cases "b = 0") (simp_all add: Let_def s2_def s1_def word_less_nat_alt unat_gt_0)
  have s2: "cal_ok s2" by (rule see_new_bits_ok(1) [OF s1 sn])
  define s3 where "s3 = (set_cal q (\<lambda>e. e\<lparr>exec_cksum := hash64 (ca_target E) t\<rparr>) s2)\<lparr>first_trace := t\<rparr>"
  have tb: "trace_bits (cal_queue s1) = t" "trace_bits (cal_queue s2) = t" by (simp_all add: s1_def s2_def)
  have cs: "cal s1 = cal s" "cal s2 = cal s" by (simp_all add: s1_def s2_def)
  have ct: "compare_trace E q (s1, v\<lparr>ca_fault := expected E\<rparr>) = (s3, v\<lparr>new_bits := b, ca_fault := expected E\<rparr>)"
    using new h unfolding compare_trace_def Let_def fst_conv tb cs sn prod.case by (simp add: s3_def)
  have s3: "cal_ok s3" using cal_ok_first_trace [OF s2] by (simp add: s3_def tb cal_ok_def)
  define v1 where "v1 = v\<lparr>new_bits := b, ca_fault := expected E\<rparr>"
  have pos: "0 < cal_cycles (cal_fast E) False" "Suc 0 \<le> cal_cycles (cal_fast E) False"
    by (auto simp: cal_cycles_def CAL_CYCLES_def)
  have st: "cal_stage E q mem 0 (s, v) = Inr (False, s3, v1)"
    using r(3) ct by (simp add: s1_def [symmetric] v1_def)
  have loop: "cal_loop E q mem 0 (s, v) = cal_loop E q mem 1 (s3, v1)"
    using st pos v by (simp add: cal_loop.simps [of E q mem 0])
  have q3: "map_size (cal_queue s3) = n" "queue_buf (cal_queue s3) = queue_buf (cal_queue s)" "trace_bits (cal_queue s3) = t"
    "cal_run s3 = r" by (simp_all add: s3_def s2_def s1_def n_def)
  have rest: "\<exists>r'. files_only r' \<and> ran r' + 1 = ran r + cal_cycles (cal_fast E) False \<and>
      cal_loop E q mem 1 (s3\<lparr>cal_run := r\<rparr>, v1) = Inr (False, s3\<lparr>cal_run := r'\<rparr>, v1)"
    by (rule calm_rest [where d = d]) (use E q3 r(1) pos v in \<open>simp_all add: d_def t_def v1_def s3_def\<close>)
  moreover have "s3\<lparr>cal_run := r\<rparr> = s3" using q3(4) by simp
  ultimately obtain r' where r': "files_only r'" "ran r' + 1 = ran r + cal_cycles (cal_fast E) False"
    "cal_loop E q mem 0 (s, v) = Inr (False, s3\<lparr>cal_run := r'\<rparr>, v1)" using loop by auto
  have "cal_ok (s3\<lparr>cal_run := r'\<rparr>)" using s3 by (simp add: cal_ok_def)
  then show ?thesis using r' r(2) q3
    by (intro exI [of _ "s3\<lparr>cal_run := r'\<rparr>"]) (simp add: v1_def s3_def s2_def s1_def set_cal_def)
qed

lemma calm_calibration:
  fixes s :: cal_state and q :: nat and mem :: "u8 list" and E :: cal_env
  defines "n \<equiv> map_size (cal_queue s)" and "d \<equiv> take (unat (len (entry (cal_queue s) q))) mem"
  defines "t \<equiv> class_trace E n d"
  defines "b \<equiv> verdict t (virgin_bits (cal_queue s))"
  assumes E: "calm_env E n" and x: "expected E = FSRV_RUN_OK" and f: "files_only (cal_run s)" and ok: "cal_ok s"
    and q: "q < length (queue_buf (cal_queue s))"
    and seen: "non_instrumented_mode (cal_queue s) \<or> count_bytes n (run_trace (exec (ca_target E) 0 d)) \<noteq> 0"
    and new: "exec_cksum (cal s q) = 0" and hh: "hash64 (ca_target E) t \<noteq> 0"
  shows "\<exists>s'. calibrate_case E q mem h s =
      Inr (if \<not> non_instrumented_mode (cal_queue s) \<and> b = 0 then FSRV_RUN_NOBITS else FSRV_RUN_OK, s') \<and>
    cal_ok s' \<and> ran (cal_run s') = ran (cal_run s) + cal_cycles (cal_fast E) False \<and>
    trace_bits (cal_queue s') = t \<and> virgin_bits (cal_queue s') = clear_seen t (virgin_bits (cal_queue s)) \<and> var_bytes s' = var_bytes s \<and>
    exec_cksum (cal s' q) = hash64 (ca_target E) t \<and> cal_failed (cal s' q) = 0 \<and>
    has_new_cov (cal s' q) = (has_new_cov (cal s q) \<or> b = 2)"
proof -
  define v where "v = \<lparr>new_bits = 0 :: u8, var_detected = False, ca_fault = FSRV_RUN_OK\<rparr>"
  define s1 where "s1 = set_cal q (\<lambda>e. e\<lparr>cal_failed := cal_failed e + 1\<rparr>) s"
  have same: "(if cmplog_mode (cal_queue s) then set_cal q (\<lambda>e. e\<lparr>exec_cksum := 0\<rparr>) s else s) = s"
  proof -
    have "(cal s q)\<lparr>exec_cksum := 0\<rparr> = cal s q" using new by (metis calibration.surjective calibration.update_convs(1))
    then show ?thesis by (simp add: set_cal_def)
  qed
  have s1: "cal_queue s1 = cal_queue s" "cal_run s1 = cal_run s" "cal_ok s1" "var_bytes s1 = var_bytes s"
    "exec_cksum (cal s1 q) = 0" "has_new_cov (cal s1 q) = has_new_cov (cal s q)"
    using ok new by (simp_all add: s1_def)
  obtain s2 where s2: "cal_loop E q mem 0 (s1, v) = Inr (False, s2, v\<lparr>new_bits := b, ca_fault := expected E\<rparr>)" "cal_ok s2"
    "ran (cal_run s2) = ran (cal_run s) + cal_cycles (cal_fast E) False"
    "trace_bits (cal_queue s2) = t" "virgin_bits (cal_queue s2) = clear_seen t (virgin_bits (cal_queue s))"
    "queue_buf (cal_queue s2) = queue_buf (cal_queue s)"
    "non_instrumented_mode (cal_queue s2) = non_instrumented_mode (cal_queue s)"
    "var_bytes s2 = var_bytes s" "cal s2 q = (cal s1 q)\<lparr>exec_cksum := hash64 (ca_target E) t\<rparr>"
    using calm_first [of E s1 q mem v] E f seen hh s1 by (simp add: n_def d_def t_def b_def v_def) blast
  define v2 where "v2 = v\<lparr>new_bits := b, ca_fault := FSRV_RUN_OK\<rparr>"
  obtain s3 v3 where c: "cal_success E q h (clock E (ran (cal_run s1))) True (s2, v2) = (s3, v3)" by fastforce
  have q2: "q < length (queue_buf (cal_queue s2))" using q s2(6) by simp
  note s3 = cal_success_keeps [OF c s2(2) q2]
  have v3: "new_bits v3 = b" "\<not> var_detected v3"
    "ca_fault v3 = (if \<not> non_instrumented_mode (cal_queue s) \<and> b = 0 then FSRV_RUN_NOBITS else FSRV_RUN_OK)"
    using s3 s2(7) by (simp_all add: v2_def v_def)
  define s4 where "s4 = (if b = 2 \<and> \<not> has_new_cov (cal s3 q)
    then (set_cal q (\<lambda>e. e\<lparr>has_new_cov := True\<rparr>) s3)\<lparr>queued_with_cov := queued_with_cov s3 + 1\<rparr> else s3)"
  have fin: "cal_finish E q (s3, v3) = Inr (ca_fault v3, s4)" using v3(1,2) by (simp add: cal_finish_def s4_def)
  have "calibrate_case E q mem h s = Inr (ca_fault v3, s4)"
    unfolding calibrate_case_def Let_def same
    using new s2(1) c fin by (simp add: s1_def [symmetric] v_def [symmetric] v2_def [symmetric] x)
  moreover have "cal_ok s4" by (rule cal_finish_keeps(2) [OF fin s3(1)])
  moreover note cal_finish_keeps [OF fin]
  moreover have "cal s4 q = (if b = 2 \<and> \<not> has_new_cov (cal s3 q) then (cal s3 q)\<lparr>has_new_cov := True\<rparr> else cal s3 q)"
    by (simp add: s4_def set_cal_def)
  then have "exec_cksum (cal s4 q) = exec_cksum (cal s3 q)" "cal_failed (cal s4 q) = cal_failed (cal s3 q)"
    "has_new_cov (cal s4 q) = (has_new_cov (cal s3 q) \<or> b = 2)" by auto
  ultimately show ?thesis using s3 s2 s1(6) v3(3) by (intro exI [of _ s4]) simp
qed

section \<open>Properties\<close>

text \<open>
  C27: whatever the target does (it may behave differently in every run, crash, time out or be
  interrupted), a calibration runs it at most \<^verbatim>\<open>CAL_CYCLES_LONG\<close> times and keeps the invariants: the
  references and marks of the queue, and that a map byte once found to be variable is never again reported as new.
\<close>

theorem calibrate_case_invariant:
  assumes "fills_map (ca_target E) (map_size (cal_queue s))" and "cal_ok s" and "q < length (queue_buf (cal_queue s))"
    and "calibrate_case E q mem h s = Inr (fault, s')"
  shows "cal_ok s' \<and> ran (cal_run s') \<le> ran (cal_run s) + 20"
  using calibrate_case_keeps [OF assms] by (simp add: CAL_CYCLES_LONG_def)

text \<open>
  C28: a first calibration of an entry on a target that depends on its input alone runs it three times
  (\<^verbatim>\<open>AFL_CAL_FAST\<close>) or eight times. The entry gets the checksum of its classified trace, what the trace hits is
  removed from \<^verbatim>\<open>virgin_bits\<close>, no byte is marked as variable, and the result says whether the
  trace was new; \<^verbatim>\<open>has_new_cov\<close> is set when a tuple was hit that had never been hit.
\<close>

theorem calibrate_case_steady:
  assumes "calm_env E (map_size (cal_queue s))" and "expected E = FSRV_RUN_OK" and "files_only (cal_run s)" and "cal_ok s"
    and "q < length (queue_buf (cal_queue s))" and "d = take (unat (len (entry (cal_queue s) q))) mem"
    and "t = class_trace E (map_size (cal_queue s)) d"
    and "non_instrumented_mode (cal_queue s) \<or> count_bytes (map_size (cal_queue s)) (run_trace (exec (ca_target E) 0 d)) \<noteq> 0"
    and "exec_cksum (cal s q) = 0" and "hash64 (ca_target E) t \<noteq> 0"
  shows "\<exists>s'. calibrate_case E q mem h s =
      Inr (if \<not> non_instrumented_mode (cal_queue s) \<and> \<not> fresh_hit t (virgin_bits (cal_queue s)) then FSRV_RUN_NOBITS else FSRV_RUN_OK, s') \<and>
    ran (cal_run s') = ran (cal_run s) + (if cal_fast E then 3 else 8) \<and>
    trace_bits (cal_queue s') = t \<and> virgin_bits (cal_queue s') = clear_seen t (virgin_bits (cal_queue s)) \<and> var_bytes s' = var_bytes s \<and>
    exec_cksum (cal s' q) = hash64 (ca_target E) t \<and> cal_failed (cal s' q) = 0 \<and>
    has_new_cov (cal s' q) = (has_new_cov (cal s q) \<or> pristine_hit t (virgin_bits (cal_queue s)))"
proof -
  have v: "verdict t w = 0 \<longleftrightarrow> \<not> fresh_hit t w" "verdict t w = 2 \<longleftrightarrow> pristine_hit t w" for w
    by (simp_all add: verdict_eq_0_iff) (simp add: verdict_def)
  show ?thesis using calm_calibration [of E s q mem h] assms v by (auto simp: cal_cycles_def CAL_CYCLES_def)
qed

section \<open>Witnesses\<close>

definition nine_cal_env :: cal_env where
  "nine_cal_env = \<lparr>ca_target = \<lparr>exec = \<lambda>k. nine, hash64 = \<lambda>t. 7\<rparr>, ca_hooks = [], expected = FSRV_RUN_OK, cal_fast = True,
     ca_fixed_seed = False, exec_tmout = 1000, links = True, clock = of_nat\<rparr>"

definition nine_cal :: cal_state where
  "nine_cal = \<lparr>cal_queue = twelve_queue, cal_run = file_runner, cal = \<lambda>q. \<lparr>exec_cksum = 0, cal_failed = 0, has_new_cov = False,
       bitmap_size = 0, handicap = 0\<rparr>, var_bytes = replicate 8 0, first_trace = replicate 8 0, total_cal_us = 0, total_cal_cycles = 0,
     total_bitmap_size = 0, total_bitmap_entries = 0, queued_with_cov = 0, queued_variable = 0, var_byte_count = 0\<rparr>"

lemma nine_cal_ok: "cal_ok nine_cal" "cal_queue nine_cal = twelve_queue" "cal_run nine_cal = file_runner"
  "exec_cksum (cal nine_cal 0) = 0"
proof -
  have "virgin_bits twelve_queue = replicate 8 255" by (simp add: twelve_queue_def add_to_queue_def empty_queue_def Let_def)
  then show "cal_ok nine_cal" by (simp add: cal_ok_def nine_cal_def twelve_queue nth_Cons' less_Suc_eq)
qed (simp_all add: nine_cal_def)

lemma nine_calm: "calm_env nine_cal_env 8" "fills_map (ca_target nine_cal_env) 8" "expected nine_cal_env = FSRV_RUN_OK"
  by (simp_all add: calm_env_def nine_cal_env_def nine_def steady_def fills_map_def)

lemma nine_counted: "count_bytes 8 (run_trace (exec (ca_target nine_cal_env) 0 (take 12 twelve))) \<noteq> 0"
proof -
  have "run_trace (exec (ca_target nine_cal_env) 0 (take 12 twelve)) = replicate 8 1"
    by (simp add: nine_cal_env_def nine_def twelve_def)
  moreover have "count_bytes 8 (replicate 8 1) = 8" by code_simp
  ultimately show ?thesis by simp
qed

theorem calibrate_case_steady_witness:
  "\<exists>fault s'. calibrate_case nine_cal_env 0 twelve 0 nine_cal = Inr (fault, s') \<and> ran (cal_run s') = 3 \<and>
     exec_cksum (cal s' 0) = 7"
  using calibrate_case_steady [of nine_cal_env nine_cal 0 "take 12 twelve" twelve "class_trace nine_cal_env 8 (take 12 twelve)" 0]
    nine_calm nine_cal_ok nine_counted
  by (auto simp: twelve_queue twelve_setup) (auto simp: nine_cal_env_def file_runner_def)

theorem calibrate_case_invariant_witness:
  "\<exists>fault s'. calibrate_case nine_cal_env 0 twelve 0 nine_cal = Inr (fault, s') \<and> cal_ok s' \<and> ran (cal_run s') \<le> 20"
proof -
  obtain fault s' where s': "calibrate_case nine_cal_env 0 twelve 0 nine_cal = Inr (fault, s')"
    using calm_calibration [of nine_cal_env nine_cal 0 twelve 0] nine_calm nine_cal_ok nine_counted
    by (auto simp: twelve_queue twelve_setup) (auto simp: nine_cal_env_def)
  then show ?thesis
    using calibrate_case_invariant [of nine_cal_env nine_cal 0 twelve 0 fault s'] nine_calm nine_cal_ok
    by (simp add: twelve_queue) (simp add: file_runner_def)
qed

end
