(* ===== verification/Fuzz_One.thy ===== *)
theory Fuzz_One
  imports Extras
begin

text \<open>
  The helpers at the head of \<^verbatim>\<open>src/afl-fuzz-one.c\<close>: the length of a random block, the three
  predicates by which a deterministic stage recognises a value that an earlier stage has tried, and
  the extent of the difference of two files.
\<close>

section \<open>Random blocks\<close>

definition HAVOC_BLK_SMALL :: u32 where "HAVOC_BLK_SMALL = 32"
definition HAVOC_BLK_MEDIUM :: u32 where "HAVOC_BLK_MEDIUM = 128"
definition HAVOC_BLK_LARGE :: u32 where "HAVOC_BLK_LARGE = 1500"
definition HAVOC_BLK_XL :: u32 where "HAVOC_BLK_XL = 32768"

text \<open>The \<^verbatim>\<open>switch\<close>: the bounds of the block and the generator's next state.\<close>

definition block_bounds ::
    "('r \<Rightarrow> u32 \<Rightarrow> (u32 \<times> 'r) option) \<Rightarrow> u32 \<Rightarrow> 'r \<Rightarrow> (u32 \<times> u32 \<times> 'r) option" where
  "block_bounds below rlim r = Option.bind (below r rlim) (\<lambda>(c, r).
     if c = 0 then Some (1, HAVOC_BLK_SMALL, r)
     else if c = 1 then Some (HAVOC_BLK_SMALL, HAVOC_BLK_MEDIUM, r)
     else map_option (\<lambda>(d, r).
       if d \<noteq> 0 then (HAVOC_BLK_MEDIUM, HAVOC_BLK_LARGE, r) else (HAVOC_BLK_LARGE, HAVOC_BLK_XL, r)) (below r 10))"

definition choose_block_len ::
    "('r \<Rightarrow> u32 \<Rightarrow> (u32 \<times> 'r) option) \<Rightarrow> u64 \<Rightarrow> bool \<Rightarrow> u32 \<Rightarrow> 'r \<Rightarrow> (u32 \<times> 'r) option" where
  "choose_block_len below queue_cycle run_over10m limit r =
    (let rlim = (if \<not> run_over10m then 1 else ucast (min queue_cycle 3))
     in Option.bind (block_bounds below rlim r) (\<lambda>(min_value, max_value, r).
          let min_value = (if limit \<le> min_value then 1 else min_value)
          in map_option (\<lambda>(x, r). (min_value + x, r)) (below r (min max_value limit - min_value + 1))))"

section \<open>Values tried before\<close>

definition ARITH_MAX :: nat where "ARITH_MAX = (35 :: nat)"

text \<open>Shift right until the lowest bit is set; only called on a non-zero value.\<close>

function shift_low :: "u32 \<Rightarrow> nat \<Rightarrow> u32 \<times> nat" where
  "shift_low x sh = (if x = 0 \<or> bit x 0 then (x, sh) else shift_low (drop_bit 1 x) (sh + 1))"
  by auto
termination
proof (relation "measure (\<lambda>(x, sh). unat x)")
  fix x :: u32 and sh :: nat assume "\<not> (x = 0 \<or> bit x 0)"
  then show "((drop_bit 1 x, sh + 1), (x, sh)) \<in> measure (\<lambda>(x, sh). unat x)"
    by (simp add: drop_bit_Suc unat_div unat_gt_0)
qed simp

declare shift_low.simps [simp del]

definition could_be_bitflip :: "u32 \<Rightarrow> bool" where
  "could_be_bitflip xor_val =
    (if xor_val = 0 then True
     else case shift_low xor_val 0 of (x, sh) \<Rightarrow>
       if x = 1 \<or> x = 3 \<or> x = 15 then True
       else if sh AND 7 \<noteq> 0 then False
       else x = 0xff \<or> x = 0xffff \<or> x = 0xffffffff)"

text \<open>The loops count the parts of \<open>w\<close> bits that differ and keep the last such pair.\<close>

definition part :: "nat \<Rightarrow> nat \<Rightarrow> u32 \<Rightarrow> u32" where
  "part w i x = take_bit w (drop_bit (w * i) x)"

definition differing :: "nat \<Rightarrow> nat \<Rightarrow> u32 \<Rightarrow> u32 \<Rightarrow> nat \<times> u32 \<times> u32" where
  "differing w n old new = fold (\<lambda>i (diffs, ov, nv).
     if part w i old \<noteq> part w i new then (diffs + 1, part w i old, part w i new) else (diffs, ov, nv)) [0..<n] (0, 0, 0)"

text \<open>\<^verbatim>\<open>(u8)(ov - nv) <= ARITH_MAX || (u8)(nv - ov) <= ARITH_MAX\<close>, for 8, 16 and 32 bits.\<close>

definition near :: "nat \<Rightarrow> u32 \<Rightarrow> u32 \<Rightarrow> bool" where
  "near w ov nv \<longleftrightarrow> unat (take_bit w (ov - nv)) \<le> ARITH_MAX \<or> unat (take_bit w (nv - ov)) \<le> ARITH_MAX"

definition swap16 :: "u32 \<Rightarrow> u32" where
  "swap16 x = ucast (SWAP16 (ucast x))"

definition could_be_arith :: "u32 \<Rightarrow> u32 \<Rightarrow> nat \<Rightarrow> bool" where
  "could_be_arith old_val new_val blen =
    (if old_val = new_val then True
     else case differing 8 blen old_val new_val of (diffs, ov, nv) \<Rightarrow>
       if diffs = 1 \<and> near 8 ov nv then True
       else if blen = 1 then False
       else case differing 16 (blen div 2) old_val new_val of (diffs, ov, nv) \<Rightarrow>
         if diffs = 1 \<and> (near 16 ov nv \<or> near 16 (swap16 ov) (swap16 nv)) then True
         else blen = 4 \<and> (near 32 old_val new_val \<or> near 32 (SWAP32 old_val) (SWAP32 new_val)))"

text \<open>\<open>old_val\<close> with the \<open>w\<close> bits at byte \<open>i\<close> replaced.\<close>

definition insert_part :: "nat \<Rightarrow> nat \<Rightarrow> u32 \<Rightarrow> u32 \<Rightarrow> u32" where
  "insert_part w i v old = (old AND NOT (push_bit (8 * i) (mask w))) OR push_bit (8 * i) v"

definition could_be_interest :: "u32 \<Rightarrow> u32 \<Rightarrow> nat \<Rightarrow> bool \<Rightarrow> bool" where
  "could_be_interest old_val new_val blen check_le =
    (if old_val = new_val then True
     else if \<exists>i \<in> set [0..<blen]. \<exists>v \<in> set interesting_8.
       new_val = insert_part 8 i (take_bit 8 (word_of_int v)) old_val then True
     else if blen = 2 \<and> \<not> check_le then False
     else if \<exists>i \<in> set [0..<blen - 1]. \<exists>v \<in> set interesting_16.
       new_val = insert_part 16 i (take_bit 16 (word_of_int v)) old_val \<or>
       2 < blen \<and> new_val = insert_part 16 i (swap16 (word_of_int v)) old_val then True
     else blen = 4 \<and> check_le \<and> (\<exists>v \<in> set interesting_32. new_val = word_of_int v))"

section \<open>Differences of files\<close>

text \<open>Positions are below \<^verbatim>\<open>MAX_FILE\<close>, so that the conversions to \<^verbatim>\<open>s32\<close> keep them.\<close>

definition locate_diffs :: "u8 list \<Rightarrow> u8 list \<Rightarrow> nat \<Rightarrow> int \<times> int" where
  "locate_diffs ptr1 ptr2 n = fold (\<lambda>pos (f_loc, l_loc).
     if ptr1 ! pos \<noteq> ptr2 ! pos then (if f_loc = -1 then int pos else f_loc, int pos) else (f_loc, l_loc)) [0..<n] (-1, -1)"

section \<open>Block lengths\<close>

context bounded_rng
begin

lemma block_bounds_cases:
  "block_bounds below rlim r = Some (lo, hi, r') \<Longrightarrow> 1 \<le> lo \<and> lo < hi \<and> hi \<le> HAVOC_BLK_XL"
  by (auto simp: block_bounds_def bind_eq_Some_conv HAVOC_BLK_SMALL_def HAVOC_BLK_MEDIUM_def HAVOC_BLK_LARGE_def
      HAVOC_BLK_XL_def split: if_splits)

lemma choose_block_len_bounds:
  assumes "choose_block_len below qc over10m limit r = Some (n, r')" and limit: "0 < limit"
  shows "1 \<le> n \<and> n \<le> limit \<and> n \<le> HAVOC_BLK_XL"
proof -
  obtain lo hi r1 x where b: "block_bounds below (if \<not> over10m then 1 else ucast (min qc 3)) r = Some (lo, hi, r1)"
    and x: "below r1 (min hi limit - (if limit \<le> lo then 1 else lo) + 1) = Some (x, r')"
    and n: "n = (if limit \<le> lo then 1 else lo) + x"
    using assms(1) by (auto simp: choose_block_len_def bind_eq_Some_conv Let_def)
  define l where "l = (if limit \<le> lo then 1 else lo)"
  have h: "1 \<le> lo" "lo < hi" "hi \<le> HAVOC_BLK_XL" using block_bounds_cases [OF b] by simp_all
  have l: "1 \<le> l" "l \<le> min hi limit" using h limit by (auto simp: l_def word_le_nat_alt word_less_nat_alt)
  have m: "min hi limit \<le> HAVOC_BLK_XL" using h(3) by (simp add: min.coboundedI1)
  have m': "unat (min hi limit) \<le> 32768" using m by (simp add: HAVOC_BLK_XL_def word_le_nat_alt)
  have u: "unat (min hi limit - l + 1) = unat (min hi limit) - unat l + 1"
    using l m' by (simp add: word_le_nat_alt unat_word_ariths unat_sub)
  have "unat x < unat (min hi limit - l + 1)"
    using below_unat [OF x [folded l_def]] u by simp
  then have "unat (l + x) = unat l + unat x" "unat l + unat x \<le> unat (min hi limit)"
    using u m' l by (simp_all add: word_le_nat_alt unat_word_ariths)
  then have "l + x \<le> min hi limit" "1 \<le> l + x" using l(1) by (simp_all add: word_le_nat_alt)
  moreover have "l + x \<le> HAVOC_BLK_XL" using \<open>l + x \<le> min hi limit\<close> m by (rule order_trans)
  ultimately show ?thesis using n [folded l_def] by simp
qed

end

section \<open>Bit flips\<close>

lemma shift_low_spec:
  assumes "x \<noteq> 0"
  shows "\<exists>m. shift_low x sh = (drop_bit m x, sh + m) \<and> bit x m \<and> (\<forall>i < m. \<not> bit x i)"
  using assms
proof (induction x sh rule: shift_low.induct)
  case (1 x sh)
  show ?case
  proof (cases "bit x 0")
    case True
    then show ?thesis by (intro exI [of _ 0]) (simp add: shift_low.simps)
  next
    case False
    have "drop_bit 1 x \<noteq> 0"
    proof
      assume z: "drop_bit 1 x = 0"
      have "\<not> bit x n" for n
      proof (cases n)
        case (Suc k)
        have "bit (drop_bit 1 x) k = bit x (1 + k)" by (simp add: bit_drop_bit_eq)
        then show ?thesis using z Suc by simp
      qed (use False in simp)
      then show False using 1(2) bit_eqI [of x 0] by simp
    qed
    then obtain m where m: "shift_low (drop_bit 1 x) (sh + 1) = (drop_bit m (drop_bit 1 x), sh + 1 + m)"
      "bit (drop_bit 1 x) m" "\<forall>i < m. \<not> bit (drop_bit 1 x) i"
      using 1 False by auto
    have "\<not> bit x i" if "i < Suc m" for i
      using that False m(3) by (cases i) (auto simp: bit_drop_bit_eq)
    then show ?thesis using m 1(2) False
      by (intro exI [of _ "Suc m"]) (subst shift_low.simps, simp add: bit_drop_bit_eq add.commute)
  qed
qed

lemma push_drop_low:
  assumes "\<forall>i < m. \<not> bit x i"
  shows "push_bit m (drop_bit m (x :: 'a::len word)) = x"
proof (rule bit_word_eqI)
  fix n assume "n < LENGTH('a)"
  then show "bit (push_bit m (drop_bit m x)) n = bit x n"
    using assms by (cases "m \<le> n") (auto simp: bit_push_bit_iff bit_drop_bit_eq)
qed

lemma drop_push_mask: "n + k \<le> 32 \<Longrightarrow> drop_bit n (push_bit n (mask k) :: u32) = mask k"
  by (rule bit_word_eqI) (auto simp: bit_push_bit_iff bit_drop_bit_eq bit_mask_iff)

lemma shift_low_flip:
  assumes "0 < k" and "n + k \<le> 32"
  shows "shift_low (push_bit n (mask k)) 0 = (mask k, n)"
proof -
  let ?x = "push_bit n (mask k) :: u32"
  have b: "bit ?x i \<longleftrightarrow> n \<le> i \<and> i < n + k" for i
    using assms(2) by (auto simp: bit_push_bit_iff bit_mask_iff)
  then have "bit ?x n" using assms(1) by simp
  then have "?x \<noteq> 0" by auto
  then obtain m where m: "shift_low ?x 0 = (drop_bit m ?x, m)" "bit ?x m" "\<forall>i < m. \<not> bit ?x i"
    using shift_low_spec [of ?x 0] by auto
  have "m = n" using m(2,3) b \<open>bit ?x n\<close> by (metis linorder_neqE_nat not_less)
  then show ?thesis using m(1) drop_push_mask [OF assms(2)] by simp
qed

lemma masks: "(1 :: u32) = mask 1" "(3 :: u32) = mask 2" "(15 :: u32) = mask 4" "(0xff :: u32) = mask 8"
  "(0xffff :: u32) = mask 16" "(0xffffffff :: u32) = mask 32"
  by (simp_all add: mask_eq_exp_minus_1)

lemma mask_fits:
  assumes "x = mask k" and "bit y n" and "drop_bit n (y :: u32) = x" and "0 < k" and "k \<le> 32"
  shows "n + k \<le> 32"
proof -
  have "bit x (k - 1)" using assms(1,4,5) by (simp add: bit_mask_iff)
  then have "bit y (n + (k - 1))" using assms(3) bit_drop_bit_eq [of n y] by (metis comp_apply)
  then have "n + (k - 1) < 32" by (auto dest: bit_imp_le_length)
  then show ?thesis using assms(4) by linarith
qed

lemma and_7: "(sh AND 7 \<noteq> 0) \<longleftrightarrow> \<not> 8 dvd (sh :: nat)"
proof -
  have "sh AND 7 = sh mod 8" using take_bit_eq_mask [of 3 sh] by (simp add: mask_eq_exp_minus_1 take_bit_eq_mod)
  then show ?thesis by (simp add: dvd_eq_mod_eq_0)
qed

text \<open>The value is recognised exactly when it is a block of ones of a width that the bit flips
  have, at any place for 1, 2 and 4 bits, at a byte boundary for whole bytes.\<close>

definition flip_pattern :: "nat \<Rightarrow> nat \<Rightarrow> u32 \<Rightarrow> bool" where
  "flip_pattern k n x \<longleftrightarrow> n + k \<le> 32 \<and> x = push_bit n (mask k)"

lemma could_be_bitflip_flips:
  assumes "x \<noteq> 0"
  shows "could_be_bitflip x \<longleftrightarrow> (\<exists>k \<in> {1, 2, 4}. \<exists>n. flip_pattern k n x) \<or> (\<exists>k \<in> {8, 16, 32}. \<exists>n. 8 dvd n \<and> flip_pattern k n x)"
    (is "_ \<longleftrightarrow> ?small \<or> ?large")
proof
  obtain m where m: "shift_low x 0 = (drop_bit m x, m)" "bit x m" "\<forall>i < m. \<not> bit x i"
    using shift_low_spec [OF assms, of 0] by auto
  have fp: "flip_pattern k m x" if "drop_bit m x = mask k" "0 < k" "k \<le> 32" for k
    using push_drop_low [OF m(3)] mask_fits [OF refl m(2) that] that(1) by (simp add: flip_pattern_def)
  assume "could_be_bitflip x"
  then have "drop_bit m x = 1 \<or> drop_bit m x = 3 \<or> drop_bit m x = 15 \<or>
      8 dvd m \<and> (drop_bit m x = 0xff \<or> drop_bit m x = 0xffff \<or> drop_bit m x = 0xffffffff)"
    using assms m(1) and_7 [of m] by (auto simp: could_be_bitflip_def split: if_splits)
  then have "\<exists>k. drop_bit m x = mask k \<and> (k \<in> {1, 2, 4} \<or> k \<in> {8, 16, 32} \<and> 8 dvd m)"
  proof (elim disjE conjE)
    assume "drop_bit m x = 1" then show ?thesis by (intro exI [of _ 1]) (simp add: mask_eq_exp_minus_1)
  next
    assume "drop_bit m x = 3" then show ?thesis by (intro exI [of _ 2]) (simp add: mask_eq_exp_minus_1)
  next
    assume "drop_bit m x = 15" then show ?thesis by (intro exI [of _ 4]) (simp add: mask_eq_exp_minus_1)
  next
    assume "8 dvd m" "drop_bit m x = 0xff" then show ?thesis by (intro exI [of _ 8]) (simp add: mask_eq_exp_minus_1)
  next
    assume "8 dvd m" "drop_bit m x = 0xffff" then show ?thesis by (intro exI [of _ 16]) (simp add: mask_eq_exp_minus_1)
  next
    assume "8 dvd m" "drop_bit m x = 0xffffffff" then show ?thesis by (intro exI [of _ 32]) (simp add: mask_eq_exp_minus_1)
  qed
  then obtain k where k: "drop_bit m x = mask k" "k \<in> {1, 2, 4} \<or> k \<in> {8, 16, 32} \<and> 8 dvd m" by blast
  then have "flip_pattern k m x" by (intro fp) auto
  then show "?small \<or> ?large" using k(2) by blast
next
  assume "?small \<or> ?large"
  then show "could_be_bitflip x"
  proof
    assume ?small
    then obtain k n where k: "k = 1 \<or> k = 2 \<or> k = 4" and f: "n + k \<le> 32" "x = push_bit n (mask k)"
      unfolding flip_pattern_def by blast
    have "shift_low x 0 = (mask k, n)" using shift_low_flip [OF _ f(1)] f(2) k by auto
    then show ?thesis using k by (auto simp: could_be_bitflip_def mask_eq_exp_minus_1)
  next
    assume ?large
    then obtain k n where k: "k = 8 \<or> k = 16 \<or> k = 32" and f: "8 dvd n" "n + k \<le> 32" "x = push_bit n (mask k)"
      unfolding flip_pattern_def by blast
    have "shift_low x 0 = (mask k, n)" using shift_low_flip [OF _ f(2)] f(3) k by auto
    then show ?thesis using k f(1) and_7 [of n] by (auto simp: could_be_bitflip_def mask_eq_exp_minus_1)
  qed
qed

section \<open>Properties\<close>

text \<open>
  A random block length is at least one byte, at most the limit, and at most
  \<^verbatim>\<open>HAVOC_BLK_XL\<close>, whatever the cycle of the queue: block operations never run over the limit
  they pass.
\<close>

theorem choose_block_len_within:
  assumes "choose_block_len rand_below queue_cycle run_over10m limit r = Some (n, r')" and "0 < limit"
  shows "1 \<le> n \<and> n \<le> limit \<and> n \<le> HAVOC_BLK_XL"
  by (rule rb.choose_block_len_bounds [OF assms])

text \<open>
  C33: \<^verbatim>\<open>could_be_bitflip\<close> recognises zero and exactly the blocks of one, two or four ones at any
  place and of eight, sixteen or thirty-two ones at a byte boundary.
\<close>

theorem could_be_bitflip_patterns:
  "could_be_bitflip x \<longleftrightarrow> x = 0 \<or> (\<exists>k \<in> {1, 2, 4}. \<exists>n. n + k \<le> 32 \<and> x = push_bit n (mask k)) \<or>
     (\<exists>k \<in> {8, 16, 32}. \<exists>n. 8 dvd n \<and> n + k \<le> 32 \<and> x = push_bit n (mask k))"
proof (cases "x = 0")
  case True
  then show ?thesis by (simp add: could_be_bitflip_def)
next
  case False
  then show ?thesis using could_be_bitflip_flips [OF False] by (auto simp: flip_pattern_def)
qed

section \<open>Witnesses\<close>

theorem choose_block_len_within_witness:
  "choose_block_len rand_below 7 False 1 rng0 = Some (1, rng0) \<and> (1 :: u32) \<le> HAVOC_BLK_XL"
proof -
  have "choose_block_len rand_below 7 False 1 rng0 = Some (1, rng0)"
    by (simp add: choose_block_len_def block_bounds_def rand_below_def HAVOC_BLK_SMALL_def)
  moreover from choose_block_len_within [OF this] have "(1 :: u32) \<le> HAVOC_BLK_XL" by simp
  ultimately show ?thesis by blast
qed

end
