(* ===== verification/Det_Stages.thy ===== *)
theory Det_Stages
  imports Fuzz_One Tmin Corpus
begin

text \<open>
  The deterministic stages of \<^verbatim>\<open>fuzz_one_original\<close>, \<^verbatim>\<open>src/afl-fuzz-one.c\<close>: bit flips with the
  collection of tokens and the effector map, arithmetic, interesting values and dictionary tokens,
  each input handed to \<^verbatim>\<open>common_fuzz_stuff\<close> of \<^verbatim>\<open>src/afl-fuzz-run.c\<close>. The target is that of
  \<open>Tmin\<close>, the dictionaries are those of \<open>Extras\<close>. Stage names and counters for the screen are
  left out.
\<close>

section \<open>Running an input\<close>

definition TMOUT_LIMIT :: u32 where "TMOUT_LIMIT = 250"

text \<open>\<open>runs\<close> are the inputs run so far, \<open>trace\<close> is what the last call has left in
  \<^verbatim>\<open>trace_bits\<close>. \<open>skip_at k\<close>: the signal to skip the input has arrived by the \<open>k\<close>-th run.\<close>

record fuzz_state =
  runs :: "u8 list list"
  fz_trace :: "u8 list"
  subseq_tmouts :: u32
  cur_skipped_paths :: u32
  skip_requested :: bool

text \<open>\<open>draws i j\<close> is what \<^verbatim>\<open>rand_below\<close> yields for the token \<open>j\<close> at the position \<open>i\<close>.\<close>

record fuzz_env =
  fz_target :: target
  skip_at :: "nat \<Rightarrow> bool"
  fz_exec_cksum :: u64
  non_instrumented :: bool
  no_arith :: bool
  max_det_extras :: nat
  draws :: "nat \<Rightarrow> nat \<Rightarrow> nat"

text \<open>What \<^verbatim>\<open>write_virgin_bits\<close>, \<^verbatim>\<open>save_if_interesting\<close> and \<^verbatim>\<open>show_stats\<close> do to the queue
  and the screen is not part of this state.\<close>

definition common_fuzz_stuff :: "fuzz_env \<Rightarrow> u8 list \<Rightarrow> fuzz_state \<Rightarrow> bool \<times> fuzz_state" where
  "common_fuzz_stuff E out s =
    (let k = length (runs s);
         r = exec (fz_target E) k out;
         s = s\<lparr>runs := runs s @ [out], fz_trace := run_trace r, skip_requested := skip_requested s \<or> skip_at E k\<rparr>
     in if run_stop_soon r then (True, s)
        else
          let tmouts = subseq_tmouts s;
              s = s\<lparr>subseq_tmouts := (if run_result r = FSRV_RUN_TMOUT then tmouts + 1 else 0)\<rparr>
          in if run_result r = FSRV_RUN_TMOUT \<and> TMOUT_LIMIT < tmouts
             then (True, s\<lparr>cur_skipped_paths := cur_skipped_paths s + 1\<rparr>)
             else if skip_requested s
             then (True, s\<lparr>skip_requested := False, cur_skipped_paths := cur_skipped_paths s + 1\<rparr>)
             else (False, s))"

section \<open>Loops that may be abandoned\<close>

text \<open>A step maps the buffer and the state to the same, with \<open>True\<close> for \<^verbatim>\<open>goto abandon_entry\<close>.\<close>

type_synonym step = "u8 list \<Rightarrow> fuzz_state \<Rightarrow> bool \<times> u8 list \<times> fuzz_state"

definition proceed :: step where
  "proceed out s = (False, out, s)"

definition try_run :: "fuzz_env \<Rightarrow> step" where
  "try_run E out s = (case common_fuzz_stuff E out s of (stop, s) \<Rightarrow> (stop, out, s))"

definition and_next :: "step \<Rightarrow> step \<Rightarrow> step" where
  "and_next f g out s = (case f out s of (stop, out, s) \<Rightarrow> if stop then (True, out, s) else g out s)"

definition set_buf :: "(u8 list \<Rightarrow> u8 list) \<Rightarrow> step" where
  "set_buf f out s = (False, f out, s)"

fun each :: "('i \<Rightarrow> step) \<Rightarrow> 'i list \<Rightarrow> step" where
  "each f [] = proceed"
| "each f (i # is) = and_next (f i) (each f is)"

section \<open>Bit flips\<close>

definition FLIP_BIT :: "nat \<Rightarrow> u8 list \<Rightarrow> u8 list" where
  "FLIP_BIT b out = out[b div 8 := out ! (b div 8) XOR drop_bit (b mod 8) 128]"

text \<open>Flip, run, flip back.\<close>

definition flip_step :: "fuzz_env \<Rightarrow> (u8 list \<Rightarrow> u8 list) \<Rightarrow> step" where
  "flip_step E f = and_next (set_buf f) (and_next (try_run E) (set_buf f))"

definition flip2 :: "fuzz_env \<Rightarrow> nat \<Rightarrow> step" where
  "flip2 E ln = each (\<lambda>c. flip_step E (FLIP_BIT (c + 1) \<circ> FLIP_BIT c)) [0..<8 * ln - 1]"

definition flip4 :: "fuzz_env \<Rightarrow> nat \<Rightarrow> step" where
  "flip4 E ln = each (\<lambda>c. flip_step E (FLIP_BIT (c + 3) \<circ> FLIP_BIT (c + 2) \<circ> FLIP_BIT (c + 1) \<circ> FLIP_BIT c))
     [0..<8 * ln - 3]"

section \<open>Tokens\<close>

text \<open>\<open>a_buf\<close> is the array \<^verbatim>\<open>a_collect\<close> of \<^verbatim>\<open>MAX_AUTO_EXTRA\<close> bytes.\<close>

record collector =
  a_buf :: "u8 list"
  a_len :: nat
  prev_cksum :: u64
  dict :: extras_state

definition collect_byte :: "u8 \<Rightarrow> collector \<Rightarrow> collector" where
  "collect_byte b c =
    (let c = (if a_len c < MAX_AUTO_EXTRA then c\<lparr>a_buf := (a_buf c)[a_len c := b]\<rparr> else c)
     in c\<lparr>a_len := a_len c + 1\<rparr>)"

definition offer_token :: "collector \<Rightarrow> collector option" where
  "offer_token c =
    (if MIN_AUTO_EXTRA \<le> a_len c \<and> a_len c \<le> MAX_AUTO_EXTRA
     then map_option (\<lambda>d. c\<lparr>dict := d\<rparr>) (maybe_add_auto (take (a_len c) (a_buf c)) (dict c))
     else Some c)"

text \<open>After the lowest bit of the byte \<open>b\<close> has been flipped; \<open>at_end\<close> at the end of the file.\<close>

definition collect_token :: "u64 \<Rightarrow> u64 \<Rightarrow> bool \<Rightarrow> u8 \<Rightarrow> collector \<Rightarrow> collector option" where
  "collect_token exec_cksum cksum at_end b c =
    map_option (\<lambda>c. if cksum \<noteq> exec_cksum then collect_byte b c else c)
     (if at_end \<and> cksum = prev_cksum c then offer_token (collect_byte b c)
      else if cksum \<noteq> prev_cksum c then map_option (\<lambda>c. c\<lparr>a_len := 0, prev_cksum := cksum\<rparr>) (offer_token c)
      else Some c)"

fun flip1 :: "fuzz_env \<Rightarrow> nat \<Rightarrow> nat list \<Rightarrow> collector \<Rightarrow> u8 list \<Rightarrow> fuzz_state \<Rightarrow>
    (bool \<times> collector \<times> u8 list \<times> fuzz_state) option" where
  "flip1 E ln [] c out s = Some (False, c, out, s)"
| "flip1 E ln (b # bs) c out s =
    (case flip_step E (FLIP_BIT b) out s of (stop, out, s) \<Rightarrow>
       if stop then Some (True, c, out, s)
       else if \<not> non_instrumented E \<and> b mod 8 = 7
       then Option.bind (collect_token (fz_exec_cksum E) (hash64 (fz_target E) (fz_trace s)) (b = 8 * ln - 1)
              (out ! (b div 8)) c) (\<lambda>c. flip1 E ln bs c out s)
       else flip1 E ln bs c out s)"

section \<open>The effector map\<close>

definition EFF_MAP_SCALE2 :: nat where "EFF_MAP_SCALE2 = (3 :: nat)"
definition EFF_MIN_LEN :: nat where "EFF_MIN_LEN = (128 :: nat)"
definition EFF_MAX_PERC :: nat where "EFF_MAX_PERC = (90 :: nat)"

definition eff_apos :: "nat \<Rightarrow> nat" where
  "eff_apos p = p div 2 ^ EFF_MAP_SCALE2"

definition eff_alen :: "nat \<Rightarrow> nat" where
  "eff_alen l = eff_apos l + (if l mod 2 ^ EFF_MAP_SCALE2 = 0 then 0 else 1)"

definition eff_span_alen :: "nat \<Rightarrow> nat \<Rightarrow> nat" where
  "eff_span_alen p l = eff_apos (p + l - 1) - eff_apos p + 1"

text \<open>\<open>old\<close> is what the buffer holds after \<^verbatim>\<open>afl_realloc\<close>: the code does not clear it. The
  second component is \<^verbatim>\<open>eff_cnt\<close>.\<close>

definition eff_start :: "nat \<Rightarrow> u8 list \<Rightarrow> u8 list \<times> nat" where
  "eff_start ln old =
    (let m = old[0 := 1]
     in if eff_apos (ln - 1) \<noteq> 0 then (m[eff_apos (ln - 1) := 1], 2) else (m, 1))"

fun flip8 :: "fuzz_env \<Rightarrow> nat \<Rightarrow> nat list \<Rightarrow> u8 list \<times> nat \<Rightarrow> u8 list \<Rightarrow> fuzz_state \<Rightarrow>
    bool \<times> (u8 list \<times> nat) \<times> u8 list \<times> fuzz_state" where
  "flip8 E ln [] m out s = (False, m, out, s)"
| "flip8 E ln (i # is) (eff, cnt) out s =
    (let flip = \<lambda>out. out[i := out ! i XOR 0xFF] in
     case common_fuzz_stuff E (flip out) s of (stop, s) \<Rightarrow>
       if stop then (True, (eff, cnt), flip out, s)
       else
         let cksum = (if \<not> non_instrumented E \<and> EFF_MIN_LEN \<le> ln then hash64 (fz_target E) (fz_trace s)
                      else NOT (fz_exec_cksum E));
             m = (if eff ! eff_apos i = 0 \<and> cksum \<noteq> fz_exec_cksum E then (eff[eff_apos i := 1], cnt + 1) else (eff, cnt))
         in flip8 E ln is m (flip (flip out)) s)"

definition eff_dense :: "nat \<Rightarrow> u8 list \<times> nat \<Rightarrow> u8 list" where
  "eff_dense ln = (\<lambda>(eff, cnt).
     if cnt \<noteq> eff_alen ln \<and> EFF_MAX_PERC < cnt * 100 div eff_alen ln
     then replicate (eff_alen ln) 1 @ drop (eff_alen ln) eff else eff)"

text \<open>Some byte of the \<open>n\<close> at \<open>i\<close> is flagged.\<close>

definition effective :: "u8 list \<Rightarrow> nat \<Rightarrow> nat \<Rightarrow> bool" where
  "effective eff n i \<longleftrightarrow> (\<exists>k \<in> set [0..<n]. eff ! eff_apos (i + k) \<noteq> 0)"

definition flip_word :: "nat \<Rightarrow> nat \<Rightarrow> u8 list \<Rightarrow> u8 list" where
  "flip_word n i out = overwrite i (map (\<lambda>b. b XOR 0xFF) (take n (drop i out))) out"

definition flip16 :: "fuzz_env \<Rightarrow> u8 list \<Rightarrow> nat \<Rightarrow> step" where
  "flip16 E eff ln = each (\<lambda>i. if \<not> effective eff 2 i then proceed else flip_step E (flip_word 2 i)) [0..<ln - 1]"

definition flip32 :: "fuzz_env \<Rightarrow> u8 list \<Rightarrow> nat \<Rightarrow> step" where
  "flip32 E eff ln = each (\<lambda>i. if \<not> effective eff 4 i then proceed else flip_step E (flip_word 4 i)) [0..<ln - 3]"

section \<open>Arithmetic\<close>

text \<open>Write and run, unless the value is redundant.\<close>

definition attempt :: "fuzz_env \<Rightarrow> bool \<Rightarrow> (u8 list \<Rightarrow> u8 list) \<Rightarrow> step" where
  "attempt E c f = (if c then and_next (set_buf f) (try_run E) else proceed)"

definition arith8_step :: "fuzz_env \<Rightarrow> nat \<Rightarrow> u8 \<Rightarrow> nat \<Rightarrow> step" where
  "arith8_step E i orig j =
    (let v = of_nat j in
     and_next (attempt E (\<not> could_be_bitflip (ucast (orig XOR (orig + v)))) (\<lambda>b. b[i := orig + v]))
    (and_next (attempt E (\<not> could_be_bitflip (ucast (orig XOR (orig - v)))) (\<lambda>b. b[i := orig - v]))
     (set_buf (\<lambda>b. b[i := orig]))))"

definition arith8 :: "fuzz_env \<Rightarrow> u8 list \<Rightarrow> nat \<Rightarrow> step" where
  "arith8 E eff ln = each (\<lambda>i out.
     if \<not> effective eff 1 i then proceed out
     else each (arith8_step E i (out ! i)) [1..<ARITH_MAX + 1] out) [0..<ln]"

definition put16 :: "nat \<Rightarrow> u16 \<Rightarrow> u8 list \<Rightarrow> u8 list" where
  "put16 i v = overwrite i (store_le 2 v)"

definition put32 :: "nat \<Rightarrow> u32 \<Rightarrow> u8 list \<Rightarrow> u8 list" where
  "put32 i v = overwrite i (store_le 4 v)"

definition get16 :: "nat \<Rightarrow> u8 list \<Rightarrow> u16" where
  "get16 i out = load_le (take 2 (drop i out))"

definition get32 :: "nat \<Rightarrow> u8 list \<Rightarrow> u32" where
  "get32 i out = load_le (take 4 (drop i out))"

definition arith16_step :: "fuzz_env \<Rightarrow> nat \<Rightarrow> u16 \<Rightarrow> nat \<Rightarrow> step" where
  "arith16_step E i orig j =
    (let v = of_nat j;
         fresh = (\<lambda>new. \<not> could_be_bitflip (ucast (orig XOR new)))
     in and_next (attempt E (0xff < unat (orig AND 0xff) + j \<and> fresh (orig + v)) (put16 i (orig + v)))
       (and_next (attempt E (unat (orig AND 0xff) < j \<and> fresh (orig - v)) (put16 i (orig - v)))
       (and_next (attempt E (0xff < unat (drop_bit 8 orig) + j \<and> fresh (SWAP16 (SWAP16 orig + v))) (put16 i (SWAP16 (SWAP16 orig + v))))
       (and_next (attempt E (unat (drop_bit 8 orig) < j \<and> fresh (SWAP16 (SWAP16 orig - v))) (put16 i (SWAP16 (SWAP16 orig - v))))
        (set_buf (put16 i orig))))))"

definition arith16 :: "fuzz_env \<Rightarrow> u8 list \<Rightarrow> nat \<Rightarrow> step" where
  "arith16 E eff ln = each (\<lambda>i out.
     if \<not> effective eff 2 i then proceed out
     else each (arith16_step E i (get16 i out)) [1..<ARITH_MAX + 1] out) [0..<ln - 1]"

definition arith32_step :: "fuzz_env \<Rightarrow> nat \<Rightarrow> u32 \<Rightarrow> nat \<Rightarrow> step" where
  "arith32_step E i orig j =
    (let v = of_nat j;
         low = (\<lambda>x :: u32. unat (x AND 0xffff));
         fresh = (\<lambda>new. \<not> could_be_bitflip (orig XOR new))
     in and_next (attempt E (0xffff < low orig + j \<and> fresh (orig + v)) (put32 i (orig + v)))
       (and_next (attempt E (low orig < j \<and> fresh (orig - v)) (put32 i (orig - v)))
       (and_next (attempt E (0xffff < low (SWAP32 orig) + j \<and> fresh (SWAP32 (SWAP32 orig + v))) (put32 i (SWAP32 (SWAP32 orig + v))))
       (and_next (attempt E (low (SWAP32 orig) < j \<and> fresh (SWAP32 (SWAP32 orig - v))) (put32 i (SWAP32 (SWAP32 orig - v))))
        (set_buf (put32 i orig))))))"

definition arith32 :: "fuzz_env \<Rightarrow> u8 list \<Rightarrow> nat \<Rightarrow> step" where
  "arith32 E eff ln = each (\<lambda>i out.
     if \<not> effective eff 4 i then proceed out
     else each (arith32_step E i (get32 i out)) [1..<ARITH_MAX + 1] out) [0..<ln - 3]"

section \<open>Interesting values\<close>

definition interest8_step :: "fuzz_env \<Rightarrow> nat \<Rightarrow> u8 \<Rightarrow> int \<Rightarrow> step" where
  "interest8_step E i orig val =
    (let v = word_of_int val :: u8 in
     if could_be_bitflip (ucast (orig XOR v)) \<or> could_be_arith (ucast orig) (ucast v) 1 then proceed
     else and_next (set_buf (\<lambda>b. b[i := v])) (and_next (try_run E) (set_buf (\<lambda>b. b[i := orig]))))"

definition interest8 :: "fuzz_env \<Rightarrow> u8 list \<Rightarrow> nat \<Rightarrow> step" where
  "interest8 E eff ln = each (\<lambda>i out.
     if \<not> effective eff 1 i then proceed out
     else each (interest8_step E i (out ! i)) interesting_8 out) [0..<ln]"

definition interest16_step :: "fuzz_env \<Rightarrow> nat \<Rightarrow> u16 \<Rightarrow> int \<Rightarrow> step" where
  "interest16_step E i orig val =
    (let v = word_of_int val :: u16;
         fresh = (\<lambda>new be. \<not> could_be_bitflip (ucast (orig XOR new)) \<and> \<not> could_be_arith (ucast orig) (ucast new) 2 \<and>
           \<not> could_be_interest (ucast orig) (ucast new) 2 be)
     in and_next (attempt E (fresh v False) (put16 i v))
          (attempt E (v \<noteq> SWAP16 v \<and> fresh (SWAP16 v) True) (put16 i (SWAP16 v))))"

definition interest16 :: "fuzz_env \<Rightarrow> u8 list \<Rightarrow> nat \<Rightarrow> step" where
  "interest16 E eff ln = each (\<lambda>i out.
     if \<not> effective eff 2 i then proceed out
     else and_next (each (interest16_step E i (get16 i out)) interesting_16) (set_buf (put16 i (get16 i out))) out) [0..<ln - 1]"

definition interest32_step :: "fuzz_env \<Rightarrow> nat \<Rightarrow> u32 \<Rightarrow> int \<Rightarrow> step" where
  "interest32_step E i orig val =
    (let v = word_of_int val :: u32;
         fresh = (\<lambda>new be. \<not> could_be_bitflip (orig XOR new) \<and> \<not> could_be_arith orig new 4 \<and>
           \<not> could_be_interest orig new 4 be)
     in and_next (attempt E (fresh v False) (put32 i v))
          (attempt E (v \<noteq> SWAP32 v \<and> fresh (SWAP32 v) True) (put32 i (SWAP32 v))))"

definition interest32 :: "fuzz_env \<Rightarrow> u8 list \<Rightarrow> nat \<Rightarrow> step" where
  "interest32 E eff ln = each (\<lambda>i out.
     if \<not> effective eff 4 i then proceed out
     else and_next (each (interest32_step E i (get32 i out)) interesting_32) (set_buf (put32 i (get32 i out))) out) [0..<ln - 3]"

section \<open>Dictionary tokens\<close>

text \<open>Tokens at the position \<open>i\<close>, each with whether it is left out at random; the buffer is not
  restored in between. The second component is \<^verbatim>\<open>last_len\<close>.\<close>

fun over_tokens :: "fuzz_env \<Rightarrow> u8 list \<Rightarrow> nat \<Rightarrow> nat \<Rightarrow> (u8 list \<times> bool) list \<Rightarrow> nat \<Rightarrow> u8 list \<Rightarrow> fuzz_state \<Rightarrow>
    bool \<times> nat \<times> u8 list \<times> fuzz_state" where
  "over_tokens E eff ln i [] last_len out s = (False, last_len, out, s)"
| "over_tokens E eff ln i ((tok, skip) # ts) last_len out s =
    (if skip \<or> ln - i < length tok \<or> take (length tok) (drop i out) = tok \<or>
        1 \<notin> set (take (eff_span_alen i (length tok)) (drop (eff_apos i) eff))
     then over_tokens E eff ln i ts last_len out s
     else
       let out = overwrite i tok out in
       case common_fuzz_stuff E out s of (stop, s) \<Rightarrow>
         if stop then (True, length tok, out, s) else over_tokens E eff ln i ts (length tok) out s)"

definition extras_over :: "fuzz_env \<Rightarrow> u8 list \<Rightarrow> nat \<Rightarrow> u8 list \<Rightarrow> (nat \<Rightarrow> (u8 list \<times> bool) list) \<Rightarrow> step" where
  "extras_over E eff ln in_buf toks = each (\<lambda>i out s.
     case over_tokens E eff ln i (toks i) 0 out s of (stop, last_len, out, s) \<Rightarrow>
       if stop then (True, out, s) else (False, overwrite i (take last_len (drop i in_buf)) out, s)) [0..<ln]"

definition user_tokens :: "fuzz_env \<Rightarrow> u8 list list \<Rightarrow> nat \<Rightarrow> (u8 list \<times> bool) list" where
  "user_tokens E toks i = map (\<lambda>j. (toks ! j, max_det_extras E < length toks \<and> max_det_extras E \<le> draws E i j)) [0..<length toks]"

text \<open>\<open>ex_tmp\<close> is the buffer of the step; its first \<open>i\<close> bytes are the head of the input.\<close>

definition insert_token :: "fuzz_env \<Rightarrow> nat \<Rightarrow> u8 list \<Rightarrow> nat \<Rightarrow> u8 list \<Rightarrow> step" where
  "insert_token E ln out i tok =
    (if MAX_FILE < ln + length tok then proceed
     else and_next (set_buf (overwrite (i + length tok) (drop i out) \<circ> overwrite i tok))
       (\<lambda>ex s. case common_fuzz_stuff E (take (ln + length tok) ex) s of (stop, s) \<Rightarrow> (stop, ex, s)))"

text \<open>The last turn copies \<^verbatim>\<open>out_buf[len]\<close>, one byte beyond the input, which is never used.\<close>

definition extras_insert :: "fuzz_env \<Rightarrow> nat \<Rightarrow> u8 list list \<Rightarrow> u8 list \<Rightarrow> step" where
  "extras_insert E ln toks ex_tmp out s =
    (case each (\<lambda>i. and_next (each (insert_token E ln out i) toks)
                  (set_buf (\<lambda>ex. if i < ln then ex[i := out ! i] else ex))) [0..<ln + 1] ex_tmp s of
       (stop, _, s) \<Rightarrow> (stop, out, s))"

section \<open>The deterministic stages\<close>

definition late_stages :: "fuzz_env \<Rightarrow> u8 list \<Rightarrow> nat \<Rightarrow> u8 list \<Rightarrow> u8 list \<Rightarrow> extras_state \<Rightarrow> step" where
  "late_stages E eff ln in_buf ex_tmp d =
    (let when = (\<lambda>c m. if c then m else proceed) in
     and_next (when (2 \<le> ln) (and_next (flip16 E eff ln) (when (4 \<le> ln) (flip32 E eff ln))))
    (and_next (when (\<not> no_arith E) (and_next (arith8 E eff ln)
       (when (2 \<le> ln) (and_next (arith16 E eff ln) (when (4 \<le> ln) (arith32 E eff ln))))))
    (and_next (and_next (interest8 E eff ln)
       (when (\<not> no_arith E \<and> 2 \<le> ln) (and_next (interest16 E eff ln) (when (4 \<le> ln) (interest32 E eff ln)))))
    (and_next (when (extras d \<noteq> []) (and_next (extras_over E eff ln in_buf (user_tokens E (extras d))) (extras_insert E ln (extras d) ex_tmp)))
       (when (a_extras d \<noteq> [])
         (extras_over E eff ln in_buf (\<lambda>i. map (\<lambda>a. (ae_data a, False)) (take USE_AUTO_EXTRAS (a_extras d)))))))))"

text \<open>\<open>None\<close> only when a draw of \<^verbatim>\<open>maybe_add_auto\<close> never ends. \<open>eff_old\<close> and \<open>ex_tmp\<close> are what the
  growing buffers hold from before.\<close>

definition det_stages :: "fuzz_env \<Rightarrow> u8 list \<Rightarrow> u8 list \<Rightarrow> u8 list \<Rightarrow> collector \<Rightarrow> u8 list \<Rightarrow> fuzz_state \<Rightarrow>
    (bool \<times> collector \<times> u8 list \<times> fuzz_state) option" where
  "det_stages E eff_old ex_tmp in_buf c out s =
    (let ln = length in_buf in
     map_option (\<lambda>(stop, c, out, s).
       if stop then (True, c, out, s)
       else case and_next (flip2 E ln) (flip4 E ln) out s of (stop, out, s) \<Rightarrow>
         if stop then (True, c, out, s)
         else case flip8 E ln [0..<ln] (eff_start ln eff_old) out s of (stop, m, out, s) \<Rightarrow>
           if stop then (True, c, out, s)
           else case late_stages E (eff_dense ln m) ln in_buf ex_tmp (dict c) out s of (stop, out, s) \<Rightarrow> (stop, c, out, s))
     (flip1 E ln [0..<8 * ln] c out s))"

section \<open>What a step runs\<close>

text \<open>\<open>yields f a b L\<close>: from the buffer \<open>a\<close> the step \<open>f\<close>, unless it is abandoned, leaves the buffer \<open>b\<close> and
  has run exactly the inputs \<open>L\<close>.\<close>

definition yields :: "step \<Rightarrow> u8 list \<Rightarrow> u8 list \<Rightarrow> u8 list list \<Rightarrow> bool" where
  "yields f a b L \<longleftrightarrow> (\<forall>s out s'. f a s = (False, out, s') \<longrightarrow> out = b \<and> runs s' = runs s @ L)"

named_theorems yield

lemma yields_proceed [yield]: "yields proceed a a []"
  by (simp add: yields_def proceed_def)

lemma yields_set_buf [yield]: "yields (set_buf f) a (f a) []"
  by (simp add: yields_def set_buf_def)

lemma common_fuzz_stuff_runs: "runs (snd (common_fuzz_stuff E out s)) = runs s @ [out]"
  by (simp add: common_fuzz_stuff_def Let_def)

lemma yields_try_run [yield]: "yields (try_run E) a a [a]"
  unfolding yields_def
proof (intro allI impI)
  fix s out s' assume "try_run E a s = (False, out, s')"
  then show "out = a \<and> runs s' = runs s @ [a]"
    using common_fuzz_stuff_runs [of E a s] by (cases "common_fuzz_stuff E a s") (simp add: try_run_def)
qed

lemma yields_and_next: "yields f a b L \<Longrightarrow> yields g b c M \<Longrightarrow> yields (and_next f g) a c (L @ M)"
  unfolding yields_def and_next_def by (fastforce split: prod.splits if_splits)

lemma yields_each: "(\<And>i. i \<in> set is \<Longrightarrow> yields (f i) a a (L i)) \<Longrightarrow> yields (each f is) a a (concat (map L is))"
proof (induction "is")
  case Nil
  then show ?case by (simp add: yields_proceed)
next
  case (Cons i "is")
  have "yields (f i) a a (L i)" by (rule Cons.prems) simp
  moreover have "yields (each f is) a a (concat (map L is))" by (rule Cons.IH) (simp add: Cons.prems)
  ultimately show ?case by (simp add: yields_and_next)
qed

lemma yields_attempt [yield]: "yields (attempt E c f) a (if c then f a else a) (if c then [f a] else [])"
  using yields_and_next [OF yields_set_buf [of f a] yields_try_run [of E "f a"]] yields_proceed by (simp add: attempt_def)

lemma yields_flip_step: "yields (flip_step E f) a (f (f a)) [f a]"
  unfolding flip_step_def
  using yields_and_next [OF yields_set_buf [of f a] yields_and_next [OF yields_try_run [of E "f a"] yields_set_buf [of f "f a"]]]
  by simp

lemma yields_when: "(c \<Longrightarrow> yields f a a L) \<Longrightarrow> yields (if c then f else proceed) a a (if c then L else [])"
  by (simp add: yields_proceed)

section \<open>Bit flips\<close>

lemma FLIP_BIT_twice: "FLIP_BIT b (FLIP_BIT b a) = a"
proof (cases "b div 8 < length a")
  case True
  then show ?thesis by (simp add: FLIP_BIT_def xor.assoc)
next
  case False
  then show ?thesis by (simp add: FLIP_BIT_def list_update_beyond not_less)
qed

lemma FLIP_BIT_commute: "FLIP_BIT b (FLIP_BIT c a) = FLIP_BIT c (FLIP_BIT b a)"
proof (cases "b div 8 = c div 8")
  case True
  then show ?thesis by (cases "c div 8 < length a") (simp_all add: FLIP_BIT_def xor.assoc xor.commute xor.left_commute list_update_beyond not_less)
next
  case False
  then show ?thesis by (simp add: FLIP_BIT_def list_update_swap)
qed

text \<open>The \<open>k\<close> bits from \<open>c\<close> on, flipped.\<close>

definition flip_bits :: "nat \<Rightarrow> nat \<Rightarrow> u8 list \<Rightarrow> u8 list" where
  "flip_bits k c a = fold (\<lambda>d. FLIP_BIT (c + d)) [0..<k] a"

lemma flip_bits_eqs: "flip_bits (Suc 0) c = FLIP_BIT c" "flip_bits 2 c = FLIP_BIT (c + 1) \<circ> FLIP_BIT c"
  "flip_bits 4 c = FLIP_BIT (c + 3) \<circ> FLIP_BIT (c + 2) \<circ> FLIP_BIT (c + 1) \<circ> FLIP_BIT c"
  by (simp_all add: flip_bits_def fun_eq_iff numeral_2_eq_2 numeral_eq_Suc)

lemma flip_bits_twice: "k \<in> {1, 2, 4} \<Longrightarrow> flip_bits k c (flip_bits k c a) = a"
  using FLIP_BIT_commute [of "c + 1" c] FLIP_BIT_commute [of "c + 2" c] FLIP_BIT_commute [of "c + 3" c]
    FLIP_BIT_commute [of "c + 2" "c + 1"] FLIP_BIT_commute [of "c + 3" "c + 1"] FLIP_BIT_commute [of "c + 3" "c + 2"]
  by (auto simp: flip_bits_eqs FLIP_BIT_twice)

lemma yields_flips: "k \<in> {1, 2, 4} \<Longrightarrow> yields (each (\<lambda>c. flip_step E (flip_bits k c)) cs) a a (map (\<lambda>c. flip_bits k c a) cs)"
  using yields_each [of cs "\<lambda>c. flip_step E (flip_bits k c)" a "\<lambda>c. [flip_bits k c a]"]
    yields_flip_step [of E "flip_bits k _" a] by (simp add: flip_bits_twice concat_map_singleton)

lemma yields_flip2: "yields (flip2 E ln) a a (map (\<lambda>c. flip_bits 2 c a) [0..<8 * ln - 1])"
  using yields_flips [of 2 E "[0..<8 * ln - 1]" a] by (simp add: flip2_def flip_bits_eqs(2))

lemma yields_flip4: "yields (flip4 E ln) a a (map (\<lambda>c. flip_bits 4 c a) [0..<8 * ln - 3])"
  using yields_flips [of 4 E "[0..<8 * ln - 3]" a] by (simp add: flip4_def flip_bits_eqs(3))

lemma flip1_SomeD:
  "flip1 E ln cs c a s = Some (False, c', out, s') \<Longrightarrow> out = a \<and> runs s' = runs s @ map (\<lambda>c. flip_bits (Suc 0) c a) cs"
proof (induction cs arbitrary: c s)
  case (Cons b cs)
  obtain stop out1 s1 where f: "flip_step E (FLIP_BIT b) a s = (stop, out1, s1)" by (metis prod.exhaust)
  then have ns: "\<not> stop" using Cons.prems by (auto split: if_splits)
  then have o: "out1 = a" "runs s1 = runs s @ [FLIP_BIT b a]"
    using yields_flip_step [of E "FLIP_BIT b" a] f by (auto simp: yields_def FLIP_BIT_twice)
  obtain c1 where "flip1 E ln cs c1 a s1 = Some (False, c', out, s')"
    using Cons.prems f ns o by (auto split: if_splits simp: bind_eq_Some_conv)
  from Cons.IH [OF this] o show ?case by (simp add: flip_bits_eqs(1))
qed simp

lemma nth_set_1: "eff ! k \<noteq> 0 \<Longrightarrow> eff[j := 1] ! k \<noteq> (0 :: u8)"
  by (cases "j < length eff"; cases "k = j") (simp_all add: list_update_beyond not_less)

lemma flip8_step:
  assumes "flip8 E ln (i # is) m a s = (False, m', out, s')" and "i < length a"
  shows "\<exists>s1 m1. runs s1 = runs s @ [a[i := a ! i XOR 0xFF]] \<and> flip8 E ln is m1 a s1 = (False, m', out, s') \<and>
    length (fst m1) = length (fst m) \<and> (\<forall>k. fst m ! k \<noteq> 0 \<longrightarrow> fst m1 ! k \<noteq> 0) \<and>
    (ln < EFF_MIN_LEN \<longrightarrow> eff_apos i < length (fst m) \<longrightarrow> fst m1 ! eff_apos i \<noteq> 0)"
proof -
  obtain eff cnt where m: "m = (eff, cnt)" by (cases m)
  let ?b = "a[i := a ! i XOR 0xFF]"
  obtain stop s1 where c: "common_fuzz_stuff E ?b s = (stop, s1)" by (metis prod.exhaust)
  have undo: "?b[i := ?b ! i XOR 0xFF] = a" using assms(2) by (simp add: xor.assoc)
  have r: "runs s1 = runs s @ [?b]" using common_fuzz_stuff_runs [of E ?b s] c by simp
  have ns: "\<not> stop" using assms(1) c by (auto simp: m)
  define cksum where "cksum = (if \<not> non_instrumented E \<and> EFF_MIN_LEN \<le> ln then hash64 (fz_target E) (fz_trace s1) else NOT (fz_exec_cksum E))"
  define m1 where "m1 = (if eff ! eff_apos i = 0 \<and> cksum \<noteq> fz_exec_cksum E then (eff[eff_apos i := 1], cnt + 1) else (eff, cnt))"
  have "flip8 E ln is m1 a s1 = (False, m', out, s')"
    using assms(1) c ns undo by (simp add: m m1_def cksum_def Let_def)
  moreover have "cksum \<noteq> fz_exec_cksum E" if "ln < EFF_MIN_LEN"
  proof -
    have "bit (NOT (fz_exec_cksum E)) 0 \<noteq> bit (fz_exec_cksum E) 0" by (simp add: bit_not_iff)
    then show ?thesis using that by (auto simp: cksum_def)
  qed
  ultimately show ?thesis using r by (intro exI [of _ s1] exI [of _ m1]) (auto simp: m m1_def nth_list_update dest: nth_set_1)
qed

lemma flip8_False:
  "flip8 E ln is m a s = (False, m', out, s') \<Longrightarrow> \<forall>i \<in> set is. i < length a \<Longrightarrow>
    out = a \<and> runs s' = runs s @ map (\<lambda>i. a[i := a ! i XOR 0xFF]) is \<and>
    length (fst m') = length (fst m) \<and> (\<forall>k. fst m ! k \<noteq> 0 \<longrightarrow> fst m' ! k \<noteq> 0) \<and>
    (ln < EFF_MIN_LEN \<longrightarrow> (\<forall>i \<in> set is. eff_apos i < length (fst m) \<longrightarrow> fst m' ! eff_apos i \<noteq> 0))"
proof (induction "is" arbitrary: m s)
  case Nil
  then show ?case by (cases m) simp
next
  case (Cons i "is")
  then obtain s1 m1 where 1: "runs s1 = runs s @ [a[i := a ! i XOR 0xFF]]" "flip8 E ln is m1 a s1 = (False, m', out, s')"
    "length (fst m1) = length (fst m)" "\<forall>k. fst m ! k \<noteq> 0 \<longrightarrow> fst m1 ! k \<noteq> 0"
    "ln < EFF_MIN_LEN \<longrightarrow> eff_apos i < length (fst m) \<longrightarrow> fst m1 ! eff_apos i \<noteq> 0"
    using flip8_step [OF Cons.prems(1)] by auto
  from Cons.IH [OF 1(2)] Cons.prems(2) 1 show ?case by auto
qed

section \<open>That the buffer is restored\<close>

text \<open>A partial correctness triple over the buffer, for steps that are not abandoned.\<close>

definition holds :: "(u8 list \<Rightarrow> bool) \<Rightarrow> step \<Rightarrow> (u8 list \<Rightarrow> bool) \<Rightarrow> bool" where
  "holds P f Q \<longleftrightarrow> (\<forall>a s out s'. P a \<longrightarrow> f a s = (False, out, s') \<longrightarrow> Q out)"

lemma holds_proceed: "holds P proceed P"
  by (simp add: holds_def proceed_def)

lemma holds_set_buf: "(\<And>a. P a \<Longrightarrow> Q (f a)) \<Longrightarrow> holds P (set_buf f) Q"
  by (simp add: holds_def set_buf_def)

lemma holds_try_run: "holds P (try_run E) P"
  by (auto simp: holds_def try_run_def split: prod.splits)

lemma holds_and_next: "holds P f Q \<Longrightarrow> holds Q g R \<Longrightarrow> holds P (and_next f g) R"
  unfolding holds_def and_next_def by (fastforce split: prod.splits if_splits)

lemma holds_each: "(\<And>i. i \<in> set is \<Longrightarrow> holds P (f i) P) \<Longrightarrow> holds P (each f is) P"
  by (induction "is") (auto intro: holds_proceed holds_and_next)

lemma holds_attempt: "(\<And>a. P a \<Longrightarrow> P (f a)) \<Longrightarrow> holds P (attempt E c f) P"
  by (auto simp: attempt_def intro: holds_proceed holds_and_next [OF holds_set_buf holds_try_run])

lemma holds_flip_step: "(\<And>a. P a \<Longrightarrow> P (f (f a))) \<Longrightarrow> holds P (flip_step E f) P"
  unfolding flip_step_def
  by (intro holds_and_next [where Q = "\<lambda>b. \<exists>a. P a \<and> b = f a"] holds_set_buf holds_and_next [OF holds_try_run]) auto

lemma holds_when: "holds P f P \<Longrightarrow> holds P (if c then f else proceed) P"
  by (simp add: holds_proceed)

lemmas holds_rules = holds_proceed holds_try_run holds_each holds_attempt holds_when

text \<open>\<open>restores f a\<close>: the step leaves the buffer \<open>a\<close> as it was.\<close>

abbreviation restores :: "step \<Rightarrow> u8 list \<Rightarrow> bool" where
  "restores f a \<equiv> holds (\<lambda>b. b = a) f (\<lambda>b. b = a)"

text \<open>Writes at a place, the last of which puts the old contents back.\<close>

lemma writes_restore:
  assumes "holds (\<lambda>b. \<exists>v. b = put v a) f (\<lambda>b. \<exists>v. b = put v a)" and "put orig a = a"
    and "\<And>v w. put v (put w a) = put v a"
  shows "restores (and_next f (set_buf (put orig))) a"
proof (rule holds_and_next)
  show "holds (\<lambda>b. b = a) f (\<lambda>b. \<exists>v. b = put v a)"
    using assms(1,2) unfolding holds_def by metis
  show "holds (\<lambda>b. \<exists>v. b = put v a) (set_buf (put orig)) (\<lambda>b. b = a)"
    using assms(2,3) by (intro holds_set_buf) auto
qed

lemma and_next_assoc: "and_next (and_next f g) h = and_next f (and_next g h)"
  by (auto simp: and_next_def fun_eq_iff split: prod.splits)

lemma put16_same: "i + 2 \<le> length a \<Longrightarrow> put16 i (get16 i a) a = a"
  by (simp add: put16_def get16_def store_load_le overwrite_same)

lemma put32_same: "i + 4 \<le> length a \<Longrightarrow> put32 i (get32 i a) a = a"
  by (simp add: put32_def get32_def store_load_le overwrite_same)

lemma put16_put16: "i + 2 \<le> length a \<Longrightarrow> put16 i v (put16 i w a) = put16 i v a"
  by (simp add: put16_def overwrite_overwrite)

lemma put32_put32: "i + 4 \<le> length a \<Longrightarrow> put32 i v (put32 i w a) = put32 i v a"
  by (simp add: put32_def overwrite_overwrite)

lemma flip_word_twice: "i + n \<le> length a \<Longrightarrow> flip_word n i (flip_word n i a) = a"
proof -
  assume n: "i + n \<le> length a"
  let ?m = "map (\<lambda>b. b XOR 0xFF) (take n (drop i a))"
  have l: "length ?m = n" using n by simp
  then have "take n (drop i (overwrite i ?m a)) = ?m" using n by (simp add: overwrite_def)
  then have "flip_word n i (flip_word n i a) = overwrite i (map (\<lambda>b. b XOR 0xFF) ?m) (overwrite i ?m a)"
    by (simp add: flip_word_def)
  also have "\<dots> = overwrite i (map (\<lambda>b. b XOR 0xFF) ?m) a" using n l by (intro overwrite_overwrite) simp_all
  also have "map (\<lambda>b. b XOR 0xFF) ?m = take n (drop i a)" by (simp add: comp_def xor.assoc)
  finally show ?thesis using overwrite_same [OF n] by simp
qed

lemma holds_and_next_inv: "holds P f P \<Longrightarrow> holds P g P \<Longrightarrow> holds P (and_next f g) P"
  by (rule holds_and_next)

lemma writes_attempt:
  assumes "\<And>v w. put v (put w a) = put v a"
  shows "holds (\<lambda>b. \<exists>v. b = put v a) (attempt E c (put x)) (\<lambda>b. \<exists>v. b = put v a)"
  by (rule holds_attempt) (auto simp: assms)

lemma arith8_step_restores: "i < length a \<Longrightarrow> restores (arith8_step E i (a ! i) j) a"
  unfolding arith8_step_def Let_def and_next_assoc [symmetric]
  by (intro writes_restore [where put = "\<lambda>v b. b[i := v]"] holds_and_next_inv writes_attempt [where put = "\<lambda>v b. b[i := v]"]) simp_all

lemma arith16_step_restores: "i + 2 \<le> length a \<Longrightarrow> restores (arith16_step E i (get16 i a) j) a"
  unfolding arith16_step_def Let_def and_next_assoc [symmetric]
  by (intro writes_restore [where put = "put16 i"] holds_and_next_inv writes_attempt [where put = "put16 i"] put16_same put16_put16)

lemma arith32_step_restores: "i + 4 \<le> length a \<Longrightarrow> restores (arith32_step E i (get32 i a) j) a"
  unfolding arith32_step_def Let_def and_next_assoc [symmetric]
  by (intro writes_restore [where put = "put32 i"] holds_and_next_inv writes_attempt [where put = "put32 i"] put32_same put32_put32)

text \<open>A loop over the positions flagged in the effector map.\<close>

lemma restores_positions:
  assumes "\<And>i. i \<in> set is \<Longrightarrow> restores (f i a) a"
  shows "restores (each (\<lambda>i out. if skip i then proceed out else f i out out) is) a"
proof (rule holds_each)
  fix i assume "i \<in> set is"
  then have "restores (f i a) a" by (rule assms)
  then show "restores (\<lambda>out. if skip i then proceed out else f i out out) a"
    using holds_proceed [of "\<lambda>b. b = a"] by (simp add: holds_def)
qed

lemma arith8_restores: "restores (arith8 E eff (length a)) a"
  unfolding arith8_def
  by (rule restores_positions [where f = "\<lambda>i out. each (arith8_step E i (out ! i)) [1..<ARITH_MAX + 1]"])
    (intro holds_each arith8_step_restores, simp)

lemma arith16_restores: "restores (arith16 E eff (length a)) a"
  unfolding arith16_def
  by (rule restores_positions [where f = "\<lambda>i out. each (arith16_step E i (get16 i out)) [1..<ARITH_MAX + 1]"])
    (intro holds_each arith16_step_restores, simp)

lemma arith32_restores: "restores (arith32 E eff (length a)) a"
  unfolding arith32_def
  by (rule restores_positions [where f = "\<lambda>i out. each (arith32_step E i (get32 i out)) [1..<ARITH_MAX + 1]"])
    (intro holds_each arith32_step_restores, simp)

lemma flip_words_restore:
  "restores (flip16 E eff (length a)) a" "restores (flip32 E eff (length a)) a"
  unfolding flip16_def flip32_def
  by (rule holds_each, auto intro!: holds_proceed holds_flip_step simp: flip_word_twice)+

lemma restores_if: "restores f a \<Longrightarrow> restores g a \<Longrightarrow> restores (if c then f else g) a"
  by simp

lemma interest8_restores: "restores (interest8 E eff (length a)) a"
proof -
  have wr: "holds (\<lambda>b. \<exists>v. b = a[i := v]) (set_buf (\<lambda>b. b[i := x])) (\<lambda>b. \<exists>v. b = a[i := v])" for i x
    by (rule holds_set_buf) auto
  have "restores (interest8_step E i (a ! i) v) a" if "i < length a" for i v
    unfolding interest8_step_def Let_def and_next_assoc [symmetric]
    by (intro restores_if holds_proceed writes_restore [where put = "\<lambda>v b. b[i := v]"] holds_and_next_inv holds_try_run wr)
      simp_all
  then show ?thesis
    unfolding interest8_def
    by (intro restores_positions [where f = "\<lambda>i out. each (interest8_step E i (out ! i)) interesting_8"])
      (intro holds_each, simp)
qed

lemma interest16_restores: "restores (interest16 E eff (length a)) a"
  unfolding interest16_def interest16_step_def Let_def
  by (rule restores_positions [where f = "\<lambda>i out. and_next (each (interest16_step E i (get16 i out)) interesting_16)
      (set_buf (put16 i (get16 i out)))", unfolded interest16_step_def Let_def])
    (intro writes_restore [where put = "put16 _"] holds_and_next_inv writes_attempt [where put = "put16 _"] holds_each put16_same put16_put16; simp)

lemma interest32_restores: "restores (interest32 E eff (length a)) a"
  unfolding interest32_def interest32_step_def Let_def
  by (rule restores_positions [where f = "\<lambda>i out. and_next (each (interest32_step E i (get32 i out)) interesting_32)
      (set_buf (put32 i (get32 i out)))", unfolded interest32_step_def Let_def])
    (intro writes_restore [where put = "put32 _"] holds_and_next_inv writes_attempt [where put = "put32 _"] holds_each put32_same put32_put32; simp)

section \<open>Dictionary tokens\<close>

text \<open>\<open>b\<close> differs from \<open>a\<close> at most in the \<open>n\<close> bytes at \<open>i\<close>.\<close>

definition agree :: "nat \<Rightarrow> nat \<Rightarrow> u8 list \<Rightarrow> u8 list \<Rightarrow> bool" where
  "agree i n a b \<longleftrightarrow> length b = length a \<and> take i b = take i a \<and> drop (i + n) b = drop (i + n) a"

lemma agree_overwrite:
  assumes "agree i n a b" and "i + length bs \<le> length a" and "n \<le> length bs"
  shows "agree i (length bs) a (overwrite i bs b)"
proof -
  have "drop (i + length bs) b = drop (i + length bs) a"
    using assms(1,3) unfolding agree_def by (metis add_le_cancel_left drop_drop le_add_diff_inverse add.commute)
  then show ?thesis using assms by (simp add: agree_def overwrite_def)
qed

lemma agree_restore: "agree i n a b \<Longrightarrow> i + n \<le> length a \<Longrightarrow> overwrite i (take n (drop i a)) b = a"
proof -
  assume a: "agree i n a b" and n: "i + n \<le> length a"
  then have "overwrite i (take n (drop i a)) b = overwrite i (take n (drop i a)) a"
    by (simp add: agree_def overwrite_def)
  then show ?thesis using overwrite_same [OF n] by simp
qed

lemma over_tokens_agree:
  assumes "over_tokens E eff (length a) i ts n b s = (False, n', out, s')" and "agree i n a b" and "i + n \<le> length a"
    and "sorted (map (length \<circ> fst) ts)" and "\<forall>t \<in> set ts. n \<le> length (fst t)"
  shows "agree i n' a out \<and> i + n' \<le> length a"
  using assms
proof (induction ts arbitrary: n b s)
  case (Cons t ts)
  obtain tok skip where t: "t = (tok, skip)" by (cases t)
  show ?case
  proof (cases "skip \<or> length a - i < length tok \<or> take (length tok) (drop i b) = tok \<or>
      1 \<notin> set (take (eff_span_alen i (length tok)) (drop (eff_apos i) eff))")
    case True
    then have "over_tokens E eff (length a) i ts n b s = (False, n', out, s')" using Cons.prems(1) by (simp add: t)
    then show ?thesis using Cons.IH Cons.prems by auto
  next
    case False
    obtain stop s1 where c: "common_fuzz_stuff E (overwrite i tok b) s = (stop, s1)" by (metis prod.exhaust)
    have le: "i + length tok \<le> length a" "n \<le> length tok"
      using False Cons.prems(3,5) by (auto simp: t)
    have "over_tokens E eff (length a) i ts (length tok) (overwrite i tok b) s1 = (False, n', out, s')"
      using Cons.prems(1) False c by (auto simp: t Let_def split: if_splits)
    moreover have "agree i (length tok) a (overwrite i tok b)" using agree_overwrite [OF Cons.prems(2) le] .
    moreover have "sorted (map (length \<circ> fst) ts)" "\<forall>t \<in> set ts. length tok \<le> length (fst t)"
      using Cons.prems(4) by (auto simp: t comp_def)
    ultimately show ?thesis using Cons.IH le(1) by blast
  qed
qed simp

lemma extras_over_restores:
  assumes "\<And>i. sorted (map (length \<circ> fst) (toks i))"
  shows "restores (extras_over E eff (length a) a toks) a"
  unfolding extras_over_def
proof (rule holds_each)
  fix i assume "i \<in> set [0..<length a]"
  then have i: "i + 0 \<le> length a" by simp
  have "out' = a" if "over_tokens E eff (length a) i (toks i) 0 a s = (False, n, out, s')"
    "out' = overwrite i (take n (drop i a)) out" for s n out s' out'
    using over_tokens_agree [OF that(1) _ i assms] agree_restore [of i n a out] that(2) by (simp add: agree_def)
  then show "restores (\<lambda>out s. case over_tokens E eff (length a) i (toks i) 0 out s of (stop, last_len, out, s) \<Rightarrow>
       if stop then (True, out, s) else (False, overwrite i (take last_len (drop i a)) out, s)) a"
    by (fastforce simp: holds_def split: prod.splits if_splits)
qed

lemma extras_insert_restores: "restores (extras_insert E ln toks ex) a"
  by (auto simp: holds_def extras_insert_def split: prod.splits)

section \<open>All stages\<close>

text \<open>What \<open>Extras\<close> guarantees of the two dictionaries.\<close>

definition tokens_by_length :: "extras_state \<Rightarrow> bool" where
  "tokens_by_length d \<longleftrightarrow> sorted (map length (extras d)) \<and> sorted (map (length \<circ> ae_data) (take USE_AUTO_EXTRAS (a_extras d)))"

lemma user_tokens_sorted: "sorted (map length toks) \<Longrightarrow> sorted (map (length \<circ> fst) (user_tokens E toks i))"
proof -
  have "map (length \<circ> fst) (user_tokens E toks i) = map length toks"
    by (rule nth_equalityI) (simp_all add: user_tokens_def)
  then show "sorted (map length toks) \<Longrightarrow> sorted (map (length \<circ> fst) (user_tokens E toks i))" by simp
qed

lemma late_stages_restore:
  assumes "tokens_by_length d"
  shows "restores (late_stages E eff (length a) a ex d) a"
proof -
  have toks: "sorted (map (length \<circ> fst) (user_tokens E (extras d) i))"
    "sorted (map (length \<circ> fst) (map (\<lambda>a. (ae_data a, False)) (take USE_AUTO_EXTRAS (a_extras d))))" for i
    using assms user_tokens_sorted by (simp_all add: tokens_by_length_def comp_def)
  show ?thesis
    unfolding late_stages_def Let_def
    by (intro holds_and_next_inv holds_when flip_words_restore arith8_restores arith16_restores arith32_restores
        interest8_restores interest16_restores interest32_restores extras_over_restores toks extras_insert_restores)
qed

lemma sort_a_extras_by_length:
  "sorted (map length (extras d)) \<Longrightarrow> tokens_by_length (sort_a_extras d)"
proof -
  assume e: "sorted (map length (extras d))"
  let ?a = "qsort compare_auto_extras_use_d (a_extras d)"
  let ?n = "min USE_AUTO_EXTRAS (length ?a)"
  have "sorted (map (\<lambda>x. length (ae_data x)) (qsort compare_auto_extras_len (take ?n ?a)))"
    by (rule qs.sort_by_sorted_nat) (simp add: compare_auto_extras_len_def)
  moreover have "take USE_AUTO_EXTRAS (qsort compare_auto_extras_len (take ?n ?a) @ drop ?n ?a) = qsort compare_auto_extras_len (take ?n ?a)"
    by (simp add: qs.sort_by_length min_def)
  ultimately show ?thesis using e by (simp add: tokens_by_length_def sort_a_extras_def Let_def comp_def)
qed

lemma maybe_add_auto_by_length: "maybe_add_auto mem d = Some d' \<Longrightarrow> tokens_by_length d \<Longrightarrow> tokens_by_length d'"
proof -
  assume m: "maybe_add_auto mem d = Some d'" and d: "tokens_by_length d"
  have "d' = d \<or> (\<exists>x. d' = sort_a_extras x \<and> extras x = extras d)"
    using m unfolding maybe_add_auto_def Let_def
    by (simp split: if_splits option.splits) (force | auto)+
  then show "tokens_by_length d'" using d sort_a_extras_by_length by (auto simp: tokens_by_length_def)
qed

lemma collect_token_by_length:
  assumes "collect_token ec ck e b c = Some c'" and "tokens_by_length (dict c)"
  shows "tokens_by_length (dict c')"
proof -
  have byte: "dict (collect_byte b c) = dict c" for c by (simp add: collect_byte_def Let_def)
  have offer: "tokens_by_length (dict c2)" if "offer_token c1 = Some c2" "dict c1 = dict c" for c1 c2
    using that assms(2) maybe_add_auto_by_length by (auto simp: offer_token_def split: if_splits)
  show ?thesis using assms byte offer
    by (auto simp: collect_token_def split: if_splits)
qed

lemma flip1_by_length: "flip1 E ln cs c a s = Some (stop, c', out, s') \<Longrightarrow> tokens_by_length (dict c) \<Longrightarrow> tokens_by_length (dict c')"
proof (induction cs arbitrary: c a s)
  case (Cons b cs)
  then show ?case
    by (auto split: prod.splits if_splits simp: bind_eq_Some_conv dest: collect_token_by_length)
qed simp

text \<open>The run of the stages, taken apart.\<close>

lemma det_stages_SomeD:
  assumes "det_stages E eff_old ex a c a s = Some (False, c', out, s')"
  obtains s1 s2 s3 m where "flip1 E (length a) [0..<8 * length a] c a s = Some (False, c', a, s1)"
    "and_next (flip2 E (length a)) (flip4 E (length a)) a s1 = (False, a, s2)"
    "flip8 E (length a) [0..<length a] (eff_start (length a) eff_old) a s2 = (False, m, a, s3)"
    "late_stages E (eff_dense (length a) m) (length a) a ex (dict c') a s3 = (False, out, s')"
proof -
  obtain stop c1 out1 s1 where f1: "flip1 E (length a) [0..<8 * length a] c a s = Some (stop, c1, out1, s1)"
    using assms unfolding det_stages_def Let_def by (auto simp: map_option_case split: option.splits)
  have ns: "\<not> stop" using assms f1 by (auto simp: det_stages_def Let_def)
  have o1: "out1 = a" using flip1_SomeD [of E "length a" _ c a s c1 out1 s1] f1 ns by simp
  obtain stop2 out2 s2 where f2: "and_next (flip2 E (length a)) (flip4 E (length a)) a s1 = (stop2, out2, s2)" by (metis prod.exhaust)
  have ns2: "\<not> stop2" using assms f1 ns o1 f2 by (auto simp: det_stages_def Let_def)
  have o2: "out2 = a" using yields_and_next [OF yields_flip2 yields_flip4, where a = a] f2 ns2
    by (simp add: yields_def)
  obtain stop3 m out3 s3 where f3: "flip8 E (length a) [0..<length a] (eff_start (length a) eff_old) a s2 = (stop3, m, out3, s3)"
    by (metis prod.exhaust)
  have ns3: "\<not> stop3" using assms f1 ns o1 f2 ns2 o2 f3 by (auto simp: det_stages_def Let_def)
  have o3: "out3 = a" using flip8_False f3 ns3 by fastforce
  have "c1 = c'" "late_stages E (eff_dense (length a) m) (length a) a ex (dict c1) a s3 = (False, out, s')"
    using assms f1 ns o1 f2 ns2 o2 f3 ns3 o3 by (auto simp: det_stages_def Let_def split: prod.splits)
  then show thesis using that [of s1 s2 m s3] f1 f2 f3 ns ns2 ns3 o1 o2 o3 by simp
qed

lemma common_fuzz_stuff_runs': "common_fuzz_stuff E out s = (stop, s') \<Longrightarrow> runs s' = runs s @ [out]"
  using common_fuzz_stuff_runs [of E out s] by simp

section \<open>What arithmetic leaves out\<close>

text \<open>The inputs of \<^verbatim>\<open>arith 8/8\<close> for one byte.\<close>

definition arith8_inputs :: "u8 list \<Rightarrow> nat \<Rightarrow> nat \<Rightarrow> u8 list list" where
  "arith8_inputs a i j =
    (let new = [a ! i + of_nat j, a ! i - of_nat j]
     in map (\<lambda>v. a[i := v]) (filter (\<lambda>v. \<not> could_be_bitflip (ucast (a ! i XOR v))) new))"

lemma yields_arith8_step:
  assumes "i < length a"
  shows "yields (arith8_step E i (a ! i) j) a a (arith8_inputs a i j)"
proof -
  let ?v = "of_nat j :: u8"
  let ?p = "\<not> could_be_bitflip (ucast (a ! i XOR (a ! i + ?v)))" and ?m = "\<not> could_be_bitflip (ucast (a ! i XOR (a ! i - ?v)))"
  let ?b = "if ?p then a[i := a ! i + ?v] else a"
  let ?c = "if ?m then ?b[i := a ! i - ?v] else ?b"
  have 1: "yields (attempt E ?p (\<lambda>b. b[i := a ! i + ?v])) a ?b (if ?p then [a[i := a ! i + ?v]] else [])"
    by (rule yields_attempt)
  have 2: "yields (attempt E ?m (\<lambda>b. b[i := a ! i - ?v])) ?b ?c (if ?m then [?b[i := a ! i - ?v]] else [])"
    by (rule yields_attempt)
  have 3: "yields (set_buf (\<lambda>b. b[i := a ! i])) ?c (?c[i := a ! i]) []" by (rule yields_set_buf)
  have b: "?c[i := a ! i] = a" by simp
  have l: "(if ?p then [a[i := a ! i + ?v]] else []) @ (if ?m then [?b[i := a ! i - ?v]] else []) @ [] = arith8_inputs a i j"
    by (simp add: arith8_inputs_def)
  show ?thesis using yields_and_next [OF 1 yields_and_next [OF 2 3]] unfolding b l arith8_step_def Let_def .
qed

lemma yields_arith8:
  "yields (arith8 E eff (length a)) a a
     (concat (map (\<lambda>i. if effective eff 1 i then concat (map (arith8_inputs a i) [1..<ARITH_MAX + 1]) else []) [0..<length a]))"
  unfolding arith8_def
proof (rule yields_each)
  fix i assume "i \<in> set [0..<length a]"
  then have "yields (each (arith8_step E i (a ! i)) [1..<ARITH_MAX + 1]) a a (concat (map (arith8_inputs a i) [1..<ARITH_MAX + 1]))"
    by (intro yields_each yields_arith8_step) simp
  then show "yields (\<lambda>out. if \<not> effective eff 1 i then proceed out else each (arith8_step E i (out ! i)) [1..<ARITH_MAX + 1] out) a a
      (if effective eff 1 i then concat (map (arith8_inputs a i) [1..<ARITH_MAX + 1]) else [])"
    using yields_proceed [of a] by (simp add: yields_def)
qed

section \<open>That the stages go through\<close>

text \<open>A target that runs every input without a timeout, and no signal.\<close>

definition quiet :: "fuzz_env \<Rightarrow> bool" where
  "quiet E \<longleftrightarrow> (\<forall>k a. \<not> run_stop_soon (exec (fz_target E) k a) \<and> run_result (exec (fz_target E) k a) \<noteq> FSRV_RUN_TMOUT \<and> \<not> skip_at E k)"

text \<open>A step only adds to the runs, and a quiet target never makes it abandon the entry.\<close>

definition regular :: "fuzz_env \<Rightarrow> step \<Rightarrow> bool" where
  "regular E f \<longleftrightarrow> (\<forall>a s. (\<exists>L. runs (snd (snd (f a s))) = runs s @ L) \<and>
     (quiet E \<longrightarrow> \<not> skip_requested s \<longrightarrow> \<not> fst (f a s) \<and> \<not> skip_requested (snd (snd (f a s)))))"

lemma quiet_common: "quiet E \<Longrightarrow> \<not> skip_requested s \<Longrightarrow> common_fuzz_stuff E a s = (stop, s') \<Longrightarrow> \<not> stop \<and> \<not> skip_requested s'"
  by (auto simp: quiet_def common_fuzz_stuff_def Let_def split: if_splits)

lemma regular_proceed: "regular E proceed"
  by (simp add: regular_def proceed_def)

lemma regular_set_buf: "regular E (set_buf f)"
  by (simp add: regular_def set_buf_def)

lemma regular_run: "regular E (\<lambda>a s. case common_fuzz_stuff E (f a) s of (stop, s) \<Rightarrow> (stop, g a, s))"
  unfolding regular_def
proof (intro allI conjI impI)
  fix a s
  obtain stop s' where c: "common_fuzz_stuff E (f a) s = (stop, s')" by (metis prod.exhaust)
  show "\<exists>L. runs (snd (snd (case common_fuzz_stuff E (f a) s of (stop, s) \<Rightarrow> (stop, g a, s)))) = runs s @ L"
    using common_fuzz_stuff_runs' [OF c] c by simp
  assume "quiet E" "\<not> skip_requested s"
  then show "\<not> fst (case common_fuzz_stuff E (f a) s of (stop, s) \<Rightarrow> (stop, g a, s))"
    "\<not> skip_requested (snd (snd (case common_fuzz_stuff E (f a) s of (stop, s) \<Rightarrow> (stop, g a, s))))"
    using quiet_common [OF _ _ c] c by simp_all
qed

lemma regular_try_run: "regular E (try_run E)"
  using regular_run [of E "\<lambda>a. a" "\<lambda>a. a"] by (simp add: try_run_def [abs_def])

lemma regular_and_next: "regular E f \<Longrightarrow> regular E g \<Longrightarrow> regular E (and_next f g)"
  unfolding regular_def
proof (intro allI)
  fix a s
  assume f: "\<forall>a s. (\<exists>L. runs (snd (snd (f a s))) = runs s @ L) \<and>
      (quiet E \<longrightarrow> \<not> skip_requested s \<longrightarrow> \<not> fst (f a s) \<and> \<not> skip_requested (snd (snd (f a s))))"
    and g: "\<forall>a s. (\<exists>L. runs (snd (snd (g a s))) = runs s @ L) \<and>
      (quiet E \<longrightarrow> \<not> skip_requested s \<longrightarrow> \<not> fst (g a s) \<and> \<not> skip_requested (snd (snd (g a s))))"
  obtain stop b s1 where 1: "f a s = (stop, b, s1)" by (metis prod.exhaust)
  obtain L where "runs s1 = runs s @ L" using f 1 by (metis snd_conv)
  moreover obtain M where "runs (snd (snd (g b s1))) = runs s1 @ M" using g by blast
  ultimately show "(\<exists>L. runs (snd (snd (and_next f g a s))) = runs s @ L) \<and>
      (quiet E \<longrightarrow> \<not> skip_requested s \<longrightarrow> \<not> fst (and_next f g a s) \<and> \<not> skip_requested (snd (snd (and_next f g a s))))"
    using f [rule_format, of a s] g [rule_format, of b s1] 1 by (simp add: and_next_def)
qed

lemma regular_each: "(\<And>i. regular E (f i)) \<Longrightarrow> regular E (each f is)"
  by (induction "is") (simp_all add: regular_proceed regular_and_next)

lemma regular_if: "regular E f \<Longrightarrow> regular E g \<Longrightarrow> regular E (if c then f else g)"
  by simp

lemma regular_attempt: "regular E (attempt E c f)"
  by (simp add: attempt_def regular_proceed regular_and_next regular_set_buf regular_try_run)

lemma regular_flip_step: "regular E (flip_step E f)"
  by (simp add: flip_step_def regular_and_next regular_set_buf regular_try_run)

lemmas regular_rules = regular_proceed regular_set_buf regular_try_run regular_and_next regular_each regular_if regular_attempt
  regular_flip_step

text \<open>A step that reads the buffer it starts from.\<close>

lemma regular_reads: "(\<And>a. regular E (f a)) \<Longrightarrow> regular E (\<lambda>a. f a a)"
  unfolding regular_def by blast

lemma regular_positions: "(\<And>i a. regular E (f i a)) \<Longrightarrow> regular E (each (\<lambda>i out. if skip i then proceed out else f i out out) is)"
  by (rule regular_each, rule regular_reads [where f = "\<lambda>a. if skip _ then proceed else f _ a", simplified if_distribR])
    (simp add: regular_proceed)

lemma regular_stages: "regular E (flip2 E ln)" "regular E (flip4 E ln)" "regular E (flip16 E eff ln)" "regular E (flip32 E eff ln)"
  unfolding flip2_def flip4_def flip16_def flip32_def by (intro regular_rules)+

lemma regular_arith: "regular E (arith8 E eff ln)" "regular E (arith16 E eff ln)" "regular E (arith32 E eff ln)"
  unfolding arith8_def arith16_def arith32_def
  by (rule regular_positions [where f = "\<lambda>i out. each (arith8_step E i (out ! i)) [1..<ARITH_MAX + 1]"],
        unfold arith8_step_def Let_def, intro regular_rules)
     (rule regular_positions [where f = "\<lambda>i out. each (arith16_step E i (get16 i out)) [1..<ARITH_MAX + 1]"],
        unfold arith16_step_def Let_def, intro regular_rules,
      rule regular_positions [where f = "\<lambda>i out. each (arith32_step E i (get32 i out)) [1..<ARITH_MAX + 1]"],
        unfold arith32_step_def Let_def, intro regular_rules)

lemma regular_interest: "regular E (interest8 E eff ln)" "regular E (interest16 E eff ln)" "regular E (interest32 E eff ln)"
  unfolding interest8_def interest16_def interest32_def
  by (rule regular_positions [where f = "\<lambda>i out. each (interest8_step E i (out ! i)) interesting_8"],
        unfold interest8_step_def Let_def, intro regular_rules)
     (rule regular_positions [where f = "\<lambda>i out. and_next (each (interest16_step E i (get16 i out)) interesting_16) (set_buf (put16 i (get16 i out)))"],
        unfold interest16_step_def Let_def, intro regular_rules,
      rule regular_positions [where f = "\<lambda>i out. and_next (each (interest32_step E i (get32 i out)) interesting_32) (set_buf (put32 i (get32 i out)))"],
        unfold interest32_step_def Let_def, intro regular_rules)

lemma over_tokens_regular:
  "over_tokens E eff ln i ts n b s = (stop, n', out, s') \<Longrightarrow> (\<exists>L. runs s' = runs s @ L) \<and>
     (quiet E \<longrightarrow> \<not> skip_requested s \<longrightarrow> \<not> stop \<and> \<not> skip_requested s')"
proof (induction ts arbitrary: n b s)
  case (Cons t ts)
  obtain tok skip where t: "t = (tok, skip)" by (cases t)
  obtain stop1 s1 where c: "common_fuzz_stuff E (overwrite i tok b) s = (stop1, s1)" by (metis prod.exhaust)
  note r = common_fuzz_stuff_runs' [OF c]
  have q: "quiet E \<Longrightarrow> \<not> skip_requested s \<Longrightarrow> \<not> stop1 \<and> \<not> skip_requested s1" using quiet_common [OF _ _ c] by blast
  consider (same) "over_tokens E eff ln i ts n b s = (stop, n', out, s')" | (stop) "stop1" "stop" "s' = s1"
    | (run) "\<not> stop1" "over_tokens E eff ln i ts (length tok) (overwrite i tok b) s1 = (stop, n', out, s')"
    using Cons.prems c by (auto simp: t Let_def split: if_splits)
  then show ?case
  proof cases
    case same
    then show ?thesis by (rule Cons.IH)
  next
    case stop
    then show ?thesis using r q by auto
  next
    case run
    then show ?thesis using Cons.IH [OF run(2)] r q by auto
  qed
qed simp

lemma regular_extras: "regular E (extras_over E eff ln a toks)" "regular E (extras_insert E ln ts ex)"
proof -
  have "regular E (\<lambda>out s. case over_tokens E eff ln i (toks i) 0 out s of (stop, last_len, out, s) \<Rightarrow>
       if stop then (True, out, s) else (False, overwrite i (take last_len (drop i a)) out, s))" for i
    unfolding regular_def
  proof (intro allI)
    fix out s
    obtain stop n b s1 where o: "over_tokens E eff ln i (toks i) 0 out s = (stop, n, b, s1)" by (metis prod.exhaust)
    from over_tokens_regular [OF this] o
    show "(\<exists>L. runs (snd (snd (case over_tokens E eff ln i (toks i) 0 out s of (stop, last_len, out, s) \<Rightarrow>
       if stop then (True, out, s) else (False, overwrite i (take last_len (drop i a)) out, s)))) = runs s @ L) \<and>
      (quiet E \<longrightarrow> \<not> skip_requested s \<longrightarrow> \<not> fst (case over_tokens E eff ln i (toks i) 0 out s of (stop, last_len, out, s) \<Rightarrow>
       if stop then (True, out, s) else (False, overwrite i (take last_len (drop i a)) out, s)) \<and>
       \<not> skip_requested (snd (snd (case over_tokens E eff ln i (toks i) 0 out s of (stop, last_len, out, s) \<Rightarrow>
       if stop then (True, out, s) else (False, overwrite i (take last_len (drop i a)) out, s)))))"
      by simp
  qed
  then show "regular E (extras_over E eff ln a toks)" unfolding extras_over_def by (intro regular_each)
  have tok: "regular E (insert_token E ln out i tok)" for out i tok
    unfolding insert_token_def
    by (intro regular_if regular_proceed regular_and_next regular_set_buf)
      (rule regular_run [where f = "take (ln + length tok)" and g = "\<lambda>a. a"])
  have "regular E (each (\<lambda>i. and_next (each (insert_token E ln out i) ts)
      (set_buf (\<lambda>ex. if i < ln then ex[i := out ! i] else ex))) [0..<ln + 1])" (is "regular E (?loop out)") for out
    by (intro regular_each regular_and_next tok regular_set_buf)
  note loop = this [unfolded regular_def, THEN spec, THEN spec]
  show "regular E (extras_insert E ln ts ex)"
    unfolding regular_def
  proof (intro allI)
    fix a s
    obtain stop b s1 where eq: "?loop a ex s = (stop, b, s1)" by (cases "?loop a ex s") blast
    have ins: "extras_insert E ln ts ex a s = (stop, a, s1)" unfolding extras_insert_def eq by simp
    show "(\<exists>L. runs (snd (snd (extras_insert E ln ts ex a s))) = runs s @ L) \<and>
      (quiet E \<longrightarrow> \<not> skip_requested s \<longrightarrow> \<not> fst (extras_insert E ln ts ex a s) \<and>
        \<not> skip_requested (snd (snd (extras_insert E ln ts ex a s))))"
      using loop [of a ex s] unfolding ins eq fst_conv snd_conv .
  qed
qed

lemma regular_late: "regular E (late_stages E eff ln a ex d)"
  unfolding late_stages_def Let_def
  by (intro regular_and_next regular_if regular_proceed regular_stages regular_arith regular_interest regular_extras)

section \<open>Bytes one flip away\<close>

lemma byte_pattern:
  fixes x :: u8
  assumes "x \<noteq> 0" and "could_be_bitflip (ucast x)"
  shows "(\<exists>k \<in> {1, 2, 4}. \<exists>n. n + k \<le> 8 \<and> x = push_bit n (mask k)) \<or> x = 0xFF"
proof -
  have "unat (ucast x :: u32) = unat x" by simp
  then have "(ucast x :: u32) \<noteq> 0" using assms(1) unsigned_eq_0_iff by metis
  then obtain k n where k: "k \<in> {1, 2, 4} \<or> k \<in> {8, 16, 32} \<and> 8 dvd n" and f: "flip_pattern k n (ucast x)"
    using could_be_bitflip_flips assms(2) by blast
  have b: "bit x i \<longleftrightarrow> n \<le> i \<and> i < n + k" if "i < 8" for i
  proof -
    have "bit x i \<longleftrightarrow> bit (ucast x :: u32) i" using that by (simp add: bit_unsigned_iff)
    also have "\<dots> \<longleftrightarrow> n \<le> i \<and> i < n + k" using f that by (auto simp: flip_pattern_def bit_push_bit_iff bit_mask_iff)
    finally show ?thesis .
  qed
  have "0 < k" using k by auto
  then have "bit (ucast x :: u32) (n + k - 1)"
    using f by (auto simp: flip_pattern_def bit_push_bit_iff bit_mask_iff)
  then have top: "n + k \<le> 8" by (auto simp: bit_unsigned_iff dest: bit_imp_le_length)
  have eq: "x = push_bit n (mask k)"
    by (rule bit_word_eqI) (use b top in \<open>auto simp: bit_push_bit_iff bit_mask_iff\<close>)
  show ?thesis
  proof (cases "k \<in> {1, 2, 4}")
    case True
    then show ?thesis using eq top by blast
  next
    case False
    then have "k = 8" "n = 0" using k top by auto
    then show ?thesis using eq by (simp add: mask_eq_exp_minus_1)
  qed
qed

lemma FLIP_BIT_byte: "m < 8 \<Longrightarrow> FLIP_BIT (8 * i + m) a = a[i := a ! i XOR drop_bit m 128]"
  by (simp add: FLIP_BIT_def)

lemma bit_drop_128: "m < 8 \<Longrightarrow> bit (drop_bit m (128 :: u8)) j \<longleftrightarrow> j + m = 7"
proof -
  have "(128 :: u8) = 2 ^ 7" by simp
  then show ?thesis unfolding bit_drop_bit_eq comp_def by (simp only: bit_exp_iff) auto
qed

lemma flip_masks:
  assumes "n + k \<le> 8"
  shows "k = 1 \<Longrightarrow> drop_bit (7 - n) 128 = (push_bit n (mask k) :: u8)"
    "k = 2 \<Longrightarrow> drop_bit (6 - n) 128 XOR drop_bit (7 - n) 128 = (push_bit n (mask k) :: u8)"
    "k = 4 \<Longrightarrow> drop_bit (4 - n) 128 XOR (drop_bit (5 - n) 128 XOR (drop_bit (6 - n) 128 XOR drop_bit (7 - n) 128)) = (push_bit n (mask k) :: u8)"
proof -
  have b: "bit (push_bit n (mask k) :: u8) j \<longleftrightarrow> n \<le> j \<and> j < n + k" if "j < 8" for j
    using that by (auto simp: bit_push_bit_iff bit_mask_iff)
  have d: "bit (drop_bit (7 - n - c) (128 :: u8)) j \<longleftrightarrow> j = n + c" if "c < k" for c j
    using bit_drop_128 [of "7 - n - c" j] that assms by auto
  show "k = 1 \<Longrightarrow> drop_bit (7 - n) 128 = (push_bit n (mask k) :: u8)"
    by (rule bit_word_eqI) (use b d [of 0] in auto)
  show "k = 2 \<Longrightarrow> drop_bit (6 - n) 128 XOR drop_bit (7 - n) 128 = (push_bit n (mask k) :: u8)"
    by (rule bit_word_eqI) (use b d [of 0] d [of 1] in \<open>auto simp: bit_xor_iff\<close>)
  show "k = 4 \<Longrightarrow> drop_bit (4 - n) 128 XOR (drop_bit (5 - n) 128 XOR (drop_bit (6 - n) 128 XOR drop_bit (7 - n) 128)) = (push_bit n (mask k) :: u8)"
    by (rule bit_word_eqI) (use b d [of 0] d [of 1] d [of 2] d [of 3] in \<open>auto simp: bit_xor_iff\<close>)
qed

lemma flip_bits_byte:
  assumes "k \<in> {1, 2, 4}" and "n + k \<le> 8" and "i < length a"
  shows "flip_bits k (8 * i + (8 - n - k)) a = a[i := a ! i XOR push_bit n (mask k)]"
proof -
  have f: "FLIP_BIT (8 * i + m) b = b[i := b ! i XOR drop_bit m 128]" if "m < 8" for m b
    using that by (rule FLIP_BIT_byte)
  consider "k = 1" "n < 8" | "k = 2" "n < 7" | "k = 4" "n < 5" using assms(1,2) by force
  then show ?thesis
  proof cases
    case 1
    then show ?thesis using f [of "7 - n" a] flip_masks(1) [OF assms(2)] by (simp add: flip_bits_eqs)
  next
    case 2
    then have e: "8 - n - k = 6 - n" "8 * i + (6 - n) + 1 = 8 * i + (7 - n)" by simp_all
    have "6 - n < 8" "7 - n < 8" by simp_all
    then show ?thesis using flip_masks(2) [OF assms(2) 2(1)] assms(3)
      unfolding e(1) unfolding 2(1) flip_bits_eqs o_apply e(2) f [OF \<open>6 - n < 8\<close>] f [OF \<open>7 - n < 8\<close>]
      by (simp add: xor.assoc)
  next
    case 3
    then have e: "8 - n - k = 4 - n" "8 * i + (4 - n) + 1 = 8 * i + (5 - n)" "8 * i + (4 - n) + 2 = 8 * i + (6 - n)"
      "8 * i + (4 - n) + 3 = 8 * i + (7 - n)" by simp_all
    have m: "4 - n < 8" "5 - n < 8" "6 - n < 8" "7 - n < 8" by simp_all
    show ?thesis using flip_masks(3) [OF assms(2) 3(1)] assms(3)
      unfolding e(1) unfolding 3(1) flip_bits_eqs o_apply e(2-4) f [OF m(1)] f [OF m(2)] f [OF m(3)] f [OF m(4)]
      by (simp add: xor.assoc)
  qed
qed

section \<open>Nothing within reach of arithmetic is missed\<close>

lemma runs_regular: "regular E f \<Longrightarrow> f a s = (stop, b, s') \<Longrightarrow> set (runs s) \<subseteq> set (runs s')"
  unfolding regular_def by (metis snd_conv set_append Un_upper1)

text \<open>The inputs that the bit flips run.\<close>

lemma flips_run:
  assumes f1: "flip1 E (length a) [0..<8 * length a] c a s = Some (False, c', a, s1)"
    and f24: "and_next (flip2 E (length a)) (flip4 E (length a)) a s1 = (False, a, s2)"
    and k: "k \<in> {1, 2, 4}" and d: "d + k \<le> 8 * length a"
  shows "flip_bits k d a \<in> set (runs s2)"
proof -
  have r1: "runs s1 = runs s @ map (\<lambda>c. flip_bits (Suc 0) c a) [0..<8 * length a]" using flip1_SomeD [OF f1] by simp
  have "runs s2 = runs s1 @ map (\<lambda>c. flip_bits 2 c a) [0..<8 * length a - 1] @ map (\<lambda>c. flip_bits 4 c a) [0..<8 * length a - 3]"
    using yields_and_next [OF yields_flip2 yields_flip4, where a = a] f24 by (simp add: yields_def)
  then show ?thesis using r1 k d by auto
qed

lemma eff_apos_less: "i < ln \<Longrightarrow> eff_apos i < eff_alen ln"
  by (auto simp: eff_apos_def eff_alen_def EFF_MAP_SCALE2_def div_less_iff_less_mult less_Suc_eq)

lemma eff_dense_flagged:
  assumes "fst m ! eff_apos i \<noteq> 0" and "i < ln"
  shows "eff_dense ln m ! eff_apos i \<noteq> 0"
proof -
  have "eff_apos i < eff_alen ln" using assms(2) by (rule eff_apos_less)
  then show ?thesis using assms(1) by (cases m) (simp add: eff_dense_def nth_append)
qed

lemma effective_1: "effective eff 1 i \<longleftrightarrow> eff ! eff_apos i \<noteq> 0"
  by (simp add: effective_def)

text \<open>A changed byte that \<^verbatim>\<open>could_be_bitflip\<close> recognises has been run by a bit flip.\<close>

lemma recognised_flip_run:
  assumes "x \<noteq> 0" and "could_be_bitflip (ucast x)" and i: "i < length a"
    and flips: "\<And>k d. k \<in> {1, 2, 4} \<Longrightarrow> d + k \<le> 8 * length a \<Longrightarrow> flip_bits k d a \<in> R"
    and whole: "a[i := a ! i XOR 0xFF] \<in> R"
  shows "a[i := a ! i XOR x] \<in> R"
proof -
  consider k n where "k \<in> {1, 2, 4}" "n + k \<le> 8" "x = push_bit n (mask k)" | "x = 0xFF"
    using byte_pattern [OF assms(1,2)] by blast
  then show ?thesis
  proof cases
    case 1
    have "8 * i + (8 - n - k) + k \<le> 8 * length a" using i 1(2) by linarith
    then show ?thesis using flips [OF 1(1)] flip_bits_byte [OF 1(1,2) i] 1(3) by metis
  next
    case 2
    then show ?thesis using whole by simp
  qed
qed

lemma flip8_run:
  "flip8 E ln [0..<length a] m a s = (False, m', out, s') \<Longrightarrow> set (runs s) \<subseteq> set (runs s') \<and>
     (\<forall>i < length a. a[i := a ! i XOR 0xFF] \<in> set (runs s')) \<and>
     (ln < EFF_MIN_LEN \<longrightarrow> (\<forall>i < length a. eff_apos i < length (fst m) \<longrightarrow> fst m' ! eff_apos i \<noteq> 0))"
  using flip8_False [of E ln "[0..<length a]" m a s m' out s'] by auto

lemma late_stages_arith8_run:
  assumes late: "late_stages E eff (length a) a ex d a s = (False, out, s')" and "\<not> no_arith E"
    and i: "i < length a" and eff: "eff ! eff_apos i \<noteq> 0" and j: "1 \<le> j" "j \<le> ARITH_MAX"
  shows "set (runs s) \<subseteq> set (runs s') \<and> set (arith8_inputs a i j) \<subseteq> set (runs s')"
proof -
  let ?flips = "if 2 \<le> length a then and_next (flip16 E eff (length a)) (if 4 \<le> length a then flip32 E eff (length a) else proceed) else proceed"
  have reg: "regular E ?flips"
    by (intro regular_and_next regular_if regular_proceed regular_stages)
  have res: "restores ?flips a" by (intro holds_and_next_inv holds_when flip_words_restore)
  define g where "g = and_next (if 2 \<le> length a then and_next (arith16 E eff (length a)) (if 4 \<le> length a then arith32 E eff (length a) else proceed) else proceed)
    (and_next (and_next (interest8 E eff (length a)) (if \<not> no_arith E \<and> 2 \<le> length a
         then and_next (interest16 E eff (length a)) (if 4 \<le> length a then interest32 E eff (length a) else proceed) else proceed))
    (and_next (if extras d \<noteq> [] then and_next (extras_over E eff (length a) a (user_tokens E (extras d))) (extras_insert E (length a) (extras d) ex) else proceed)
       (if a_extras d \<noteq> [] then extras_over E eff (length a) a (\<lambda>i. map (\<lambda>a. (ae_data a, False)) (take USE_AUTO_EXTRAS (a_extras d))) else proceed)))"
  have "late_stages E eff (length a) a ex d = and_next ?flips (and_next (and_next (arith8 E eff (length a))
      (if 2 \<le> length a then and_next (arith16 E eff (length a)) (if 4 \<le> length a then arith32 E eff (length a) else proceed) else proceed))
    (and_next (and_next (interest8 E eff (length a)) (if \<not> no_arith E \<and> 2 \<le> length a
         then and_next (interest16 E eff (length a)) (if 4 \<le> length a then interest32 E eff (length a) else proceed) else proceed))
    (and_next (if extras d \<noteq> [] then and_next (extras_over E eff (length a) a (user_tokens E (extras d))) (extras_insert E (length a) (extras d) ex) else proceed)
       (if a_extras d \<noteq> [] then extras_over E eff (length a) a (\<lambda>i. map (\<lambda>a. (ae_data a, False)) (take USE_AUTO_EXTRAS (a_extras d))) else proceed))))"
    unfolding late_stages_def Let_def if_P [OF assms(2)] ..
  then have g: "late_stages E eff (length a) a ex d = and_next ?flips (and_next (arith8 E eff (length a)) g)" "regular E g"
    unfolding g_def and_next_assoc [of "arith8 E eff (length a)"]
    by (assumption, intro regular_and_next regular_if regular_proceed regular_stages regular_arith regular_interest regular_extras)
  obtain b1 s1 where 1: "?flips a s = (False, b1, s1)" "and_next (arith8 E eff (length a)) g b1 s1 = (False, out, s')"
    using late unfolding g(1) and_next_def by (auto split: prod.splits if_splits)
  have b1: "b1 = a" using res 1(1) by (auto simp: holds_def)
  obtain b2 s2 where 2: "arith8 E eff (length a) a s1 = (False, b2, s2)" "g b2 s2 = (False, out, s')"
    using 1(2) unfolding b1 and_next_def by (auto split: prod.splits if_splits)
  have "set (runs s) \<subseteq> set (runs s1)" by (rule runs_regular [OF reg 1(1)])
  moreover have "set (runs s2) \<subseteq> set (runs s')" by (rule runs_regular [OF g(2) 2(2)])
  moreover have "runs s2 = runs s1 @ concat (map (\<lambda>i. if effective eff 1 i then concat (map (arith8_inputs a i) [1..<ARITH_MAX + 1]) else []) [0..<length a])"
    using yields_arith8 2(1) by (auto simp: yields_def)
  moreover have "set (arith8_inputs a i j) \<subseteq> set (concat (map (\<lambda>i. if effective eff 1 i then concat (map (arith8_inputs a i) [1..<ARITH_MAX + 1]) else []) [0..<length a]))"
  proof -
    have "j \<in> set [1..<ARITH_MAX + 1]" unfolding set_upt using j by simp
    then have "set (arith8_inputs a i j) \<subseteq> set (concat (map (arith8_inputs a i) [1..<ARITH_MAX + 1]))"
      unfolding set_concat set_map by blast
    moreover have "i \<in> set [0..<length a]" "effective eff 1 i" using i eff effective_1 by simp_all
    ultimately show ?thesis unfolding set_concat set_map by auto
  qed
  ultimately show ?thesis by auto
qed

lemma small_u8: "1 \<le> j \<Longrightarrow> j \<le> ARITH_MAX \<Longrightarrow> (of_nat j :: u8) \<noteq> 0"
proof
  assume j: "1 \<le> j" "j \<le> ARITH_MAX" and z: "(of_nat j :: u8) = 0"
  have "unat (of_nat j :: u8) = j" using j by (simp add: ARITH_MAX_def unat_of_nat take_bit_nat_eq_self)
  then show False using z j by simp
qed

lemma xor_neq_0: "x \<noteq> y \<Longrightarrow> x XOR y \<noteq> (0 :: 'a::len word)"
  by (metis xor.assoc xor.right_neutral xor_self_eq)

lemma arith8_or_flip_run:
  assumes "v = a ! i + of_nat j \<or> v = a ! i - of_nat j" and "v \<noteq> a ! i" and "i < length a"
    and "set (arith8_inputs a i j) \<subseteq> R"
    and "\<And>k d. k \<in> {1, 2, 4} \<Longrightarrow> d + k \<le> 8 * length a \<Longrightarrow> flip_bits k d a \<in> R" and "a[i := a ! i XOR 0xFF] \<in> R"
  shows "a[i := v] \<in> R"
proof (cases "could_be_bitflip (ucast (a ! i XOR v))")
  case True
  have "a ! i XOR v \<noteq> 0" using assms(2) xor_neq_0 by metis
  from recognised_flip_run [OF this True assms(3,5,6)] show ?thesis by (simp add: xor.assoc [symmetric])
next
  case False
  then have "a[i := v] \<in> set (arith8_inputs a i j)" using assms(1) by (auto simp: arith8_inputs_def)
  then show ?thesis using assms(4) by blast
qed

text \<open>On words the recognised patterns are not the flips: the bits of a little-endian word that
  are next to each other across a byte boundary are not next to each other for \<^verbatim>\<open>FLIP_BIT\<close>. Adding
  32 to the word \<open>0x00E0\<close> is left out as a four-bit flip that no stage runs.\<close>

lemma word_flip_never_run:
  "could_be_bitflip (ucast ((0x00E0 :: u16) XOR (0x00E0 + 32)))"
  "\<forall>k \<in> {1, 2, 4}. \<forall>d \<in> set [0..<17 - k]. flip_bits k d [0xE0, 0] \<noteq> [0, 1]"
proof -
  show "could_be_bitflip (ucast ((0x00E0 :: u16) XOR (0x00E0 + 32)))" by code_simp
  show "\<forall>k \<in> {1, 2, 4}. \<forall>d \<in> set [0..<17 - k]. flip_bits k d [0xE0, 0] \<noteq> [0, 1]"
    by code_simp
qed

section \<open>Properties\<close>

text \<open>
  C31: whenever the deterministic stages run to their end, the buffer holds the input again, whatever
  was flipped, added, overwritten and inserted in between; this needs the dictionaries to be sorted
  by length, which collecting tokens on the way preserves.
\<close>

theorem det_stages_restore:
  assumes "det_stages E eff_old ex a c a s = Some (False, c', out, s')" and "tokens_by_length (dict c)"
  shows "out = a \<and> tokens_by_length (dict c')"
proof -
  obtain s1 s2 s3 m where f: "flip1 E (length a) [0..<8 * length a] c a s = Some (False, c', a, s1)"
    "late_stages E (eff_dense (length a) m) (length a) a ex (dict c') a s3 = (False, out, s')"
    by (rule det_stages_SomeD [OF assms(1)])
  have d: "tokens_by_length (dict c')" using flip1_by_length [OF f(1) assms(2)] .
  then show ?thesis using late_stages_restore [OF d, where a = a] f(2) unfolding holds_def by blast
qed

text \<open>
  C32: for an input shorter than \<^verbatim>\<open>EFF_MIN_LEN\<close>, where every byte counts as effective, the stages
  have run the input with any one byte increased or decreased by any amount up to \<^verbatim>\<open>ARITH_MAX\<close>:
  what \<^verbatim>\<open>arith 8/8\<close> leaves out as a product of bit flips has indeed been run by one of them.
\<close>

theorem det_stages_arith8:
  assumes "det_stages E eff_old ex a c a s = Some (False, c', out, s')" and "\<not> no_arith E"
    and "length a < EFF_MIN_LEN" and "eff_alen (length a) \<le> length eff_old"
    and i: "i < length a" and j: "1 \<le> j" "j \<le> ARITH_MAX" and v: "v = a ! i + of_nat j \<or> v = a ! i - of_nat j"
  shows "a[i := v] \<in> set (runs s')"
proof -
  obtain s1 s2 s3 m where f: "flip1 E (length a) [0..<8 * length a] c a s = Some (False, c', a, s1)"
    "and_next (flip2 E (length a)) (flip4 E (length a)) a s1 = (False, a, s2)"
    "flip8 E (length a) [0..<length a] (eff_start (length a) eff_old) a s2 = (False, m, a, s3)"
    "late_stages E (eff_dense (length a) m) (length a) a ex (dict c') a s3 = (False, out, s')"
    by (rule det_stages_SomeD [OF assms(1)])
  have len: "length (fst (eff_start (length a) eff_old)) = length eff_old" by (simp add: eff_start_def Let_def)
  have "eff_apos i < eff_alen (length a)" using i by (rule eff_apos_less)
  then have "fst m ! eff_apos i \<noteq> 0" using flip8_run [OF f(3)] assms(3,4) i len by auto
  then have eff: "eff_dense (length a) m ! eff_apos i \<noteq> 0" using eff_dense_flagged i by blast
  have late: "set (runs s3) \<subseteq> set (runs s')" "set (arith8_inputs a i j) \<subseteq> set (runs s')"
    using late_stages_arith8_run [OF f(4) assms(2) i eff j] by blast+
  have r3: "set (runs s2) \<subseteq> set (runs s3)" "a[i := a ! i XOR 0xFF] \<in> set (runs s3)" using flip8_run [OF f(3)] i by blast+
  have flips: "flip_bits k d a \<in> set (runs s')" if "k \<in> {1, 2, 4}" "d + k \<le> 8 * length a" for k d
    using flips_run [OF f(1,2) that] r3(1) late(1) by blast
  have "v \<noteq> a ! i" using v small_u8 [OF j] by auto
  moreover have "a[i := a ! i XOR 0xFF] \<in> set (runs s')" using late(1) r3(2) by (rule subsetD)
  ultimately show ?thesis by (intro arith8_or_flip_run [OF v _ i late(2) flips])
qed

section \<open>Witnesses\<close>

lemma flip_step_quiet:
  assumes "quiet E" and "\<not> skip_requested s" and "f (f a) = a"
  shows "\<exists>s'. flip_step E f a s = (False, a, s') \<and> \<not> skip_requested s'"
proof -
  obtain stop b s' where f: "flip_step E f a s = (stop, b, s')" by (metis prod.exhaust)
  have "\<not> stop \<and> \<not> skip_requested s'" using regular_flip_step [of E f] assms(1,2) f unfolding regular_def by (metis fst_conv snd_conv)
  moreover from this have "b = a" using yields_flip_step [of E f a] f assms(3) by (auto simp: yields_def)
  ultimately show ?thesis using f by simp
qed

lemma flip1_quiet:
  "quiet E \<Longrightarrow> non_instrumented E \<Longrightarrow> \<not> skip_requested s \<Longrightarrow>
    \<exists>s'. flip1 E ln cs c a s = Some (False, c, a, s') \<and> \<not> skip_requested s'"
proof (induction cs arbitrary: s)
  case (Cons b cs)
  then obtain s1 where "flip_step E (FLIP_BIT b) a s = (False, a, s1)" "\<not> skip_requested s1"
    using flip_step_quiet [of E s "FLIP_BIT b" a] FLIP_BIT_twice by blast
  then show ?case using Cons by simp
qed simp

lemma flip8_quiet:
  "quiet E \<Longrightarrow> \<not> skip_requested s \<Longrightarrow> \<exists>m' out s'. flip8 E ln is m a s = (False, m', out, s') \<and> \<not> skip_requested s'"
proof (induction "is" arbitrary: m a s)
  case (Cons i "is")
  obtain eff cnt where m: "m = (eff, cnt)" by (cases m)
  obtain stop s1 where "common_fuzz_stuff E (a[i := a ! i XOR 0xFF]) s = (stop, s1)" by (metis prod.exhaust)
  moreover from quiet_common [OF Cons.prems this] have "\<not> stop" "\<not> skip_requested s1" by simp_all
  ultimately show ?case using Cons.IH [OF Cons.prems(1)] by (simp add: m Let_def del: split_paired_Ex)
next
  case Nil
  then show ?case by (cases m) simp
qed

lemma det_stages_quiet:
  assumes q: "quiet E" "non_instrumented E" "\<not> skip_requested s"
  shows "\<exists>out s'. det_stages E eff_old ex a c a s = Some (False, c, out, s')"
proof -
  obtain s1 where f1: "flip1 E (length a) [0..<8 * length a] c a s = Some (False, c, a, s1)" "\<not> skip_requested s1"
    using flip1_quiet [OF q] by blast
  obtain stop b s2 where f2: "and_next (flip2 E (length a)) (flip4 E (length a)) a s1 = (stop, b, s2)" by (metis prod.exhaust)
  have 2: "\<not> stop \<and> \<not> skip_requested s2"
    using regular_and_next [OF regular_stages(1,2), of E "length a" "length a"] q(1) f1(2) f2 unfolding regular_def by (metis fst_conv snd_conv)
  obtain m b3 s3 where f3: "flip8 E (length a) [0..<length a] (eff_start (length a) eff_old) b s2 = (False, m, b3, s3)" "\<not> skip_requested s3"
    using flip8_quiet q(1) 2 by blast
  obtain stop4 b4 s4 where f4: "late_stages E (eff_dense (length a) m) (length a) a ex (dict c) b3 s3 = (stop4, b4, s4)" by (metis prod.exhaust)
  have "\<not> stop4" using regular_late [of E] q(1) f3(2) f4 unfolding regular_def by (metis fst_conv)
  then show ?thesis using f1(1) f2 2 f3(1) f4 by (simp add: det_stages_def Let_def)
qed

definition quiet_env :: fuzz_env where
  "quiet_env = \<lparr>fz_target = \<lparr>exec = \<lambda>k a. \<lparr>run_result = FSRV_RUN_OK, run_trace = [], run_timed_out = False, run_stop_soon = False\<rparr>,
     hash64 = \<lambda>t. 0\<rparr>, skip_at = \<lambda>k. False, fz_exec_cksum = 0, non_instrumented = True, no_arith = False,
     max_det_extras = 200, draws = \<lambda>i j. 0\<rparr>"

definition fresh_state :: fuzz_state where
  "fresh_state = \<lparr>runs = [], fz_trace = [], subseq_tmouts = 0, cur_skipped_paths = 0, skip_requested = False\<rparr>"

definition fresh_collector :: collector where
  "fresh_collector = \<lparr>a_buf = replicate 32 0, a_len = 0, prev_cksum = 0, dict = no_extras\<lparr>extras := [[1], [2, 3]]\<rparr>\<rparr>"

lemma quiet_run: "\<exists>out s'. det_stages quiet_env [0] [] [7, 9] fresh_collector [7, 9] fresh_state = Some (False, fresh_collector, out, s')"
  by (rule det_stages_quiet) (simp_all add: quiet_def quiet_env_def fresh_state_def)

theorem det_stages_restore_witness:
  "\<exists>s'. det_stages quiet_env [0] [] [7, 9] fresh_collector [7, 9] fresh_state = Some (False, fresh_collector, [7, 9], s')"
proof -
  obtain out s' where r: "det_stages quiet_env [0] [] [7, 9] fresh_collector [7, 9] fresh_state = Some (False, fresh_collector, out, s')"
    using quiet_run by blast
  have "tokens_by_length (dict fresh_collector)" by (simp add: tokens_by_length_def fresh_collector_def no_extras_def)
  from det_stages_restore [OF r this] r show ?thesis by blast
qed

theorem det_stages_arith8_witness:
  "\<exists>out s'. det_stages quiet_env [0] [] [7, 9] fresh_collector [7, 9] fresh_state = Some (False, fresh_collector, out, s') \<and>
     [7, 42] \<in> set (runs s') \<and> [7, 8] \<in> set (runs s')"
proof -
  obtain out s' where r: "det_stages quiet_env [0] [] [7, 9] fresh_collector [7, 9] fresh_state = Some (False, fresh_collector, out, s')"
    using quiet_run by blast
  have h: "\<not> no_arith quiet_env" "length [7, 9 :: u8] < EFF_MIN_LEN" "eff_alen (length [7, 9 :: u8]) \<le> length [0 :: u8]" "1 < length [7, 9 :: u8]"
    by (simp_all add: quiet_env_def EFF_MIN_LEN_def eff_alen_def eff_apos_def EFF_MAP_SCALE2_def)
  have "[7, 9, 0][1 := 42] = [7, 42, 0 :: u8]" by simp
  from det_stages_arith8 [OF r h, of 33 42] det_stages_arith8 [OF r h, of 1 8] r show ?thesis
    by (simp add: ARITH_MAX_def)
qed

end
