(* ===== verification/Colorization.thy ===== *)
theory Colorization
  imports Det_Stages Testcase_Cache
begin

text \<open>
  The colorization stage of Redqueen, \<^verbatim>\<open>src/afl-fuzz-redqueen.c\<close>: replace every byte of the input by
  another of the same type, then find out by bisection which of the replacements leave the path as
  it was. The list of ranges, the choice of the biggest, the replacement, the loop of executions,
  the collection of the accepted ranges into taints and the decision whether they are worth
  anything are the code's; the screen and the timing are not, whether a run was too slow is a
  parameter. Lengths are at most \<^verbatim>\<open>MAX_FILE\<close>.
\<close>

section \<open>Ranges\<close>

text \<open>The linked list is a list with the head first. Removing a node from it is removing an element;
  \<open>r_ok\<close> is 0 for a range not yet tried, 1 for an accepted one, 2 for one already in a taint. Lengths are below
  \<^verbatim>\<open>MAX_FILE\<close>, so that the unsigned arithmetic is exact.\<close>

record range =
  r_start :: nat
  r_end :: nat
  r_ok :: nat

definition add_range :: "range list \<Rightarrow> nat \<Rightarrow> nat \<Rightarrow> range list" where
  "add_range ranges a b = \<lparr>r_start = a, r_end = b, r_ok = 0\<rparr> # ranges"

definition r_size :: "range \<Rightarrow> nat" where
  "r_size r = 1 + r_end r - r_start r"

text \<open>The index of the biggest range that is not decided, the last one among equals.\<close>

fun pop_from :: "range list \<Rightarrow> nat \<Rightarrow> nat \<Rightarrow> nat option \<Rightarrow> nat option" where
  "pop_from [] i max_size rmax = rmax"
| "pop_from (r # rs) i max_size rmax =
    (if r_ok r = 0 \<and> max_size \<le> r_size r then pop_from rs (i + 1) (r_size r) (Some i)
     else pop_from rs (i + 1) max_size rmax)"

definition pop_biggest_range :: "range list \<Rightarrow> nat option" where
  "pop_biggest_range ranges = pop_from ranges 0 0 None"

section \<open>Running an input\<close>

text \<open>\<open>left_trace k t\<close> is what the \<open>k\<close>-th call of \<^verbatim>\<open>common_fuzz_stuff\<close> has made of the trace \<open>t\<close>
  when it returns: \<^verbatim>\<open>save_if_interesting\<close> sorts its counts into buckets and calibrates the input
  when it is new. \<open>too_slow k\<close> is whether the \<open>k\<close>-th execution takes more than three times as long
  as the entry usually does.\<close>

record color_env =
  co_env :: fuzz_env
  left_trace :: "nat \<Rightarrow> u8 list \<Rightarrow> u8 list"
  too_slow :: "nat \<Rightarrow> bool"
  co_fixed_seed :: bool
  cmplog_lvl :: nat
  co_active_paths :: nat

definition get_exec_checksum :: "color_env \<Rightarrow> u8 list \<Rightarrow> fuzz_state \<Rightarrow> u64 option \<times> fuzz_state" where
  "get_exec_checksum E mem s =
    (let k = length (runs s)
     in case common_fuzz_stuff (co_env E) mem s of (stop, s) \<Rightarrow>
          if stop then (None, s)
          else let s = s\<lparr>fz_trace := left_trace E k (fz_trace s)\<rparr>
               in (Some (hash64 (fz_target (co_env E)) (fz_trace s)), s))"

section \<open>Replacing every byte by another one of its type\<close>

text \<open>The \<^verbatim>\<open>switch\<close>: a range to draw from, by its first byte and its size, or a fixed byte.\<close>

definition type_of_byte :: "u8 \<Rightarrow> (u8 \<times> u32) + u8" where
  "type_of_byte b =
    (if between 65 b 70 then Inl (65, 6)
     else if between 97 b 102 then Inl (97, 6)
     else if b = 48 then Inr 49
     else if b = 49 then Inr 48
     else if between 50 b 57 then Inl (50, 8)
     else if between 71 b 90 then Inl (71, 20)
     else if between 103 b 122 then Inl (103, 20)
     else if between 33 b 42 then Inl (33, 10)
     else if between 44 b 46 then Inl (44, 3)
     else if between 58 b 64 then Inl (58, 7)
     else if between 91 b 96 then Inl (91, 6)
     else if between 123 b 126 then Inl (123, 4)
     else if b = 43 then Inr 47
     else if b = 47 then Inr 43
     else if b = 32 then Inr 9
     else if b = 9 then Inr 32
     else if b = 13 then Inr 10
     else if b = 10 then Inr 13
     else if b = 0 then Inr 1
     else if b = 1 then Inr 0
     else if b = 0xff then Inr 0
     else if b < 32 then Inr (b XOR 0x1f)
     else Inr (b XOR 0x7f))"

text \<open>The \<^verbatim>\<open>do ... while\<close> around it. The generator is a parameter.\<close>

partial_function (option) replace_byte :: "('r \<Rightarrow> u32 \<Rightarrow> (u32 \<times> 'r) option) \<Rightarrow> u8 \<Rightarrow> 'r \<Rightarrow> (u8 \<times> 'r) option" where
  "replace_byte below b r =
    (case type_of_byte b of
       Inr c \<Rightarrow> if c = b then replace_byte below b r else Some (c, r)
     | Inl (lo, n) \<Rightarrow> Option.bind (below r n) (\<lambda>(k, r).
         let c = lo + ucast k in if c = b then replace_byte below b r else Some (c, r)))"

fun type_replace :: "('r \<Rightarrow> u32 \<Rightarrow> (u32 \<times> 'r) option) \<Rightarrow> u8 list \<Rightarrow> 'r \<Rightarrow> (u8 list \<times> 'r) option" where
  "type_replace below [] r = Some ([], r)"
| "type_replace below (b # bs) r = Option.bind (replace_byte below b r) (\<lambda>(c, r).
     map_option (\<lambda>(cs, r). (c # cs, r)) (type_replace below bs r))"

section \<open>Trying the ranges\<close>

definition discard :: "color_env \<Rightarrow> u64 \<Rightarrow> u64 \<Rightarrow> nat \<Rightarrow> bool" where
  "discard E exec_cksum cksum k \<longleftrightarrow> cksum \<noteq> exec_cksum \<or> too_slow E k \<and> \<not> co_fixed_seed E"

text \<open>A rejected range is replaced by its halves, unless it is a single byte.\<close>

definition split_range :: "nat \<Rightarrow> range list \<Rightarrow> range list" where
  "split_range i ranges =
    (let r = ranges ! i; s = r_size r; rest = take i ranges @ drop (i + 1) ranges
     in if 1 < s
        then add_range (add_range rest (r_start r) (r_start r + s div 2 - 1)) (r_start r + s div 2) (r_end r)
        else rest)"

text \<open>\<open>n\<close> is what is left of \<^verbatim>\<open>stage_max\<close>; \<open>True\<close> is the jump to \<^verbatim>\<open>checksum_fail\<close>.\<close>

fun color_loop :: "color_env \<Rightarrow> u8 list \<Rightarrow> u8 list \<Rightarrow> u64 \<Rightarrow> nat \<Rightarrow> range list \<Rightarrow> u8 list \<Rightarrow> fuzz_state \<Rightarrow>
    bool \<times> range list \<times> u8 list \<times> fuzz_state" where
  "color_loop E backup changed exec_cksum 0 ranges mem s = (False, ranges, mem, s)"
| "color_loop E backup changed exec_cksum (Suc n) ranges mem s =
    (case pop_biggest_range ranges of
       None \<Rightarrow> (False, ranges, mem, s)
     | Some i \<Rightarrow>
         let r = ranges ! i;
             mem = overwrite (r_start r) (take (r_size r) (drop (r_start r) changed)) mem;
             k = length (runs s)
         in case get_exec_checksum E mem s of
              (None, s) \<Rightarrow> (True, ranges, mem, s)
            | (Some cksum, s) \<Rightarrow>
                if discard E exec_cksum cksum k
                then color_loop E backup changed exec_cksum n (split_range i ranges)
                       (overwrite (r_start r) (take (r_size r) (drop (r_start r) backup)) mem) s
                else color_loop E backup changed exec_cksum n (ranges[i := r\<lparr>r_ok := 1\<rparr>]) mem s)"

section \<open>Collecting the taints\<close>

text \<open>A taint is a position and a length; the newest one comes first. One pass over the list: \<open>True\<close>
  when a range continues the newest taint, otherwise the accepted range with the least start.\<close>

fun scan_ranges :: "(nat \<times> nat) list \<Rightarrow> range list \<Rightarrow> nat \<Rightarrow> nat \<Rightarrow> nat option \<Rightarrow> bool \<times> nat option" where
  "scan_ranges taint [] i pos r = (False, r)"
| "scan_ranges taint (rng # rs) i pos r =
    (if r_ok rng = 1 \<and> r_start rng < pos
     then if taint \<noteq> [] \<and> fst (hd taint) + snd (hd taint) = r_start rng then (True, Some i)
          else scan_ranges taint rs (i + 1) (r_start rng) (Some i)
     else scan_ranges taint rs (i + 1) pos r)"

definition open_ranges :: "range list \<Rightarrow> nat" where
  "open_ranges ranges = length (filter (\<lambda>r. r_ok r = 1) ranges)"

lemma scan_ranges_SomeD:
  "scan_ranges taint rs i pos r = (ext, Some j) \<Longrightarrow> r = Some j \<or> i \<le> j \<and> j < i + length rs \<and> r_ok (rs ! (j - i)) = 1"
proof (induction rs arbitrary: i pos r)
  case (Cons x rs)
  show ?case
  proof (cases "r_ok x = 1 \<and> r_start x < pos")
    case False
    then show ?thesis using Cons.IH [of "i + 1" pos r] Cons.prems by (auto simp: nth_Cons' Suc_le_eq)
  next
    case True
    then show ?thesis using Cons.IH [of "i + 1" "r_start x" "Some i"] Cons.prems
      by (auto simp: nth_Cons' Suc_le_eq split: if_splits)
  qed
qed simp

lemma open_ranges_mark:
  assumes "i < length rs" and "r_ok (rs ! i) = 1"
  shows "open_ranges (rs[i := (rs ! i)\<lparr>r_ok := 2\<rparr>]) < open_ranges rs"
proof -
  have "rs = take i rs @ rs ! i # drop (Suc i) rs" using assms(1) by (rule id_take_nth_drop)
  then have "open_ranges rs = length (filter (\<lambda>r. r_ok r = 1) (take i rs)) + length (filter (\<lambda>r. r_ok r = 1) (rs ! i # drop (Suc i) rs))"
    unfolding open_ranges_def by (metis filter_append length_append)
  then show ?thesis using assms by (simp add: open_ranges_def upd_conv_take_nth_drop)
qed

function collect_taints :: "range list \<Rightarrow> (nat \<times> nat) list \<Rightarrow> nat \<Rightarrow> (nat \<times> nat) list \<times> nat" where
  "collect_taints ranges taint positions =
    (case scan_ranges taint ranges 0 (2 ^ 32 - 1) None of
       (_, None) \<Rightarrow> (taint, positions)
     | (ext, Some i) \<Rightarrow>
         let r = ranges ! i; ranges = ranges[i := r\<lparr>r_ok := 2\<rparr>]
         in collect_taints ranges
              (if ext then (fst (hd taint), snd (hd taint) + r_size r) # tl taint else (r_start r, r_size r) # taint)
              (positions + r_size r))"
  by pat_completeness auto
termination
proof (relation "measure (\<lambda>(ranges, taint, positions). open_ranges ranges)", simp, simp only: prod.case in_measure)
  fix ranges taint ext i
  assume "(ext, Some i) = scan_ranges taint ranges 0 (2 ^ 32 - 1) None"
  then show "open_ranges (ranges[i := (ranges ! i)\<lparr>r_ok := 2\<rparr>]) < open_ranges ranges"
    using scan_ranges_SomeD [of taint ranges 0 "2 ^ 32 - 1" None ext i] open_ranges_mark by simp
qed

declare collect_taints.simps [simp del]

section \<open>colorization\<close>

definition CMPLOG_CORPUS_PERCENT :: nat where "CMPLOG_CORPUS_PERCENT = (5 :: nat)"
definition CMPLOG_POSITIONS_MAX :: nat where "CMPLOG_POSITIONS_MAX = (12 * 1024 :: nat)"

definition unsatisfactory :: "color_env \<Rightarrow> nat \<Rightarrow> nat \<Rightarrow> nat \<Rightarrow> bool" where
  "unsatisfactory E colorize_success ln positions \<longleftrightarrow>
     colorize_success \<noteq> 0 \<and> cmplog_lvl E < 3 \<and> CMPLOG_POSITIONS_MAX < positions \<and> ln div positions = 1 \<and>
     CMPLOG_CORPUS_PERCENT < co_active_paths E div colorize_success"

text \<open>\<open>None\<close>: the draws never yield a new byte. Otherwise whether it was abandoned, the taints, the
  buffer, the states of the fuzzer and of the generator, and \<^verbatim>\<open>colorize_success\<close>.\<close>

definition colorization :: "('r \<Rightarrow> u32 \<Rightarrow> (u32 \<times> 'r) option) \<Rightarrow> color_env \<Rightarrow> nat \<Rightarrow> u8 list \<Rightarrow> fuzz_state \<Rightarrow> 'r \<Rightarrow>
    (bool \<times> (nat \<times> nat) list \<times> u8 list \<times> fuzz_state \<times> 'r \<times> nat) option" where
  "colorization below E colorize_success mem s r =
    (let ln = length mem in
     case get_exec_checksum E mem s of
       (None, s) \<Rightarrow> Some (True, [], mem, s, r, colorize_success)
     | (Some exec_cksum, s) \<Rightarrow> Option.bind (type_replace below mem r) (\<lambda>(changed, r).
         case color_loop E mem changed exec_cksum (2 * ln) (add_range [] 0 (ln - 1)) mem s of
           (True, ranges, out, s) \<Rightarrow> Some (True, [], out, s, r, colorize_success)
         | (False, ranges, out, s) \<Rightarrow>
             (case collect_taints ranges [] 0 of (taint, positions) \<Rightarrow>
               if taint = [] then Some (False, [], out, s, r, colorize_success)
               else if unsatisfactory E colorize_success ln positions then Some (False, [], out, s, r, colorize_success)
               else Some (False, taint, out, s, r, colorize_success + 1))))"

section \<open>The new bytes\<close>

lemma xor_eq_left: "(a :: u8) XOR m = a \<longleftrightarrow> m = 0"
  by (auto simp: bit_eq_iff bit_xor_iff)

lemma if_Inl_InrD: "(if P then Inl x else y) = Inr c \<Longrightarrow> y = Inr c"
  by (cases P) auto

lemma if_Inr_InrD: "(if P then Inr x else y) = Inr c \<Longrightarrow> P \<and> c = x \<or> y = Inr c"
  by (cases P) auto

lemma if_Inl_InlD: "(if P then Inl x else y) = Inl c \<Longrightarrow> c = x \<or> y = Inl c"
  by (cases P) auto

lemma if_Inr_InlD: "(if P then Inr x else y) = Inl c \<Longrightarrow> y = Inl c"
  by (cases P) auto

lemmas if_InrE = if_Inl_InrD [elim_format] disjE [OF if_Inr_InrD]
lemmas if_InlE = if_Inr_InlD [elim_format] disjE [OF if_Inl_InlD]

lemma type_of_byte_fixed: "type_of_byte b = Inr c \<Longrightarrow> c \<noteq> b"
  unfolding type_of_byte_def by (elim if_InrE) (auto simp: xor_eq_left)

lemma type_of_byte_drawn: "type_of_byte b = Inl (lo, n) \<Longrightarrow> 1 < n"
  unfolding type_of_byte_def by (elim if_InlE) simp_all

lemma replace_byte_differs: "replace_byte below b r = Some x \<Longrightarrow> fst x \<noteq> b"
proof (induction rule: replace_byte.raw_induct [rotated 1, consumes 1, case_names step])
  case (step f below b r x)
  show ?case
  proof (cases "type_of_byte b")
    case (Inr c)
    then show ?thesis using step(2) type_of_byte_fixed [OF Inr] by auto
  next
    case (Inl p)
    obtain lo n where p: "p = (lo, n)" by (cases p)
    obtain k r1 where k: "below r n = Some (k, r1)"
      "(if lo + ucast k = b then f below b r1 else Some (lo + ucast k, r1)) = Some x"
      using step(2) Inl p by (auto simp: bind_eq_Some_conv Let_def)
    show ?thesis
    proof (cases "lo + ucast k = b")
      case True
      then have "f below b r1 = Some x" using k(2) by simp
      then show ?thesis by (rule step(1))
    next
      case False
      then show ?thesis using k(2) by auto
    qed
  qed
qed

lemma replace_byte_new: "replace_byte below b r = Some (c, r') \<Longrightarrow> c \<noteq> b"
  using replace_byte_differs [of below b r "(c, r')"] by simp

lemma type_replace_new:
  "type_replace below bs r = Some (cs, r') \<Longrightarrow> length cs = length bs \<and> (\<forall>i < length bs. cs ! i \<noteq> bs ! i)"
proof (induction bs arbitrary: cs r)
  case (Cons b bs)
  obtain c r1 where c: "replace_byte below b r = Some (c, r1)" using Cons.prems by (auto simp: bind_eq_Some_conv)
  then obtain ds where ds: "type_replace below bs r1 = Some (ds, r')" "cs = c # ds"
    using Cons.prems by (auto simp: bind_eq_Some_conv)
  then show ?case using Cons.IH [OF ds(1)] replace_byte_new [OF c] by (auto simp: less_Suc_eq_0_disj)
qed simp

lemma drawn_returns:
  assumes "type_of_byte b = Inl (lo, n)" and "lo + ucast i \<noteq> b"
  shows "drawn below n i r \<Longrightarrow> \<exists>x. replace_byte below b r = Some x"
proof (induction rule: drawn.induct)
  case (now r r')
  then show ?case using assms by (subst replace_byte.simps) (simp add: Let_def)
next
  case (later r j r')
  then show ?case using assms by (subst replace_byte.simps) (simp add: Let_def)
qed

lemma replace_byte_returns:
  assumes "fair below"
  shows "\<exists>x. replace_byte below b r = Some x"
proof (cases "type_of_byte b")
  case (Inr c)
  then show ?thesis using type_of_byte_fixed [OF Inr] by (subst replace_byte.simps) simp
next
  case (Inl p)
  obtain lo n where p: "p = (lo, n)" by (cases p)
  have n: "1 < n" using type_of_byte_drawn Inl p by simp
  then have "0 < n" by (metis less_trans zero_less_one word_gt_0 not_less_iff_gr_or_eq)
  define i :: u32 where "i = (if lo = b then 1 else 0)"
  have "lo + ucast i \<noteq> b" "i < n" using n \<open>0 < n\<close> by (auto simp: i_def)
  moreover have "drawn below n i r" using assms \<open>i < n\<close> by (simp add: fair_def)
  moreover have "type_of_byte b = Inl (lo, n)" using Inl p by simp
  ultimately show ?thesis by (intro drawn_returns [where lo = lo and n = n and i = i])
qed

lemma type_replace_returns:
  assumes "fair below"
  shows "\<exists>x. type_replace below bs r = Some x"
proof (induction bs arbitrary: r)
  case (Cons b bs)
  obtain c r1 where "replace_byte below b r = Some (c, r1)" using replace_byte_returns [OF assms, of b r] by auto
  moreover obtain cs r2 where "type_replace below bs r1 = Some (cs, r2)" using Cons [of r1] by auto
  ultimately show ?case by simp
qed simp

section \<open>The ranges\<close>

definition span :: "range \<Rightarrow> nat set" where
  "span r = {r_start r..r_end r}"

definition spans_ok :: "nat \<Rightarrow> range list \<Rightarrow> bool" where
  "spans_ok ln rs \<longleftrightarrow> (\<forall>r \<in> set rs. r_start r \<le> r_end r \<and> r_end r < ln) \<and>
     sorted_wrt (\<lambda>r r'. span r \<inter> span r' = {}) rs"

definition accepted :: "range list \<Rightarrow> nat set" where
  "accepted rs = (\<Union>r \<in> {r \<in> set rs. r_ok r = 1}. span r)"

lemma pop_from_Some: "pop_from rs i m (Some j) \<noteq> None"
  by (induction rs arbitrary: i m j) auto

lemma pop_from_SomeD:
  "pop_from rs i m r = Some j \<Longrightarrow> r = Some j \<or> i \<le> j \<and> j < i + length rs \<and> r_ok (rs ! (j - i)) = 0"
proof (induction rs arbitrary: i m r)
  case (Cons x rs)
  then show ?case by (fastforce simp: nth_Cons' Suc_le_eq split: if_splits)
qed simp

lemma pop_SomeD: "pop_biggest_range rs = Some i \<Longrightarrow> i < length rs \<and> r_ok (rs ! i) = 0"
  using pop_from_SomeD [of rs 0 0 None i] by (simp add: pop_biggest_range_def)

lemma pop_NoneD: "pop_biggest_range rs = None \<Longrightarrow> r \<in> set rs \<Longrightarrow> r_ok r \<noteq> 0"
proof -
  have "pop_from rs i 0 None = None \<Longrightarrow> r \<in> set rs \<Longrightarrow> r_ok r \<noteq> 0" for i
    by (induction rs arbitrary: i) (auto simp: pop_from_Some split: if_splits)
  then show "pop_biggest_range rs = None \<Longrightarrow> r \<in> set rs \<Longrightarrow> r_ok r \<noteq> 0" by (simp add: pop_biggest_range_def)
qed

text \<open>A range in its place, and the two ways to replace it.\<close>

lemma spans_ok_mid:
  "spans_ok ln (xs @ r # ys) \<longleftrightarrow> spans_ok ln (xs @ ys) \<and> r_start r \<le> r_end r \<and> r_end r < ln \<and>
     (\<forall>x \<in> set (xs @ ys). span x \<inter> span r = {})"
  by (simp add: spans_ok_def sorted_wrt_append) blast

lemma spans_ok_Cons:
  "spans_ok ln (r # ys) \<longleftrightarrow> spans_ok ln ys \<and> r_start r \<le> r_end r \<and> r_end r < ln \<and> (\<forall>x \<in> set ys. span x \<inter> span r = {})"
  using spans_ok_mid [of ln "[]" r ys] by simp

lemma nth_split: "i < length rs \<Longrightarrow> rs = take i rs @ rs ! i # drop (i + 1) rs"
  by (simp add: id_take_nth_drop)

lemma split_spans:
  assumes "spans_ok ln rs" and "i < length rs"
  shows "spans_ok ln (split_range i rs)"
    and "r_ok (rs ! i) = 0 \<Longrightarrow> accepted (split_range i rs) = accepted rs"
    and "j \<in> (\<Union>r \<in> set rs. span r) \<Longrightarrow> j \<notin> (\<Union>r \<in> set (split_range i rs). span r) \<Longrightarrow> rs ! i = r \<Longrightarrow> span r = {j}"
proof -
  define xs ys r where "xs = take i rs" and "ys = drop (i + 1) rs" and "r = rs ! i"
  have rs: "rs = xs @ r # ys" unfolding xs_def ys_def r_def by (rule nth_split [OF assms(2)])
  define a b where "a = \<lparr>r_start = r_start r, r_end = r_start r + r_size r div 2 - 1, r_ok = 0\<rparr>"
    and "b = \<lparr>r_start = r_start r + r_size r div 2, r_end = r_end r, r_ok = 0\<rparr>"
  have split: "split_range i rs = (if 1 < r_size r then b # a # xs @ ys else xs @ ys)"
    by (simp add: split_range_def Let_def add_range_def xs_def ys_def r_def a_def b_def)
  have sets: "set rs = insert r (set xs \<union> set ys)" by (simp add: rs)
  have ok: "spans_ok ln (xs @ ys)" "r_start r \<le> r_end r" "r_end r < ln" "\<forall>x \<in> set (xs @ ys). span x \<inter> span r = {}"
    using assms(1) spans_ok_mid [of ln xs r ys] rs by auto
  have h: "1 < r_size r \<Longrightarrow> span a \<union> span b = span r" "1 < r_size r \<Longrightarrow> span a \<inter> span b = {}"
    "1 < r_size r \<Longrightarrow> r_start a \<le> r_end a \<and> r_end a < ln \<and> r_start b \<le> r_end b \<and> r_end b < ln"
    using ok(2,3) by (auto simp: span_def a_def b_def r_size_def)
  have sub: "\<forall>x \<in> set (xs @ ys). span x \<inter> span a = {} \<and> span x \<inter> span b = {}" if "1 < r_size r"
    using h(1) [OF that] ok(4) by blast
  show "spans_ok ln (split_range i rs)"
    using ok(1) h(2,3) sub unfolding split by (auto simp: spans_ok_Cons)
  show "accepted (split_range i rs) = accepted rs" if "r_ok (rs ! i) = 0"
  proof -
    have "{x \<in> set (split_range i rs). r_ok x = 1} = {x \<in> set rs. r_ok x = 1}"
    proof -
      have "r_ok r = 0" using that by (simp add: r_def)
      then show ?thesis unfolding split sets by (auto simp: a_def b_def)
    qed
    then show ?thesis by (simp add: accepted_def)
  qed
  show "span r' = {j}" if "j \<in> (\<Union>r \<in> set rs. span r)" "j \<notin> (\<Union>r \<in> set (split_range i rs). span r)" "rs ! i = r'" for r'
  proof -
    have "\<not> 1 < r_size r" using that(1,2) h(1) unfolding split sets by (auto split: if_splits)
    then have "r_end r = r_start r" using ok(2) by (simp add: r_size_def)
    moreover have "j \<in> span r" using that(1,2) \<open>\<not> 1 < r_size r\<close> unfolding split sets by auto
    ultimately show ?thesis using that(3) by (auto simp: span_def r_def)
  qed
qed

lemma accept_spans:
  assumes "spans_ok ln rs" and "i < length rs" and "r_ok (rs ! i) = 0"
  shows "spans_ok ln (rs[i := (rs ! i)\<lparr>r_ok := 1\<rparr>])"
    and "accepted (rs[i := (rs ! i)\<lparr>r_ok := 1\<rparr>]) = accepted rs \<union> span (rs ! i)"
    and "(\<Union>r \<in> set (rs[i := (rs ! i)\<lparr>r_ok := 1\<rparr>]). span r) = (\<Union>r \<in> set rs. span r)"
proof -
  define xs ys r where "xs = take i rs" and "ys = drop (i + 1) rs" and "r = rs ! i"
  have rs: "rs = xs @ r # ys" unfolding xs_def ys_def r_def by (rule nth_split [OF assms(2)])
  have upd: "rs[i := (rs ! i)\<lparr>r_ok := 1\<rparr>] = xs @ r\<lparr>r_ok := 1\<rparr> # ys"
    using assms(2) by (simp add: upd_conv_take_nth_drop xs_def ys_def r_def)
  have sp: "span (r\<lparr>r_ok := k\<rparr>) = span r" for k by (simp add: span_def)
  have sets: "set rs = insert r (set xs \<union> set ys)" "set (xs @ r\<lparr>r_ok := 1\<rparr> # ys) = insert (r\<lparr>r_ok := 1\<rparr>) (set xs \<union> set ys)"
    by (simp_all add: rs)
  have r: "rs ! i = r" by (simp add: r_def)
  have "spans_ok ln (xs @ r # ys)" using assms(1) rs by simp
  then show "spans_ok ln (rs[i := (rs ! i)\<lparr>r_ok := 1\<rparr>])" unfolding upd spans_ok_mid sp by simp
  show "accepted (rs[i := (rs ! i)\<lparr>r_ok := 1\<rparr>]) = accepted rs \<union> span (rs ! i)"
    using assms(3) unfolding upd unfolding r accepted_def sets by (auto simp: sp)
  show "(\<Union>r \<in> set (rs[i := (rs ! i)\<lparr>r_ok := 1\<rparr>]). span r) = (\<Union>r \<in> set rs. span r)"
    unfolding upd sets by (auto simp: sp)
qed

text \<open>How many executions the open ranges can still take.\<close>

definition potential :: "range list \<Rightarrow> nat" where
  "potential rs = sum_list (map (\<lambda>r. if r_ok r = 0 then 2 * r_size r - 1 else 0) rs)"

lemma potential_split:
  assumes "i < length rs" and "r_ok (rs ! i) = 0" and "r_start (rs ! i) \<le> r_end (rs ! i)"
  shows "potential (split_range i rs) < potential rs" and "potential (rs[i := (rs ! i)\<lparr>r_ok := 1\<rparr>]) < potential rs"
proof -
  define xs ys r where "xs = take i rs" and "ys = drop (i + 1) rs" and "r = rs ! i"
  have rs: "rs = xs @ r # ys" unfolding xs_def ys_def r_def by (rule nth_split [OF assms(1)])
  have upd: "rs[i := (rs ! i)\<lparr>r_ok := 1\<rparr>] = xs @ r\<lparr>r_ok := 1\<rparr> # ys"
    using assms(1) by (simp add: upd_conv_take_nth_drop xs_def ys_def r_def)
  have p: "potential rs = potential (xs @ ys) + (2 * r_size r - 1)"
    using assms(2) unfolding r_def [symmetric] by (simp add: rs potential_def)
  have s: "0 < r_size r" using assms(3) by (simp add: r_size_def r_def)
  show "potential (rs[i := (rs ! i)\<lparr>r_ok := 1\<rparr>]) < potential rs"
    unfolding p upd using s by (simp add: potential_def)
  have split: "split_range i rs = (if 1 < r_size r then
      \<lparr>r_start = r_start r + r_size r div 2, r_end = r_end r, r_ok = 0\<rparr> #
      \<lparr>r_start = r_start r, r_end = r_start r + r_size r div 2 - 1, r_ok = 0\<rparr> # xs @ ys else xs @ ys)"
    by (simp add: split_range_def Let_def add_range_def xs_def ys_def r_def)
  show "potential (split_range i rs) < potential rs"
  proof (cases "1 < r_size r")
    case True
    define h where "h = r_size r div 2"
    have h: "0 < h" "h < r_size r" using True by (simp_all add: h_def)
    have z: "r_size \<lparr>r_start = r_start r + h, r_end = r_end r, r_ok = 0\<rparr> = r_size r - h"
      "r_size \<lparr>r_start = r_start r, r_end = r_start r + h - 1, r_ok = 0\<rparr> = h"
      using h assms(3) by (simp_all add: r_size_def r_def)
    have "potential (split_range i rs) = 2 * (r_size r - h) - 1 + (2 * h - 1) + potential (xs @ ys)"
      using True z unfolding split h_def [symmetric] by (simp add: potential_def del: One_nat_def)
    then show ?thesis unfolding p using h by simp
  next
    case False
    then show ?thesis unfolding p split using s by simp
  qed
qed

section \<open>What the loop leaves\<close>

definition seen_cksum :: "color_env \<Rightarrow> nat \<Rightarrow> u8 list \<Rightarrow> u64" where
  "seen_cksum E k d = hash64 (fz_target (co_env E)) (left_trace E k (run_trace (exec (fz_target (co_env E)) k d)))"

text \<open>The \<open>k\<close>-th run, of the input \<open>e\<close>, shows that the byte \<open>i\<close> matters: apart from it, \<open>e\<close> differs
  from the original in accepted bytes only, and its run was discarded.\<close>

definition refutes :: "color_env \<Rightarrow> u8 list \<Rightarrow> u8 list \<Rightarrow> u64 \<Rightarrow> nat set \<Rightarrow> nat \<Rightarrow> nat \<Rightarrow> u8 list \<Rightarrow> bool" where
  "refutes E bk ch c A i k e \<longleftrightarrow> length e = length bk \<and> e ! i = ch ! i \<and>
     (\<forall>j < length bk. j \<noteq> i \<longrightarrow> e ! j = bk ! j \<or> j \<in> A \<and> e ! j = ch ! j) \<and> discard E c (seen_cksum E k e) k"

definition colored :: "u8 list \<Rightarrow> u8 list \<Rightarrow> nat set \<Rightarrow> u8 list \<Rightarrow> bool" where
  "colored bk ch A mem \<longleftrightarrow> length mem = length bk \<and> (\<forall>i < length bk. mem ! i = (if i \<in> A then ch ! i else bk ! i))"

text \<open>The buffer is the input of a run that was not discarded, once a range is accepted.\<close>

definition confirmed :: "color_env \<Rightarrow> u64 \<Rightarrow> u8 list list \<Rightarrow> nat set \<Rightarrow> u8 list \<Rightarrow> bool" where
  "confirmed E c inputs A mem \<longleftrightarrow>
     A = {} \<or> (\<exists>k < length inputs. inputs ! k = mem \<and> \<not> discard E c (seen_cksum E k mem) k)"

definition color_inv :: "color_env \<Rightarrow> u8 list \<Rightarrow> u8 list \<Rightarrow> u64 \<Rightarrow> range list \<Rightarrow> u8 list \<Rightarrow> u8 list list \<Rightarrow> bool" where
  "color_inv E bk ch c rs mem inputs \<longleftrightarrow> spans_ok (length bk) rs \<and> (\<forall>r \<in> set rs. r_ok r \<le> 1) \<and> length ch = length bk \<and>
     colored bk ch (accepted rs) mem \<and> confirmed E c inputs (accepted rs) mem \<and>
     (\<forall>i < length bk. i \<in> (\<Union>r \<in> set rs. span r) \<or> (\<exists>k < length inputs. refutes E bk ch c (accepted rs) i k (inputs ! k)))"

lemma get_exec_checksum_Some:
  assumes "get_exec_checksum E mem s = (Some c, s')"
  shows "runs s' = runs s @ [mem]" "c = seen_cksum E (length (runs s)) mem"
  using assms by (auto simp: get_exec_checksum_def seen_cksum_def common_fuzz_stuff_def Let_def split: prod.splits if_splits)

lemma nth_snoc_old: "k < length xs \<Longrightarrow> (xs @ [x]) ! k = xs ! k"
  by (simp add: nth_append)

lemma nth_overwrite:
  "a + length bs \<le> length d \<Longrightarrow> i < length d \<Longrightarrow> overwrite a bs d ! i = (if a \<le> i \<and> i < a + length bs then bs ! (i - a) else d ! i)"
  by (auto simp: overwrite_def nth_append min_def)

lemma copy_span:
  assumes "r_start r \<le> r_end r" and "r_end r < length d" and "length ch = length d"
  shows "length (overwrite (r_start r) (take (r_size r) (drop (r_start r) ch)) d) = length d"
    and "i < length d \<Longrightarrow> overwrite (r_start r) (take (r_size r) (drop (r_start r) ch)) d ! i = (if i \<in> span r then ch ! i else d ! i)"
proof -
  have l: "length (take (r_size r) (drop (r_start r) ch)) = r_size r" "r_start r + r_size r \<le> length d"
    using assms by (simp_all add: r_size_def)
  show "length (overwrite (r_start r) (take (r_size r) (drop (r_start r) ch)) d) = length d"
    using l by (simp add: length_overwrite)
  show "overwrite (r_start r) (take (r_size r) (drop (r_start r) ch)) d ! i = (if i \<in> span r then ch ! i else d ! i)"
    if "i < length d"
    using that nth_overwrite [of "r_start r" "take (r_size r) (drop (r_start r) ch)" d i] l assms
    by (auto simp: span_def r_size_def)
qed

lemma color_step:
  assumes inv: "color_inv E bk ch c rs mem inputs" and i: "i < length rs" "r_ok (rs ! i) = 0"
    and e: "e = overwrite (r_start (rs ! i)) (take (r_size (rs ! i)) (drop (r_start (rs ! i)) ch)) mem"
  shows "\<not> discard E c (seen_cksum E (length inputs) e) (length inputs) \<Longrightarrow> color_inv E bk ch c (rs[i := (rs ! i)\<lparr>r_ok := 1\<rparr>]) e (inputs @ [e])"
    and "discard E c (seen_cksum E (length inputs) e) (length inputs) \<Longrightarrow> color_inv E bk ch c (split_range i rs)
      (overwrite (r_start (rs ! i)) (take (r_size (rs ! i)) (drop (r_start (rs ! i)) bk)) e) (inputs @ [e])"
proof -
  define r where "r = rs ! i"
  have ok: "spans_ok (length bk) rs" "\<forall>r \<in> set rs. r_ok r \<le> 1" "length ch = length bk" "colored bk ch (accepted rs) mem"
    "confirmed E c inputs (accepted rs) mem"
    "\<And>j. j < length bk \<Longrightarrow> j \<in> (\<Union>r \<in> set rs. span r) \<or> (\<exists>k < length inputs. refutes E bk ch c (accepted rs) j k (inputs ! k))"
    using inv by (simp_all add: color_inv_def)
  have mem: "r \<in> set rs" using i by (simp add: r_def)
  have r: "r_start r \<le> r_end r" "r_end r < length bk" using ok(1) mem by (auto simp: spans_ok_def)
  have lm: "length mem = length bk" using ok(4) by (simp add: colored_def)
  note ce = copy_span [OF r(1) _, of mem ch, unfolded lm, OF r(2) ok(3), folded e [folded r_def]]
  have ebytes: "colored bk ch (accepted rs \<union> span r) e"
    using ce ok(4) by (auto simp: colored_def)
  have outside: "j \<notin> accepted rs" if "j \<in> span r" for j
  proof
    assume "j \<in> accepted rs"
    then obtain r' where r': "r' \<in> set rs" "r_ok r' = 1" "j \<in> span r'" by (auto simp: accepted_def)
    then obtain k where k: "k < length rs" "rs ! k = r'" by (auto simp: in_set_conv_nth)
    then have "k \<noteq> i" using r'(2) i by auto
    then have "span (rs ! k) \<inter> span (rs ! i) = {}"
      using ok(1) k(1) i(1) unfolding spans_ok_def sorted_wrt_iff_nth_less by (metis Int_commute nat_neq_iff)
    then show False using r'(3) k(2) that by (auto simp: r_def)
  qed
  show "color_inv E bk ch c (rs[i := (rs ! i)\<lparr>r_ok := 1\<rparr>]) e (inputs @ [e])" if c: "\<not> discard E c (seen_cksum E (length inputs) e) (length inputs)"
  proof -
    note a = accept_spans [OF ok(1) i]
    have mono: "refutes E bk ch c (accepted rs) j k x \<Longrightarrow> refutes E bk ch c (accepted rs \<union> span r) j k x" for j k x
      by (auto simp: refutes_def)
    have "j \<in> (\<Union>r \<in> set rs. span r) \<or>
        (\<exists>k < length (inputs @ [e]). refutes E bk ch c (accepted rs \<union> span r) j k ((inputs @ [e]) ! k))"
      if "j < length bk" for j
      using ok(6) [OF that] mono by (metis nth_snoc_old length_append_singleton less_Suc_eq)
    moreover have "confirmed E c (inputs @ [e]) (accepted rs \<union> span r) e"
      unfolding confirmed_def using c by (intro disjI2 exI [of _ "length inputs"]) simp
    moreover have "\<forall>x \<in> set (rs[i := (rs ! i)\<lparr>r_ok := 1\<rparr>]). r_ok x \<le> 1"
      using ok(2) set_update_subset_insert [of rs i "(rs ! i)\<lparr>r_ok := 1\<rparr>"] by auto
    ultimately show ?thesis unfolding color_inv_def a(2,3) using a(1) ok(3) ebytes c by (simp add: r_def [symmetric])
  qed
  show "color_inv E bk ch c (split_range i rs)
      (overwrite (r_start (rs ! i)) (take (r_size (rs ! i)) (drop (r_start (rs ! i)) bk)) e) (inputs @ [e])"
    if c: "discard E c (seen_cksum E (length inputs) e) (length inputs)"
  proof -
    define d where "d = overwrite (r_start r) (take (r_size r) (drop (r_start r) bk)) e"
    have le: "length e = length bk" using ebytes by (simp add: colored_def)
    note cd = copy_span [OF r(1) _, of e bk, unfolded le, OF r(2) refl, folded d_def]
    have "d = mem"
    proof (rule nth_equalityI)
      show "length d = length mem" using cd(1) lm by simp
      fix j assume "j < length d"
      then have j: "j < length bk" using cd(1) by simp
      show "d ! j = mem ! j" using cd(2) [OF j] ce(2) [OF j] ok(4) j outside by (auto simp: colored_def)
    qed
    note s = split_spans [OF ok(1) i(1)]
    have acc: "accepted (split_range i rs) = accepted rs" by (rule s(2) [OF i(2)])
    have "j \<in> (\<Union>r \<in> set (split_range i rs). span r) \<or>
        (\<exists>k < length (inputs @ [e]). refutes E bk ch c (accepted rs) j k ((inputs @ [e]) ! k))"
      if j: "j < length bk" for j
    proof (cases "j \<in> (\<Union>r \<in> set rs. span r) \<and> j \<notin> (\<Union>r \<in> set (split_range i rs). span r)")
      case False
      then show ?thesis using ok(6) [OF j] by (metis nth_snoc_old length_append_singleton less_Suc_eq)
    next
      case True
      then have sp: "span r = {j}" using s(3) [of j r] by (simp add: r_def)
      then have "e ! j = ch ! j" "\<forall>k < length bk. k \<noteq> j \<longrightarrow> e ! k = bk ! k \<or> k \<in> accepted rs \<and> e ! k = ch ! k"
        using ebytes j by (auto simp: colored_def)
      then have "refutes E bk ch c (accepted rs) j (length inputs) e" using le c by (simp add: refutes_def)
      then show ?thesis by (intro disjI2 exI [of _ "length inputs"]) simp
    qed
    moreover have "\<forall>x \<in> set (split_range i rs). r_ok x \<le> 1"
      using ok(2) by (auto simp: split_range_def Let_def add_range_def dest: in_set_takeD in_set_dropD)
    moreover have "(overwrite (r_start (rs ! i)) (take (r_size (rs ! i)) (drop (r_start (rs ! i)) bk)) e) = mem"
      using \<open>d = mem\<close> by (simp add: d_def r_def)
    moreover have "confirmed E c (inputs @ [e]) (accepted rs) mem"
      using ok(5) unfolding confirmed_def by (metis nth_snoc_old length_append_singleton less_Suc_eq)
    ultimately show ?thesis unfolding color_inv_def acc using s(1) ok(3,4) by simp
  qed
qed

lemma potential_member: "r \<in> set rs \<Longrightarrow> (if r_ok r = 0 then 2 * r_size r - 1 else 0) \<le> potential rs"
proof (induction rs)
  case (Cons x rs)
  then show ?case by (cases "r = x") (simp_all add: potential_def)
qed simp

lemma color_loop_inv:
  assumes "color_loop E bk ch c n rs mem s = (False, rs', mem', s')"
    and "color_inv E bk ch c rs mem (runs s)" and "potential rs \<le> n"
  shows "color_inv E bk ch c rs' mem' (runs s') \<and> (\<forall>r \<in> set rs'. r_ok r = 1)"
  using assms
proof (induction n arbitrary: rs mem s)
  case 0
  have "r_ok r = 1" if "r \<in> set rs" for r
  proof (rule ccontr)
    assume "r_ok r \<noteq> 1"
    then have "r_ok r = 0" "0 < r_size r" using 0 that by (auto simp: color_inv_def r_size_def spans_ok_def le_Suc_eq)
    then have "0 < (if r_ok r = 0 then 2 * r_size r - 1 else 0)" by simp
    moreover have "(if r_ok r = 0 then 2 * r_size r - 1 else 0) \<le> potential rs" by (rule potential_member [OF that])
    ultimately show False using 0 by simp
  qed
  then show ?case using 0 by auto
next
  case (Suc n)
  show ?case
  proof (cases "pop_biggest_range rs")
    case None
    have "r_ok r = 1" if "r \<in> set rs" for r
      using pop_NoneD [OF None that] Suc.prems(2) that by (auto simp: color_inv_def le_Suc_eq)
    then show ?thesis using Suc.prems None by auto
  next
    case (Some i)
    note i = pop_SomeD [OF Some]
    define e where "e = overwrite (r_start (rs ! i)) (take (r_size (rs ! i)) (drop (r_start (rs ! i)) ch)) mem"
    have unf: "color_loop E bk ch c (Suc n) rs mem s =
        (case get_exec_checksum E e s of
              (None, s) \<Rightarrow> (True, rs, e, s)
            | (Some cksum, s') \<Rightarrow>
                if discard E c cksum (length (runs s))
                then color_loop E bk ch c n (split_range i rs)
                       (overwrite (r_start (rs ! i)) (take (r_size (rs ! i)) (drop (r_start (rs ! i)) bk)) e) s'
                else color_loop E bk ch c n (rs[i := (rs ! i)\<lparr>r_ok := 1\<rparr>]) e s')"
      unfolding color_loop.simps Some option.case Let_def e_def by (rule refl)
    obtain x s1 where g: "get_exec_checksum E e s = (Some x, s1)"
      using Suc.prems(1) unfolding unf by (auto split: prod.splits option.splits)
    note pr = Suc.prems(1) [unfolded unf g prod.case option.case]
    note g1 = get_exec_checksum_Some [OF g]
    have se: "r_start (rs ! i) \<le> r_end (rs ! i)" using Suc.prems(2) i by (auto simp: color_inv_def spans_ok_def)
    note p = potential_split [OF conjunct1 [OF i] conjunct2 [OF i] se]
    note step = color_step [OF Suc.prems(2) conjunct1 [OF i] conjunct2 [OF i] e_def]
    show ?thesis
    proof (cases "discard E c x (length (runs s))")
      case False
      show ?thesis
        by (rule Suc.IH [of "rs[i := (rs ! i)\<lparr>r_ok := 1\<rparr>]" e s1])
          (use pr Suc.prems(3) False p step(1) g1 in simp_all)
    next
      case True
      show ?thesis
        by (rule Suc.IH [of "split_range i rs" "overwrite (r_start (rs ! i)) (take (r_size (rs ! i)) (drop (r_start (rs ! i)) bk)) e" s1])
          (use pr Suc.prems(3) True p step(2) g1 in simp_all)
    qed
  qed
qed

section \<open>What the taints cover\<close>

definition tainted :: "(nat \<times> nat) list \<Rightarrow> nat set" where
  "tainted taint = (\<Union>(p, l) \<in> set taint. {p..<p + l})"

text \<open>The newest taint lies highest, and two taints never touch.\<close>

definition taints_ok :: "(nat \<times> nat) list \<Rightarrow> bool" where
  "taints_ok taint \<longleftrightarrow> sorted_wrt (\<lambda>(p, l) (p', l'). p' + l' < p) taint \<and> (\<forall>(p, l) \<in> set taint. 0 < l)"

lemma scan_extend:
  "scan_ranges taint rs i pos r = (True, res) \<Longrightarrow>
    \<exists>j. res = Some j \<and> i \<le> j \<and> j < i + length rs \<and> r_ok (rs ! (j - i)) = 1 \<and> taint \<noteq> [] \<and>
      r_start (rs ! (j - i)) = fst (hd taint) + snd (hd taint)"
proof (induction rs arbitrary: i pos r)
  case (Cons x rs)
  show ?case
  proof (cases "r_ok x = 1 \<and> r_start x < pos \<and> taint \<noteq> [] \<and> fst (hd taint) + snd (hd taint) = r_start x")
    case True
    then show ?thesis using Cons.prems by auto
  next
    case False
    then obtain pos' r' where "scan_ranges taint rs (i + 1) pos' r' = (True, res)"
      using Cons.prems by (auto split: if_splits)
    from Cons.IH [OF this] obtain j where "res = Some j" "i + 1 \<le> j" "j < i + 1 + length rs"
      "r_ok (rs ! (j - (i + 1))) = 1" "taint \<noteq> []" "r_start (rs ! (j - (i + 1))) = fst (hd taint) + snd (hd taint)" by auto
    moreover from this have "(x # rs) ! (j - i) = rs ! (j - (i + 1))" by (simp add: nth_Cons')
    ultimately show ?thesis by auto
  qed
qed simp

lemma scan_least:
  "scan_ranges taint rs i pos r = (False, res) \<Longrightarrow>
    \<exists>pos' \<le> pos. (\<forall>x \<in> set rs. r_ok x = 1 \<longrightarrow> pos' \<le> r_start x) \<and>
      (res = r \<and> pos' = pos \<or>
       (\<exists>j. res = Some j \<and> i \<le> j \<and> j < i + length rs \<and> r_ok (rs ! (j - i)) = 1 \<and> r_start (rs ! (j - i)) = pos' \<and>
         (taint \<noteq> [] \<longrightarrow> fst (hd taint) + snd (hd taint) \<noteq> pos')))"
proof (induction rs arbitrary: i pos r)
  case (Cons x rs)
  show ?case
  proof (cases "r_ok x = 1 \<and> r_start x < pos")
    case False
    then have "scan_ranges taint rs (i + 1) pos r = (False, res)" using Cons.prems by (simp del: One_nat_def split: if_splits)
    from Cons.IH [OF this] obtain pos' where p: "pos' \<le> pos" "\<forall>x \<in> set rs. r_ok x = 1 \<longrightarrow> pos' \<le> r_start x"
      "res = r \<and> pos' = pos \<or>
       (\<exists>j. res = Some j \<and> i + 1 \<le> j \<and> j < i + 1 + length rs \<and> r_ok (rs ! (j - (i + 1))) = 1 \<and>
         r_start (rs ! (j - (i + 1))) = pos' \<and> (taint \<noteq> [] \<longrightarrow> fst (hd taint) + snd (hd taint) \<noteq> pos'))" by blast
    have n: "i + 1 \<le> j \<Longrightarrow> (x # rs) ! (j - i) = rs ! (j - (i + 1))" for j by (simp add: nth_Cons')
    show ?thesis
      using False p n by (intro exI [of _ pos']) (auto simp del: One_nat_def)
  next
    case True
    then have t: "scan_ranges taint rs (i + 1) (r_start x) (Some i) = (False, res)"
      "taint \<noteq> [] \<longrightarrow> fst (hd taint) + snd (hd taint) \<noteq> r_start x" using Cons.prems by (auto split: if_splits)
    from Cons.IH [OF t(1)] obtain pos' where p: "pos' \<le> r_start x" "\<forall>x \<in> set rs. r_ok x = 1 \<longrightarrow> pos' \<le> r_start x"
      "res = Some i \<and> pos' = r_start x \<or>
       (\<exists>j. res = Some j \<and> i + 1 \<le> j \<and> j < i + 1 + length rs \<and> r_ok (rs ! (j - (i + 1))) = 1 \<and>
         r_start (rs ! (j - (i + 1))) = pos' \<and> (taint \<noteq> [] \<longrightarrow> fst (hd taint) + snd (hd taint) \<noteq> pos'))" by blast
    have n: "i + 1 \<le> j \<Longrightarrow> (x # rs) ! (j - i) = rs ! (j - (i + 1))" for j by (simp add: nth_Cons')
    show ?thesis
      using True t(2) p n by (intro exI [of _ pos']) (auto simp del: One_nat_def)
  qed
qed auto

text \<open>Whatever it takes, it takes the lowest accepted range.\<close>

definition collect_inv :: "nat \<Rightarrow> nat set \<Rightarrow> range list \<Rightarrow> (nat \<times> nat) list \<Rightarrow> nat \<Rightarrow> bool" where
  "collect_inv ln A rs taint positions \<longleftrightarrow> spans_ok ln rs \<and> taints_ok taint \<and> tainted taint \<union> accepted rs = A \<and>
     positions = sum_list (map snd taint) \<and>
     (taint \<noteq> [] \<longrightarrow> (\<forall>r \<in> set rs. r_ok r = 1 \<longrightarrow> fst (hd taint) + snd (hd taint) \<le> r_start r))"

lemma scan_lowest:
  assumes inv: "collect_inv ln A rs taint positions" and "ln \<le> MAX_FILE"
    and scan: "scan_ranges taint rs 0 (2 ^ 32 - 1) None = (ext, Some i)"
  shows "i < length rs" and "r_ok (rs ! i) = 1" and "x \<in> set rs \<Longrightarrow> r_ok x = 1 \<Longrightarrow> r_start (rs ! i) \<le> r_start x"
    and "ext \<Longrightarrow> taint \<noteq> [] \<and> r_start (rs ! i) = fst (hd taint) + snd (hd taint)"
    and "\<not> ext \<Longrightarrow> taint \<noteq> [] \<Longrightarrow> fst (hd taint) + snd (hd taint) < r_start (rs ! i)"
proof -
  show i: "i < length rs" "r_ok (rs ! i) = 1" using scan_ranges_SomeD [OF scan] by auto
  show e: "taint \<noteq> [] \<and> r_start (rs ! i) = fst (hd taint) + snd (hd taint)" if ext
    using scan_extend [of taint rs 0 "2 ^ 32 - 1" None "Some i"] scan that by auto
  have l: "(\<forall>x \<in> set rs. r_ok x = 1 \<longrightarrow> r_start (rs ! i) \<le> r_start x) \<and>
      (taint \<noteq> [] \<longrightarrow> fst (hd taint) + snd (hd taint) \<noteq> r_start (rs ! i))" if "\<not> ext"
    using scan_least [of taint rs 0 "2 ^ 32 - 1" None "Some i"] scan that by auto
  have ge: "taint \<noteq> [] \<Longrightarrow> x \<in> set rs \<Longrightarrow> r_ok x = 1 \<Longrightarrow> fst (hd taint) + snd (hd taint) \<le> r_start x" for x
    using inv by (simp add: collect_inv_def)
  show "r_start (rs ! i) \<le> r_start x" if "x \<in> set rs" "r_ok x = 1"
    using that l e ge by (cases ext) auto
  show "fst (hd taint) + snd (hd taint) < r_start (rs ! i)" if "\<not> ext" "taint \<noteq> []"
    using l [OF that(1)] ge [OF that(2), of "rs ! i"] i that by (simp add: le_neq_implies_less)
qed

lemma scan_noneD:
  assumes "spans_ok ln rs" and "ln \<le> MAX_FILE" and "scan_ranges taint rs 0 (2 ^ 32 - 1) None = (ext, None)"
  shows "accepted rs = {}"
proof -
  have "\<not> ext" using scan_extend [of taint rs 0 "2 ^ 32 - 1" None None] assms(3) by (cases ext) auto
  then have "\<forall>x \<in> set rs. r_ok x = 1 \<longrightarrow> 2 ^ 32 - 1 \<le> r_start x"
    using scan_least [of taint rs 0 "2 ^ 32 - 1" None None] assms(3) by auto
  moreover have "\<forall>x \<in> set rs. r_start x < 2 ^ 32 - 1" using assms(1,2) by (force simp: spans_ok_def MAX_FILE_def)
  ultimately show ?thesis by (force simp: accepted_def)
qed

lemma mark_spans:
  assumes "spans_ok ln rs" and "i < length rs" and "r_ok (rs ! i) = 1"
  shows "spans_ok ln (rs[i := (rs ! i)\<lparr>r_ok := 2\<rparr>])"
    and "accepted rs = span (rs ! i) \<union> accepted (rs[i := (rs ! i)\<lparr>r_ok := 2\<rparr>])"
    and "x \<in> set (rs[i := (rs ! i)\<lparr>r_ok := 2\<rparr>]) \<Longrightarrow> r_ok x = 1 \<Longrightarrow> x \<in> set rs \<and> span x \<inter> span (rs ! i) = {}"
proof -
  define xs ys r where "xs = take i rs" and "ys = drop (i + 1) rs" and "r = rs ! i"
  have rs: "rs = xs @ r # ys" unfolding xs_def ys_def r_def by (rule nth_split [OF assms(2)])
  have upd: "rs[i := (rs ! i)\<lparr>r_ok := 2\<rparr>] = xs @ r\<lparr>r_ok := 2\<rparr> # ys"
    using assms(2) by (simp add: upd_conv_take_nth_drop xs_def ys_def r_def)
  have sp: "span (r\<lparr>r_ok := k\<rparr>) = span r" for k by (simp add: span_def)
  have sets: "set rs = insert r (set xs \<union> set ys)" "set (xs @ r\<lparr>r_ok := 2\<rparr> # ys) = insert (r\<lparr>r_ok := 2\<rparr>) (set xs \<union> set ys)"
    by (simp_all add: rs)
  have r: "rs ! i = r" by (simp add: r_def)
  have ok: "spans_ok ln (xs @ r # ys)" using assms(1) rs by simp
  show "spans_ok ln (rs[i := (rs ! i)\<lparr>r_ok := 2\<rparr>])" using ok unfolding upd spans_ok_mid sp by simp
  show "accepted rs = span (rs ! i) \<union> accepted (rs[i := (rs ! i)\<lparr>r_ok := 2\<rparr>])"
    using assms(3) unfolding upd unfolding r accepted_def sets by (auto simp: sp)
  show "x \<in> set rs \<and> span x \<inter> span (rs ! i) = {}" if "x \<in> set (rs[i := (rs ! i)\<lparr>r_ok := 2\<rparr>])" "r_ok x = 1"
    using that ok unfolding upd unfolding r sets spans_ok_mid by auto
qed


lemma collect_step:
  assumes inv: "collect_inv ln A rs taint positions" and "ln \<le> MAX_FILE"
    and scan: "scan_ranges taint rs 0 (2 ^ 32 - 1) None = (ext, Some i)"
  shows "collect_inv ln A (rs[i := (rs ! i)\<lparr>r_ok := 2\<rparr>])
    (if ext then (fst (hd taint), snd (hd taint) + r_size (rs ! i)) # tl taint else (r_start (rs ! i), r_size (rs ! i)) # taint)
    (positions + r_size (rs ! i))"
proof -
  note low = scan_lowest [OF assms]
  define r where "r = rs ! i"
  define rs' where "rs' = rs[i := r\<lparr>r_ok := 2\<rparr>]"
  have ok: "spans_ok ln rs" "taints_ok taint" "tainted taint \<union> accepted rs = A" "positions = sum_list (map snd taint)"
    using inv by (simp_all add: collect_inv_def)
  note mark = mark_spans [OF ok(1) low(1,2), folded r_def, folded rs'_def]
  have r: "r_start r \<le> r_end r" using ok(1) low(1) by (auto simp: spans_ok_def r_def)
  then have sp: "span r = {r_start r..<r_start r + r_size r}" "0 < r_size r" by (auto simp: span_def r_size_def)
  have after: "r_start r + r_size r \<le> r_start x" if "x \<in> set rs'" "r_ok x = 1" for x
  proof -
    have x: "x \<in> set rs" "span x \<inter> span r = {}" using mark(3) [OF that] by auto
    then have "r_start r \<le> r_start x" using low(3) that by (simp add: r_def)
    moreover have "r_start x \<in> span x" using x(1) ok(1) by (auto simp: spans_ok_def span_def)
    ultimately show ?thesis using x(2) sp(1) by (metis atLeastLessThan_iff disjoint_iff not_le)
  qed
  show ?thesis
  proof (cases ext)
    case False
    have "taints_ok ((r_start r, r_size r) # taint)"
    proof (cases taint)
      case (Cons t ts)
      have "fst t + snd t < r_start r" using low(5) False Cons by (simp add: r_def)
      then show ?thesis using ok(2) sp(2) Cons by (fastforce simp: taints_ok_def)
    qed (simp add: taints_ok_def sp)
    moreover have "tainted ((r_start r, r_size r) # taint) \<union> accepted rs' = A"
      using ok(3) mark(2) sp(1) by (auto simp: tainted_def)
    ultimately show ?thesis
      using False mark(1) ok(4) after by (simp add: collect_inv_def r_def [symmetric] rs'_def [symmetric])
  next
    case True
    then obtain p l ts where t: "taint = (p, l) # ts" "r_start r = p + l"
      using low(4) by (cases taint) (auto simp: r_def)
    have "taints_ok ((p, l + r_size r) # ts)" using ok(2) t(1) by (auto simp: taints_ok_def)
    moreover have "tainted ((p, l + r_size r) # ts) \<union> accepted rs' = A"
    proof -
      have "{p..<p + (l + r_size r)} = {p..<p + l} \<union> span r" unfolding sp(1) t(2) by auto
      then show ?thesis using ok(3) mark(2) t(1) by (simp add: tainted_def) blast
    qed
    ultimately show ?thesis
      using True t mark(1) ok(4) after
      by (simp add: collect_inv_def r_def [symmetric] rs'_def [symmetric] add.assoc)
  qed
qed

lemma collect_covers:
  assumes "collect_inv ln A rs taint positions" and "ln \<le> MAX_FILE" and "collect_taints rs taint positions = (out, n)"
  shows "taints_ok out \<and> tainted out = A \<and> n = sum_list (map snd out)"
  using assms(1,3)
proof (induction rs taint positions rule: collect_taints.induct)
  case (1 rs taint positions)
  obtain ext res where scan: "scan_ranges taint rs 0 (2 ^ 32 - 1) None = (ext, res)" by (cases "scan_ranges taint rs 0 (2 ^ 32 - 1) None")
  show ?case
  proof (cases res)
    case None
    then have "accepted rs = {}" using scan_noneD 1(2) assms(2) scan by (auto simp: collect_inv_def)
    then show ?thesis using 1(2,3) scan None by (auto simp: collect_taints.simps [of rs] collect_inv_def)
  next
    case (Some i)
    note st = collect_step [OF 1(2) assms(2) scan [unfolded Some]]
    show ?thesis
      by (rule 1(1) [OF scan [symmetric] Some refl refl st])
        (use 1(3) scan Some in \<open>simp add: collect_taints.simps [of rs] Let_def\<close>)
  qed
qed

section \<open>The whole stage\<close>

lemma color_start:
  assumes "mem \<noteq> []" and "length ch = length mem"
  shows "color_inv E mem ch c (add_range [] 0 (length mem - 1)) mem inputs"
    and "potential (add_range [] 0 (length mem - 1)) \<le> 2 * length mem"
proof -
  have "0 < length mem" using assms(1) by simp
  then have "\<forall>i < length mem. i \<in> {0..length mem - 1}" by auto
  then show "color_inv E mem ch c (add_range [] 0 (length mem - 1)) mem inputs"
    using assms \<open>0 < length mem\<close>
    by (simp add: color_inv_def add_range_def spans_ok_def span_def accepted_def colored_def confirmed_def)
  show "potential (add_range [] 0 (length mem - 1)) \<le> 2 * length mem"
    using \<open>0 < length mem\<close> by (simp add: potential_def add_range_def r_size_def)
qed


lemma card_tainted: "taints_ok taint \<Longrightarrow> card (tainted taint) = sum_list (map snd taint)"
proof (induction taint)
  case (Cons t taint)
  obtain p l where t: "t = (p, l)" by (cases t)
  have ok: "taints_ok taint" "\<forall>(p', l') \<in> set taint. p' + l' < p"
    using Cons.prems by (auto simp: taints_ok_def t)
  have "{p..<p + l} \<inter> tainted taint = {}" using ok(2) by (fastforce simp: tainted_def)
  moreover have "tainted (t # taint) = {p..<p + l} \<union> tainted taint" by (simp add: tainted_def t)
  moreover have "finite (tainted taint)" by (auto simp: tainted_def)
  ultimately show ?case using Cons.IH [OF ok(1)] t by (simp add: card_Un_disjoint)
qed (simp add: tainted_def)

lemma accepted_below: "spans_ok ln rs \<Longrightarrow> accepted rs \<subseteq> {..<ln}"
  by (force simp: accepted_def spans_ok_def span_def)

lemma colorization_SomeD:
  assumes "colorization below E cs mem s r = Some (False, taint, out, s', r', cs')" and "mem \<noteq> []" and "length mem \<le> MAX_FILE"
    and "c = seen_cksum E (length (runs s)) mem"
  obtains changed A where "length changed = length mem" and "\<forall>i < length mem. changed ! i \<noteq> mem ! i"
    and "colored mem changed A out" and "confirmed E c (runs s') A out"
    and "\<forall>i < length mem. i \<notin> A \<longrightarrow> (\<exists>k < length (runs s'). refutes E mem changed c A i k (runs s' ! k))"
    and "A \<subseteq> {..<length mem}"
    and "taint = [] \<and> (A = {} \<or> unsatisfactory E cs (length mem) (card A)) \<and> cs' = cs \<or>
      taints_ok taint \<and> tainted taint = A \<and> cs' = cs + 1"
proof -
  obtain x s1 where g: "get_exec_checksum E mem s = (Some x, s1)"
    using assms(1) by (auto simp: colorization_def Let_def split: prod.splits option.splits)
  have x: "x = c" using get_exec_checksum_Some(2) [OF g] assms(4) by simp
  obtain changed r1 where ch: "type_replace below mem r = Some (changed, r1)"
    using assms(1) g by (auto simp: colorization_def Let_def bind_eq_Some_conv)
  obtain ab ranges out1 s2 where l: "color_loop E mem changed c (2 * length mem) (add_range [] 0 (length mem - 1)) mem s1 = (ab, ranges, out1, s2)"
    by (cases "color_loop E mem changed c (2 * length mem) (add_range [] 0 (length mem - 1)) mem s1")
  obtain t n where t: "collect_taints ranges [] 0 = (t, n)" by (cases "collect_taints ranges [] 0")
  note unf = assms(1) [unfolded colorization_def Let_def g prod.case option.case ch bind.bind_lunit x l t]
  have nab: "\<not> ab" using unf by (cases ab) auto
  have out: "out1 = out" "s2 = s'" "taint = [] \<and> (t = [] \<or> unsatisfactory E cs (length mem) n) \<and> cs' = cs \<or> taint = t \<and> cs' = cs + 1"
    using unf nab by (auto split: if_splits)
  note new = type_replace_new [OF ch]
  have inv: "color_inv E mem changed c ranges out (runs s')"
    using color_loop_inv [OF l [unfolded out(1,2), simplified nab], OF color_start(1) color_start(2)] assms(2) new by simp
  have ok: "spans_ok (length mem) ranges" "\<forall>r \<in> set ranges. r_ok r = 1"
    using inv color_loop_inv [OF l [unfolded out(1,2), simplified nab], OF color_start(1) color_start(2)] assms(2) new
    by (simp_all add: color_inv_def)
  have cov: "taints_ok t \<and> tainted t = accepted ranges \<and> n = sum_list (map snd t)"
    by (rule collect_covers [OF _ assms(3) t]) (simp add: collect_inv_def ok(1) taints_ok_def tainted_def)
  show thesis
  proof (rule that [of changed "accepted ranges"])
    show "\<forall>i < length mem. i \<notin> accepted ranges \<longrightarrow>
        (\<exists>k < length (runs s'). refutes E mem changed c (accepted ranges) i k (runs s' ! k))"
    proof (intro allI impI)
      fix i assume i: "i < length mem" "i \<notin> accepted ranges"
      then have "i \<notin> (\<Union>r \<in> set ranges. span r)" using ok(2) by (auto simp: accepted_def)
      then show "\<exists>k < length (runs s'). refutes E mem changed c (accepted ranges) i k (runs s' ! k)"
        using inv i(1) by (auto simp: color_inv_def)
    qed
    show "taint = [] \<and> (accepted ranges = {} \<or> unsatisfactory E cs (length mem) (card (accepted ranges))) \<and> cs' = cs \<or>
        taints_ok taint \<and> tainted taint = accepted ranges \<and> cs' = cs + 1"
      using out(3) cov card_tainted [of t] by (auto simp: tainted_def)
  qed (use inv new accepted_below [OF ok(1)] in \<open>simp_all add: color_inv_def\<close>)
qed

text \<open>
  C34: colorization (\<^verbatim>\<open>colorization\<close>) finds bytes whose replacement keeps the path, and rules out
  every other byte. For every input of a length from 1 to \<^verbatim>\<open>MAX_FILE\<close>, when the stage is not abandoned and reports
  taints, they are disjoint intervals inside the input, in descending order and with gaps between them; the
  buffer it leaves differs from the original exactly in the tainted bytes, each of which has been
  replaced by another value, and a run of that buffer had the checksum of the first run and was not
  too slow. None of the other bytes was skipped: for each one there is a run of
  an input in which that byte was replaced and otherwise only tainted bytes, and which was discarded. In
  particular the limit of \<^verbatim>\<open>2 * len\<close> executions never cuts the search short.
\<close>

theorem colorization_taints:
  assumes "colorization below E cs mem s r = Some (False, taint, out, s', r', cs')" and "taint \<noteq> []"
    and "mem \<noteq> []" and "length mem \<le> MAX_FILE" and "c = seen_cksum E (length (runs s)) mem"
  shows "\<exists>changed. length changed = length mem \<and> (\<forall>i < length mem. changed ! i \<noteq> mem ! i) \<and>
    taints_ok taint \<and> tainted taint \<subseteq> {..<length mem} \<and> colored mem changed (tainted taint) out \<and>
    (\<exists>k < length (runs s'). runs s' ! k = out \<and> \<not> discard E c (seen_cksum E k out) k) \<and>
    (\<forall>i < length mem. i \<notin> tainted taint \<longrightarrow>
      (\<exists>k < length (runs s'). refutes E mem changed c (tainted taint) i k (runs s' ! k)))"
proof -
  obtain changed A where a: "length changed = length mem" "\<forall>i < length mem. changed ! i \<noteq> mem ! i"
    "colored mem changed A out" "confirmed E c (runs s') A out"
    "\<forall>i < length mem. i \<notin> A \<longrightarrow> (\<exists>k < length (runs s'). refutes E mem changed c A i k (runs s' ! k))"
    "A \<subseteq> {..<length mem}" "taint = [] \<and> (A = {} \<or> unsatisfactory E cs (length mem) (card A)) \<and> cs' = cs \<or>
      taints_ok taint \<and> tainted taint = A \<and> cs' = cs + 1"
    by (rule colorization_SomeD [OF assms(1,3-5)])
  then have t: "taints_ok taint" "tainted taint = A" using assms(2) by auto
  obtain p l where "(p, l) \<in> set taint" using assms(2) by (cases taint) auto
  moreover from this have "p \<in> {p..<p + l}" using t(1) by (auto simp: taints_ok_def)
  ultimately have "p \<in> A" unfolding t(2) [symmetric] tainted_def by blast
  then have "\<exists>k < length (runs s'). runs s' ! k = out \<and> \<not> discard E c (seen_cksum E k out) k"
    using a(4) unfolding confirmed_def by blast
  then show ?thesis using a(1-3,5,6) t(1) unfolding t(2) [symmetric] by (intro exI [of _ changed] conjI)
qed

lemma get_exec_checksum_runs: "length (runs (snd (get_exec_checksum E mem s))) = length (runs s) + 1"
  by (simp add: get_exec_checksum_def common_fuzz_stuff_def Let_def split: prod.splits)

lemma color_loop_runs:
  "color_loop E bk ch c n rs mem s = (ab, rs', mem', s') \<Longrightarrow> length (runs s') \<le> length (runs s) + n"
proof (induction n arbitrary: rs mem s)
  case (Suc n)
  show ?case
  proof (cases "pop_biggest_range rs")
    case (Some i)
    define e where "e = overwrite (r_start (rs ! i)) (take (r_size (rs ! i)) (drop (r_start (rs ! i)) ch)) mem"
    obtain x s1 where g: "get_exec_checksum E e s = (x, s1)" by (cases "get_exec_checksum E e s")
    have r: "length (runs s1) = length (runs s) + 1" using get_exec_checksum_runs [of E e s] g by simp
    show ?thesis
    proof (cases x)
      case None
      then show ?thesis using Suc.prems Some g r by (simp add: Let_def e_def [symmetric])
    next
      case (Some c')
      obtain rs1 mem1 where "color_loop E bk ch c n rs1 mem1 s1 = (ab, rs', mem', s')"
        using Suc.prems \<open>pop_biggest_range rs = Some i\<close> g Some
        by (auto simp: Let_def e_def [symmetric] split: if_splits)
      then show ?thesis using Suc.IH r by fastforce
    qed
  qed (use Suc.prems in simp)
qed simp


section \<open>Instances\<close>

definition color_env_ex :: color_env where
  "color_env_ex = \<lparr>co_env = quiet_env, left_trace = \<lambda>k t. t, too_slow = \<lambda>k. False, co_fixed_seed = False, cmplog_lvl = 1, co_active_paths = 1\<rparr>"

lemma color_loop_ex:
  "color_loop color_env_ex [48] [49] 0 2 (add_range [] 0 0) [48] (fresh_state\<lparr>runs := [[48]]\<rparr>) =
    (False, [\<lparr>r_start = 0, r_end = 0, r_ok = 1\<rparr>], [49], fresh_state\<lparr>runs := [[48], [49]]\<rparr>)"
  by (simp add: numeral_2_eq_2 pop_biggest_range_def add_range_def r_size_def get_exec_checksum_def common_fuzz_stuff_def
    color_env_ex_def quiet_env_def fresh_state_def overwrite_def discard_def Let_def)

lemma type_replace_ex: "type_replace counting [48] 0 = Some ([49], 0)"
  by (simp add: replace_byte.simps [of _ 48] type_of_byte_def between_def)

lemma get_exec_checksum_ex: "get_exec_checksum color_env_ex [48] fresh_state = (Some 0, fresh_state\<lparr>runs := [[48]]\<rparr>)"
  by (simp add: get_exec_checksum_def common_fuzz_stuff_def color_env_ex_def quiet_env_def fresh_state_def Let_def)

lemma collect_ex: "collect_taints [\<lparr>r_start = 0, r_end = 0, r_ok = 1\<rparr>] [] 0 = ([(0, 1)], 1)"
  by (subst collect_taints.simps, simp add: Let_def r_size_def, subst collect_taints.simps, simp)

lemma colorization_ex:
  "colorization counting color_env_ex 0 [48] fresh_state 0 =
    Some (False, [(0, 1)], [49], fresh_state\<lparr>runs := [[48], [49]]\<rparr>, 0, 1)"
proof -
  have n: "2 * length [48 :: u8] = 2" "length [48 :: u8] - 1 = 0" by simp_all
  show ?thesis
    unfolding colorization_def Let_def get_exec_checksum_ex prod.case option.case type_replace_ex bind.bind_lunit
    unfolding n color_loop_ex prod.case collect_ex bool.case by (simp add: unsatisfactory_def)
qed

lemma colorization_taints_witness:
  "\<exists>changed. length changed = length [48 :: u8] \<and> (\<forall>i < length [48 :: u8]. changed ! i \<noteq> [48 :: u8] ! i)"
  using colorization_taints [OF colorization_ex _ _ _ refl] by (auto simp: MAX_FILE_def)


end
