(* ===== verification/Havoc.thy ===== *)
theory Havoc
  imports Det_Stages Testcase_Cache
begin

text \<open>
  The random stages of \<^verbatim>\<open>fuzz_one_original\<close>, \<^verbatim>\<open>src/afl-fuzz-one.c\<close>: every branch of the switch of
  the havoc stage, the stack of mutations, the loop that runs them and may double itself, and splicing.
  The generator and the queue are those of \<open>Testcase_Cache\<close>, other test cases are fetched through its
  \<open>queue_testcase_get\<close>; block lengths come from \<open>Fuzz_One\<close>, runs from \<open>Det_Stages\<close>. A step that would
  read or write beyond the live part of a buffer ends in \<open>Bad_Access\<close>. The proofs are by
  rules for the predicate \<open>ensures\<close>, one for each way to build a step.
\<close>

section \<open>Steps\<close>

text \<open>A step works on the cache of test cases, which holds the queue and the generator. \<open>None\<close>: it does
  not return. \<open>Inl\<close>: the program stops, or leaves a buffer.\<close>

type_synonym ('a, 'r) hv = "'r tcache \<Rightarrow> (cache_stop + 'a \<times> 'r tcache) option"

definition ret :: "'a \<Rightarrow> ('a, 'r) hv" where
  "ret x s = Some (Inr (x, s))"

definition stop :: "cache_stop \<Rightarrow> ('a, 'r) hv" where
  "stop e s = Some (Inl e)"

definition chain :: "('a, 'r) hv \<Rightarrow> ('a \<Rightarrow> ('b, 'r) hv) \<Rightarrow> ('b, 'r) hv" where
  "chain m f s = Option.bind (m s) (\<lambda>x. case x of Inl e \<Rightarrow> Some (Inl e) | Inr (y, s) \<Rightarrow> f y s)"

text \<open>\<open>hv_custom\<close> are the stacked custom mutators: the probability in percent, and the buffer made of
  the current one in the given run and round, \<open>None\<close> for a null pointer. \<open>hv_alloc n\<close> is whether \<open>n\<close> bytes can be
  allocated, \<open>hv_heap\<close> and \<open>hv_junk\<close> are those of \<open>queue_testcase_get\<close>. \<open>idle\<close>: no new path for 5 seconds.\<close>

record 'r havoc_env =
  hv_below :: "'r \<Rightarrow> u32 \<Rightarrow> (u32 \<times> 'r) option"
  hv_heap :: heap
  hv_junk :: "nat option"
  hv_alloc :: "nat \<Rightarrow> bool"
  hv_cycle :: u64
  run_over10m :: bool
  hv_dict :: extras_state
  hv_custom :: "(u32 \<times> (nat \<times> nat \<Rightarrow> u8 list \<Rightarrow> u8 list option)) list"
  expand_havoc :: bool
  idle :: bool
  havoc_stack_pow2 :: u32

definition draw :: "'r havoc_env \<Rightarrow> u32 \<Rightarrow> (u32, 'r) hv" where
  "draw E n s = map_option (\<lambda>(x, r). Inr (x, s\<lparr>prng := r\<rparr>)) (hv_below E (prng s) n)"

definition block_len :: "'r havoc_env \<Rightarrow> u32 \<Rightarrow> (u32, 'r) hv" where
  "block_len E limit s =
    map_option (\<lambda>(x, r). Inr (x, s\<lparr>prng := r\<rparr>)) (choose_block_len (hv_below E) (hv_cycle E) (run_over10m E) limit (prng s))"

definition allocate :: "'r havoc_env \<Rightarrow> u32 \<Rightarrow> (unit, 'r) hv" where
  "allocate E n = (if hv_alloc E (unat n) then ret () else stop (Cache_Stop (PFATAL ''alloc'')))"

text \<open>\<open>n\<close> bytes of a buffer, and bytes put over those of a buffer.\<close>

definition grab :: "u8 list \<Rightarrow> u32 \<Rightarrow> u32 \<Rightarrow> (u8 list, 'r) hv" where
  "grab src i n = (if unat i + unat n \<le> length src then ret (take (unat n) (drop (unat i) src)) else stop Bad_Access)"

definition put :: "u32 \<Rightarrow> u8 list \<Rightarrow> u8 list \<Rightarrow> (u8 list, 'r) hv" where
  "put i bs out = (if unat i + length bs \<le> length out then ret (overwrite (unat i) bs out) else stop Bad_Access)"

definition element :: "'a list \<Rightarrow> u32 \<Rightarrow> ('a, 'r) hv" where
  "element xs i = (if unat i < length xs then ret (xs ! unat i) else stop Bad_Access)"

definition size32 :: "'a list \<Rightarrow> u32" where
  "size32 xs = of_nat (length xs)"

section \<open>The mutations\<close>

text \<open>Where the order of two draws is up to the compiler, the position comes first.\<close>

definition havoc_flip_bit :: "'r havoc_env \<Rightarrow> u8 list \<Rightarrow> (u8 list, 'r) hv" where
  "havoc_flip_bit E out = chain (draw E (push_bit 3 (size32 out))) (\<lambda>b.
     if unat b div 8 < length out then ret (FLIP_BIT (unat b) out) else stop Bad_Access)"

definition havoc_interesting8 :: "'r havoc_env \<Rightarrow> u8 list \<Rightarrow> (u8 list, 'r) hv" where
  "havoc_interesting8 E out = chain (draw E (size32 out)) (\<lambda>pos. chain (draw E (size32 interesting_8)) (\<lambda>k.
     chain (element interesting_8 k) (\<lambda>v. put pos [word_of_int v] out)))"

definition havoc_interesting16 :: "(u16 \<Rightarrow> u16) \<Rightarrow> 'r havoc_env \<Rightarrow> u8 list \<Rightarrow> (u8 list, 'r) hv" where
  "havoc_interesting16 order E out =
    (if size32 out < 2 then ret out
     else chain (draw E (size32 out - 1)) (\<lambda>pos. chain (draw E (size32 interesting_16)) (\<lambda>k.
       chain (element interesting_16 k) (\<lambda>v. put pos (store_le 2 (order (word_of_int v))) out))))"

definition havoc_interesting32 :: "(u32 \<Rightarrow> u32) \<Rightarrow> 'r havoc_env \<Rightarrow> u8 list \<Rightarrow> (u8 list, 'r) hv" where
  "havoc_interesting32 order E out =
    (if size32 out < 4 then ret out
     else chain (draw E (size32 out - 3)) (\<lambda>pos. chain (draw E (size32 interesting_32)) (\<lambda>k.
       chain (element interesting_32 k) (\<lambda>v. put pos (store_le 4 (order (word_of_int v))) out))))"

text \<open>\<open>change\<close> is the addition or the subtraction; \<open>order\<close> is the identity or the byte swap.\<close>

definition arith_max :: u32 where
  "arith_max = of_nat ARITH_MAX"

definition havoc_arith8 :: "(u8 \<Rightarrow> u8 \<Rightarrow> u8) \<Rightarrow> 'r havoc_env \<Rightarrow> u8 list \<Rightarrow> (u8 list, 'r) hv" where
  "havoc_arith8 change E out = chain (draw E (size32 out)) (\<lambda>pos. chain (draw E arith_max) (\<lambda>n.
     chain (grab out pos 1) (\<lambda>bs. put pos [change (load_le bs) (1 + ucast n)] out)))"

definition havoc_arith16 :: "(u16 \<Rightarrow> u16) \<Rightarrow> (u16 \<Rightarrow> u16 \<Rightarrow> u16) \<Rightarrow> 'r havoc_env \<Rightarrow> u8 list \<Rightarrow> (u8 list, 'r) hv" where
  "havoc_arith16 order change E out =
    (if size32 out < 2 then ret out
     else chain (draw E (size32 out - 1)) (\<lambda>pos. chain (draw E arith_max) (\<lambda>n. chain (grab out pos 2) (\<lambda>bs.
       put pos (store_le 2 (order (change (order (load_le bs)) (1 + ucast n)))) out))))"

definition havoc_arith32 :: "(u32 \<Rightarrow> u32) \<Rightarrow> (u32 \<Rightarrow> u32 \<Rightarrow> u32) \<Rightarrow> 'r havoc_env \<Rightarrow> u8 list \<Rightarrow> (u8 list, 'r) hv" where
  "havoc_arith32 order change E out =
    (if size32 out < 4 then ret out
     else chain (draw E (size32 out - 3)) (\<lambda>pos. chain (draw E arith_max) (\<lambda>n. chain (grab out pos 4) (\<lambda>bs.
       put pos (store_le 4 (order (change (order (load_le bs)) (1 + n)))) out))))"

definition havoc_rand8 :: "'r havoc_env \<Rightarrow> u8 list \<Rightarrow> (u8 list, 'r) hv" where
  "havoc_rand8 E out = chain (draw E (size32 out)) (\<lambda>pos. chain (draw E 255) (\<lambda>n.
     chain (grab out pos 1) (\<lambda>bs. put pos [load_le bs XOR (1 + ucast n)] out)))"

text \<open>Head, inserted mid and tail go to a new buffer.\<close>

definition insert_block :: "'r havoc_env \<Rightarrow> u32 \<Rightarrow> u8 list \<Rightarrow> u8 list \<Rightarrow> (u8 list, 'r) hv" where
  "insert_block E i mid out = chain (grab out 0 i) (\<lambda>head. chain (grab out i (size32 out - i)) (\<lambda>tail. ret (head @ mid @ tail)))"

definition max_file :: u32 where
  "max_file = of_nat MAX_FILE"

definition havoc_clone :: "'r havoc_env \<Rightarrow> u8 list \<Rightarrow> (u8 list, 'r) hv" where
  "havoc_clone E out =
    (if size32 out + HAVOC_BLK_XL < max_file
     then chain (block_len E (size32 out)) (\<lambda>n. chain (draw E (size32 out - n + 1)) (\<lambda>i. chain (draw E (size32 out)) (\<lambda>to.
       chain (allocate E (size32 out + n)) (\<lambda>_. chain (grab out i n) (\<lambda>mid. insert_block E to mid out)))))
     else ret out)"

text \<open>\<^verbatim>\<open>rand_below(afl, 2) ? rand_below(afl, 256) : out_buf[rand_below(afl, temp_len)]\<close>\<close>

definition fill_byte :: "'r havoc_env \<Rightarrow> u8 list \<Rightarrow> (u8, 'r) hv" where
  "fill_byte E out = chain (draw E 2) (\<lambda>c.
     if c \<noteq> 0 then chain (draw E 256) (\<lambda>v. ret (ucast v)) else chain (draw E (size32 out)) (element out))"

definition havoc_insert_const :: "'r havoc_env \<Rightarrow> u8 list \<Rightarrow> (u8 list, 'r) hv" where
  "havoc_insert_const E out =
    (if size32 out + HAVOC_BLK_XL < max_file
     then chain (block_len E HAVOC_BLK_XL) (\<lambda>n. chain (draw E (size32 out)) (\<lambda>to. chain (allocate E (size32 out + n)) (\<lambda>_.
       chain (fill_byte E out) (\<lambda>v. insert_block E to (replicate (unat n) v) out))))
     else ret out)"

definition havoc_overwrite_copy :: "'r havoc_env \<Rightarrow> u8 list \<Rightarrow> (u8 list, 'r) hv" where
  "havoc_overwrite_copy E out =
    (if size32 out < 2 then ret out
     else chain (block_len E (size32 out - 1)) (\<lambda>n. chain (draw E (size32 out - n + 1)) (\<lambda>i. chain (draw E (size32 out - n + 1)) (\<lambda>to.
       if i \<noteq> to then chain (grab out i n) (\<lambda>bs. put to bs out) else ret out))))"

definition havoc_overwrite_const :: "'r havoc_env \<Rightarrow> u8 list \<Rightarrow> (u8 list, 'r) hv" where
  "havoc_overwrite_const E out =
    (if size32 out < 2 then ret out
     else chain (block_len E (size32 out - 1)) (\<lambda>n. chain (draw E (size32 out - n + 1)) (\<lambda>to.
       chain (fill_byte E out) (\<lambda>v. put to (replicate (unat n) v) out))))"

definition havoc_delete :: "'r havoc_env \<Rightarrow> u8 list \<Rightarrow> (u8 list, 'r) hv" where
  "havoc_delete E out =
    (if size32 out < 2 then ret out
     else chain (block_len E (size32 out - 1)) (\<lambda>n. chain (draw E (size32 out - n + 1)) (\<lambda>i.
       chain (grab out (i + n) (size32 out - i - n)) (\<lambda>tail. chain (put i tail out) (\<lambda>out. grab out 0 (size32 out - n))))))"

text \<open>Tokens of either dictionary.\<close>

definition havoc_token_over :: "'r havoc_env \<Rightarrow> u8 list list \<Rightarrow> u8 list \<Rightarrow> (u8 list, 'r) hv" where
  "havoc_token_over E toks out = chain (draw E (size32 toks)) (\<lambda>k. chain (element toks k) (\<lambda>tok.
     if size32 out < size32 tok then ret out
     else chain (draw E (size32 out - size32 tok + 1)) (\<lambda>i. put i tok out)))"

definition havoc_token_insert :: "'r havoc_env \<Rightarrow> u8 list list \<Rightarrow> u8 list \<Rightarrow> (u8 list, 'r) hv" where
  "havoc_token_insert E toks out = chain (draw E (size32 toks)) (\<lambda>k. chain (element toks k) (\<lambda>tok.
     if max_file \<le> size32 out + size32 tok then ret out
     else chain (draw E (size32 out + 1)) (\<lambda>i. chain (allocate E (size32 out + size32 tok)) (\<lambda>_. insert_block E i tok out))))"

section \<open>Splicing in another test case\<close>

text \<open>\<^verbatim>\<open>do ... while (tid == afl->current_entry || afl->queue_buf[tid]->len < 4)\<close>\<close>

partial_function (option) pick_other ::
    "('r \<Rightarrow> u32 \<Rightarrow> (u32 \<times> 'r) option) \<Rightarrow> 'r tcache \<Rightarrow> (cache_stop + nat \<times> 'r tcache) option" where
  "pick_other below s = Option.bind (below (prng s) (of_nat (length (queue_buf (corpus s))))) (\<lambda>(tid, r).
     let s = s\<lparr>prng := r\<rparr>
     in if length (queue_buf (corpus s)) \<le> unat tid then Some (Inl Bad_Access)
        else if queue_cur (corpus s) = Some (unat tid) \<or> qlen s (unat tid) < 4 then pick_other below s
        else Some (Inr (unat tid, s)))"

definition get_case :: "'r havoc_env \<Rightarrow> nat \<Rightarrow> (u8 list, 'r) hv" where
  "get_case E q s = queue_testcase_get (hv_below E) (hv_heap E) (hv_junk E) q s"

definition splice_over :: "'r havoc_env \<Rightarrow> u8 list \<Rightarrow> u8 list \<Rightarrow> (u8 list, 'r) hv" where
  "splice_over E new out = chain (block_len E (size32 new - 1)) (\<lambda>n.
     let n = (if size32 out < n then size32 out else n)
     in chain (draw E (size32 new - n + 1)) (\<lambda>i. chain (draw E (size32 out - n + 1)) (\<lambda>to.
          chain (grab new i n) (\<lambda>bs. put to bs out))))"

definition splice_insert :: "'r havoc_env \<Rightarrow> u8 list \<Rightarrow> u8 list \<Rightarrow> (u8 list, 'r) hv" where
  "splice_insert E new out = chain (block_len E (size32 new)) (\<lambda>n. chain (draw E (size32 new - n + 1)) (\<lambda>i.
     chain (draw E (size32 out + 1)) (\<lambda>to. chain (allocate E (size32 out + n + 1)) (\<lambda>_.
       chain (grab new i n) (\<lambda>mid. insert_block E to mid out)))))"

definition havoc_splice :: "'r havoc_env \<Rightarrow> u32 \<Rightarrow> u8 list \<Rightarrow> (u8 list, 'r) hv" where
  "havoc_splice E r out = chain (pick_other (hv_below E)) (\<lambda>tid. chain (get_case E tid) (\<lambda>new.
     if 2 \<le> size32 out \<and> odd r \<or> max_file \<le> size32 out + HAVOC_BLK_XL
     then splice_over E new out else splice_insert E new out))"

section \<open>The switch\<close>

definition MAX_HAVOC_ENTRY :: u32 where "MAX_HAVOC_ENTRY = 59"

definition r_max :: "'r havoc_env \<Rightarrow> 'r tcache \<Rightarrow> u32" where
  "r_max E s = (MAX_HAVOC_ENTRY + 1) + (if extras (hv_dict E) \<noteq> [] then 4 else 0) + (if a_extras (hv_dict E) \<noteq> [] then 4 else 0) +
     (if expand_havoc E \<and> 1 < ready_for_splicing_count (corpus s) then 4 else 0) +
     (if idle E \<and> 1 < ready_for_splicing_count (corpus s) then 4 else 0)"

definition havoc_default :: "'r havoc_env \<Rightarrow> u32 \<Rightarrow> u8 list \<Rightarrow> (u8 list, 'r) hv" where
  "havoc_default E r out =
    (let r = r - (MAX_HAVOC_ENTRY + 1); toks = extras (hv_dict E); autos = map ae_data (a_extras (hv_dict E))
     in if toks \<noteq> [] \<and> r < 2 then havoc_token_over E toks out
        else if toks \<noteq> [] \<and> r < 4 then havoc_token_insert E toks out
        else let r = (if toks \<noteq> [] then r - 4 else r)
             in if autos \<noteq> [] \<and> r < 2 then havoc_token_over E autos out
                else if autos \<noteq> [] \<and> r < 4 then havoc_token_insert E autos out
                else havoc_splice E (if autos \<noteq> [] then r - 4 else r) out)"

definition havoc_mutate :: "'r havoc_env \<Rightarrow> u32 \<Rightarrow> u8 list \<Rightarrow> (u8 list, 'r) hv" where
  "havoc_mutate E r out =
    (if r \<le> 3 then havoc_flip_bit E out
     else if r \<le> 7 then havoc_interesting8 E out
     else if r \<le> 9 then havoc_interesting16 id E out
     else if r \<le> 11 then havoc_interesting16 SWAP16 E out
     else if r \<le> 13 then havoc_interesting32 id E out
     else if r \<le> 15 then havoc_interesting32 SWAP32 E out
     else if r \<le> 19 then havoc_arith8 (-) E out
     else if r \<le> 23 then havoc_arith8 (+) E out
     else if r \<le> 25 then havoc_arith16 id (-) E out
     else if r \<le> 27 then havoc_arith16 SWAP16 (-) E out
     else if r \<le> 29 then havoc_arith16 id (+) E out
     else if r \<le> 31 then havoc_arith16 SWAP16 (+) E out
     else if r \<le> 33 then havoc_arith32 id (-) E out
     else if r \<le> 35 then havoc_arith32 SWAP32 (-) E out
     else if r \<le> 37 then havoc_arith32 id (+) E out
     else if r \<le> 39 then havoc_arith32 SWAP32 (+) E out
     else if r \<le> 43 then havoc_rand8 E out
     else if r \<le> 46 then havoc_clone E out
     else if r \<le> 47 then havoc_insert_const E out
     else if r \<le> 50 then havoc_overwrite_copy E out
     else if r \<le> 51 then havoc_overwrite_const E out
     else if r \<le> MAX_HAVOC_ENTRY then havoc_delete E out
     else havoc_default E r out)"

section \<open>Stacking them\<close>

text \<open>The stacked custom mutators, each with its probability.\<close>

fun custom_havoc :: "'r havoc_env \<Rightarrow> nat \<times> nat \<Rightarrow> (u32 \<times> (nat \<times> nat \<Rightarrow> u8 list \<Rightarrow> u8 list option)) list \<Rightarrow> u8 list \<Rightarrow> (u8 list, 'r) hv" where
  "custom_havoc E k [] out = ret out"
| "custom_havoc E k ((prob, f) # cs) out = chain (draw E 100) (\<lambda>x.
     if x < prob
     then (case f k out of
             None \<Rightarrow> stop (Cache_Stop (FATAL ''Error in custom_havoc''))
           | Some new \<Rightarrow> if 0 < length new then chain (allocate E (size32 new)) (\<lambda>_. custom_havoc E k cs new)
                         else custom_havoc E k cs out)
     else custom_havoc E k cs out)"

definition havoc_step :: "'r havoc_env \<Rightarrow> nat \<times> nat \<Rightarrow> u8 list \<Rightarrow> (u8 list, 'r) hv" where
  "havoc_step E k out = chain (custom_havoc E k (hv_custom E) out) (\<lambda>out s.
     chain (draw E (r_max E s)) (\<lambda>r. havoc_mutate E r out) s)"

fun havoc_stack :: "'r havoc_env \<Rightarrow> nat \<Rightarrow> nat \<Rightarrow> nat \<Rightarrow> u8 list \<Rightarrow> (u8 list, 'r) hv" where
  "havoc_stack E k i 0 out = ret out"
| "havoc_stack E k i (Suc n) out = chain (havoc_step E (k, i) out) (havoc_stack E k (i + 1) n)"

definition havoc_input :: "'r havoc_env \<Rightarrow> nat \<Rightarrow> u8 list \<Rightarrow> (u8 list, 'r) hv" where
  "havoc_input E k out = chain (draw E (havoc_stack_pow2 E)) (\<lambda>x. havoc_stack E k 0 (2 ^ (1 + unat x)) out)"


section \<open>The stage\<close>

text \<open>\<open>save k out\<close> is what \<^verbatim>\<open>save_if_interesting\<close> does to the queue and its cache when the \<open>k\<close>-th run, of
  the input \<open>out\<close>, is over.\<close>

record 'r stage_env =
  st_run :: fuzz_env
  save :: "nat \<Rightarrow> u8 list \<Rightarrow> 'r tcache \<Rightarrow> 'r tcache"
  havoc_max_mult :: nat
  havoc_div :: nat
  doing_det :: bool
  use_splicing :: bool

definition queued_paths :: "'r tcache \<Rightarrow> nat" where
  "queued_paths s = length (queue_buf (corpus s))"

text \<open>The first component of the result is \<open>True\<close> for \<^verbatim>\<open>goto abandon_entry\<close>; \<open>queued\<close> is
  \<^verbatim>\<open>havoc_queued\<close>.\<close>

partial_function (option) havoc_loop :: "'r havoc_env \<Rightarrow> 'r stage_env \<Rightarrow> u8 list \<Rightarrow> nat \<Rightarrow> nat \<Rightarrow> nat \<Rightarrow> nat \<Rightarrow> 'r tcache \<Rightarrow> fuzz_state \<Rightarrow>
    (cache_stop + bool \<times> 'r tcache \<times> fuzz_state) option" where
  "havoc_loop E S in_buf cur stage_max perf_score queued s f =
    (if stage_max \<le> cur then Some (Inr (False, s, f))
     else Option.bind (havoc_input E (length (runs f)) in_buf s) (\<lambda>x. case x of
       Inl e \<Rightarrow> Some (Inl e)
     | Inr (out, s) \<Rightarrow>
         (case common_fuzz_stuff (st_run S) out f of (abandon, f') \<Rightarrow>
           if abandon then Some (Inr (True, s, f'))
           else
             let s = save S (length (runs f)) out s;
                 more = queued_paths s \<noteq> queued \<and> perf_score \<le> havoc_max_mult S * 100
             in if \<not> hv_alloc E (length in_buf) then Some (Inl (Cache_Stop (PFATAL ''alloc'')))
                else havoc_loop E S in_buf (cur + 1) (if more then stage_max * 2 else stage_max)
                  (if more then perf_score * 2 else perf_score) (queued_paths s) s f')))"

definition HAVOC_CYCLES :: nat where "HAVOC_CYCLES = (256 :: nat)"
definition HAVOC_CYCLES_INIT :: nat where "HAVOC_CYCLES_INIT = (1024 :: nat)"
definition HAVOC_MIN :: nat where "HAVOC_MIN = (12 :: nat)"
definition SPLICE_CYCLES :: nat where "SPLICE_CYCLES = (15 :: nat)"
definition SPLICE_HAVOC :: nat where "SPLICE_HAVOC = (32 :: nat)"

definition havoc_stage_max :: "'r stage_env \<Rightarrow> nat \<Rightarrow> nat \<Rightarrow> nat" where
  "havoc_stage_max S splice_cycle perf_score =
    max HAVOC_MIN ((if splice_cycle = 0 then (if doing_det S then HAVOC_CYCLES_INIT else HAVOC_CYCLES) else SPLICE_HAVOC) *
      perf_score div havoc_div S div 100)"

definition havoc_stage :: "'r havoc_env \<Rightarrow> 'r stage_env \<Rightarrow> nat \<Rightarrow> nat \<Rightarrow> u8 list \<Rightarrow> 'r tcache \<Rightarrow> fuzz_state \<Rightarrow>
    (cache_stop + bool \<times> 'r tcache \<times> fuzz_state) option" where
  "havoc_stage E S splice_cycle perf_score in_buf s f =
    havoc_loop E S in_buf 0 (havoc_stage_max S splice_cycle perf_score) perf_score (queued_paths s) s f"

section \<open>Splicing\<close>

text \<open>One attempt: \<open>None\<close> for \<^verbatim>\<open>goto retry_splicing\<close>, otherwise the new input. The first of the two
  allocations is not checked: its null pointer is written to.\<close>

definition splice_once :: "'r havoc_env \<Rightarrow> u8 list \<Rightarrow> (u8 list option, 'r) hv" where
  "splice_once E in_buf = chain (pick_other (hv_below E)) (\<lambda>tid. chain (get_case E tid) (\<lambda>new.
     case locate_diffs in_buf new (min (length in_buf) (length new)) of (f_diff, l_diff) \<Rightarrow>
       if f_diff < 0 \<or> l_diff < 2 \<or> f_diff = l_diff then ret None
       else chain (draw E (word_of_int (l_diff - f_diff))) (\<lambda>x.
         let split_at = word_of_int f_diff + x
         in if \<not> hv_alloc E (length new) then stop Bad_Access
            else chain (grab in_buf 0 split_at) (\<lambda>head. chain (grab new 0 (size32 new - split_at)) (\<lambda>tail.
              chain (allocate E (size32 new)) (\<lambda>_. ret (Some (head @ tail))))))))"

text \<open>At most \<open>n\<close> attempts; with the new input comes the number of those left.\<close>

fun splice_try :: "'r havoc_env \<Rightarrow> u8 list \<Rightarrow> nat \<Rightarrow> ((nat \<times> u8 list) option, 'r) hv" where
  "splice_try E in_buf 0 = ret None"
| "splice_try E in_buf (Suc n) = chain (splice_once E in_buf) (\<lambda>r. case r of
     None \<Rightarrow> splice_try E in_buf n
   | Some new \<Rightarrow> ret (Some (n, new)))"

text \<open>From \<^verbatim>\<open>havoc_stage\<close> to the end of splicing, for a queue entry without custom mutators. The result
  says whether the entry was abandoned.\<close>

partial_function (option) random_stages :: "'r havoc_env \<Rightarrow> 'r stage_env \<Rightarrow> u8 list \<Rightarrow> nat \<Rightarrow> nat \<Rightarrow> u8 list \<Rightarrow> 'r tcache \<Rightarrow> fuzz_state \<Rightarrow>
    (cache_stop + bool \<times> 'r tcache \<times> fuzz_state) option" where
  "random_stages E S orig_in perf_score left in_buf s f =
    Option.bind (havoc_stage E S (SPLICE_CYCLES - left) perf_score in_buf s f) (\<lambda>x. case x of
      Inl e \<Rightarrow> Some (Inl e)
    | Inr (abandon, s, f) \<Rightarrow>
        if abandon then Some (Inr (True, s, f))
        else if \<not> (use_splicing S \<and> 1 < ready_for_splicing_count (corpus s) \<and> 4 \<le> length orig_in) then Some (Inr (False, s, f))
        else Option.bind (splice_try E orig_in left s) (\<lambda>y. case y of
          Inl e \<Rightarrow> Some (Inl e)
        | Inr (None, s) \<Rightarrow> Some (Inr (False, s, f))
        | Inr (Some (n, new), s) \<Rightarrow> random_stages E S orig_in perf_score n new s f))"

section \<open>What a step ensures\<close>

text \<open>Between mutations the queue stays the same and the cache consistent.\<close>

definition cache_inv :: "queue_state \<Rightarrow> 'r tcache \<Rightarrow> bool" where
  "cache_inv C s \<longleftrightarrow> cache_ok s \<and> corpus s = C \<and> (max_cache_size s = 0 \<or> sized_ok s)"

text \<open>From a consistent state a step never leaves a buffer, returns if \<open>tot\<close>, and what it returns satisfies \<open>P\<close>.\<close>

definition ensures :: "bool \<Rightarrow> queue_state \<Rightarrow> ('a, 'r) hv \<Rightarrow> ('a \<Rightarrow> bool) \<Rightarrow> bool" where
  "ensures tot C m P \<longleftrightarrow> (\<forall>s. cache_inv C s \<longrightarrow>
     (case m s of None \<Rightarrow> \<not> tot | Some (Inl e) \<Rightarrow> e \<noteq> Bad_Access | Some (Inr (x, s')) \<Rightarrow> P x \<and> cache_inv C s'))"

lemma ensures_weaken: "ensures tot C m Q \<Longrightarrow> (\<And>x. Q x \<Longrightarrow> P x) \<Longrightarrow> ensures tot C m P"
  unfolding ensures_def by (fastforce split: option.splits sum.splits)

lemma ensures_ret: "P x \<Longrightarrow> ensures tot C (ret x) P"
  by (simp add: ensures_def ret_def)

lemma ensures_stop: "ensures tot C (stop (Cache_Stop e)) P"
  by (simp add: ensures_def stop_def)

lemma ensures_chain:
  fixes m :: "('a, 'r) hv"
  assumes "ensures tot C m Q" and "\<And>x. Q x \<Longrightarrow> ensures tot C (f x) P"
  shows "ensures tot C (chain m f) P"
  unfolding ensures_def
proof (intro allI impI)
  fix s :: "'r tcache" assume s: "cache_inv C s"
  show "case chain m f s of None \<Rightarrow> \<not> tot | Some (Inl e) \<Rightarrow> e \<noteq> Bad_Access | Some (Inr (x, s')) \<Rightarrow> P x \<and> cache_inv C s'"
  proof (cases "m s")
    case None
    then show ?thesis using assms(1) s by (auto simp: chain_def ensures_def)
  next
    case (Some y)
    show ?thesis
    proof (cases y)
      case (Inl e)
      then show ?thesis using assms(1) s Some by (auto simp: chain_def ensures_def)
    next
      case (Inr z)
      obtain x s' where z: "z = (x, s')" by (cases z)
      have "Q x" "cache_inv C s'" using assms(1) s Some Inr z by (auto simp: ensures_def)
      then show ?thesis using assms(2) [of x] Some Inr z by (simp add: chain_def ensures_def)
    qed
  qed
qed

lemma ensures_if: "(b \<Longrightarrow> ensures tot C m P) \<Longrightarrow> (\<not> b \<Longrightarrow> ensures tot C m' P) \<Longrightarrow> ensures tot C (if b then m else m') P"
  by simp

text \<open>The conditions on the environment and on the queue. The queue counts the entries of more than
  four bytes; tokens and the results of custom mutators are at most \<^verbatim>\<open>MAX_FILE\<close> bytes long.\<close>

definition splice_counted :: "queue_state \<Rightarrow> bool" where
  "splice_counted C \<longleftrightarrow> length (queue_buf C) < 2 ^ 32 \<and>
     unat (ready_for_splicing_count C) \<le> card {q. q < length (queue_buf C) \<and> 4 < unat (len (entry C q))} \<and>
     (\<forall>q < length (queue_buf C). unat (len (entry C q)) < MAX_FILE)"

definition env_ok :: "'r havoc_env \<Rightarrow> bool" where
  "env_ok E \<longleftrightarrow> bounded_rng (hv_below E) \<and>
     (\<forall>tok \<in> set (extras (hv_dict E)) \<union> ae_data ` set (a_extras (hv_dict E)). length tok \<le> MAX_FILE) \<and>
     length (extras (hv_dict E)) < 2 ^ 32 \<and> length (a_extras (hv_dict E)) < 2 ^ 32 \<and>
     (\<forall>(p, f) \<in> set (hv_custom E). \<forall>k out new. f k out = Some new \<longrightarrow> length new \<le> MAX_FILE)"

lemma prng_inv [simp]: "cache_inv C (s\<lparr>prng := r\<rparr>) = cache_inv C s"
  by (simp add: cache_inv_def cache_ok_def counters_ok_def buffers_ok_def live_def owner_def sized_ok_def)

lemma below_total:
  assumes "bounded_rng below" and "fair below"
  shows "below r n \<noteq> None"
proof (cases "0 < n")
  case True
  then have "drawn below n 0 r" using assms(2) by (simp add: fair_def)
  then show ?thesis by (cases rule: drawn.cases) simp_all
next
  case False
  then have "n \<le> 1" by (simp add: word_gt_0)
  then show ?thesis using bounded_rng.below_trivial [OF assms(1)] by simp
qed

lemma ensures_prng:
  fixes g :: "'r \<Rightarrow> ('a \<times> 'r) option"
  assumes "\<And>r. tot \<Longrightarrow> g r \<noteq> None" and "\<And>r x r'. g r = Some (x, r') \<Longrightarrow> P x"
  shows "ensures tot C (\<lambda>s. map_option (\<lambda>(x, r). Inr (x, s\<lparr>prng := r\<rparr>)) (g (prng s))) P"
  unfolding ensures_def
proof (intro allI impI)
  fix s :: "'r tcache" assume "cache_inv C s"
  then show "case map_option (\<lambda>(x, r). Inr (x, s\<lparr>prng := r\<rparr>)) (g (prng s)) of None \<Rightarrow> \<not> tot
      | Some (Inl e) \<Rightarrow> e \<noteq> Bad_Access | Some (Inr (x, s')) \<Rightarrow> P x \<and> cache_inv C s'"
    using assms(1) [of "prng s"] assms(2) by (cases "g (prng s)") auto
qed

lemma ensures_draw:
  assumes "env_ok E" and "0 < unat n"
  shows "ensures (fair (hv_below E)) C (draw E n) (\<lambda>x. unat x < unat n)"
proof -
  have b: "bounded_rng (hv_below E)" using assms(1) by (simp add: env_ok_def)
  show ?thesis
    unfolding draw_def by (rule ensures_prng) (use below_total [OF b] bounded_rng.below_unat [OF b _ assms(2)] in auto)
qed

lemma block_len_total:
  assumes "bounded_rng below" and "fair below"
  shows "choose_block_len below qc o10 limit r \<noteq> None"
proof -
  have t: "\<exists>c r'. below r n = Some (c, r')" for r n using below_total [OF assms, of r n] by auto
  have b: "\<exists>lo hi r'. block_bounds below n r = Some (lo, hi, r')" for n r
  proof -
    obtain c r1 where c: "below r n = Some (c, r1)" using t by blast
    obtain d r2 where "below r1 10 = Some (d, r2)" using t by blast
    then show ?thesis using c by (simp add: block_bounds_def)
  qed
  define rlim where "rlim = (if \<not> o10 then 1 else ucast (min qc 3) :: u32)"
  obtain lo hi r1 where c: "block_bounds below rlim r = Some (lo, hi, r1)" using b by blast
  obtain x r2 where "below r1 (min hi limit - (if limit \<le> lo then 1 else lo) + 1) = Some (x, r2)" using t by blast
  then show ?thesis using c by (simp add: choose_block_len_def Let_def rlim_def [symmetric])
qed

lemma ensures_block_len:
  assumes "env_ok E" and "0 < unat n"
  shows "ensures (fair (hv_below E)) C (block_len E n) (\<lambda>x. 0 < unat x \<and> unat x \<le> unat n \<and> unat x \<le> 32768)"
proof -
  have b: "bounded_rng (hv_below E)" using assms(1) by (simp add: env_ok_def)
  have n: "0 < n" using assms(2) by (simp add: word_less_nat_alt)
  have "0 < unat x \<and> unat x \<le> unat n \<and> unat x \<le> 32768"
    if "choose_block_len (hv_below E) (hv_cycle E) (run_over10m E) n r = Some (x, r')" for x r r'
    using bounded_rng.choose_block_len_bounds [OF b that n] by (simp add: word_le_nat_alt HAVOC_BLK_XL_def)
  then show ?thesis
    unfolding block_len_def by (intro ensures_prng block_len_total [OF b]) auto
qed

lemma ensures_allocate: "ensures tot C (allocate E n) (\<lambda>_. True)"
  by (simp add: allocate_def ensures_ret ensures_stop)

lemma ensures_grab:
  "unat i + unat n \<le> length src \<Longrightarrow> ensures tot C (grab src i n) (\<lambda>bs. bs = take (unat n) (drop (unat i) src) \<and> length bs = unat n)"
  by (simp add: grab_def ensures_ret)

lemma ensures_element: "unat i < length xs \<Longrightarrow> ensures tot C (element xs i) (\<lambda>x. x \<in> set xs)"
  by (simp add: element_def ensures_ret)

section \<open>Edits\<close>

text \<open>What a mutation may do to a buffer.\<close>

inductive edit :: "u8 list \<Rightarrow> u8 list \<Rightarrow> bool" for out where
  overwrite: "i + length bs \<le> length out \<Longrightarrow> edit out (overwrite i bs out)"
| insert: "i \<le> length out \<Longrightarrow> edit out (take i out @ bs @ drop i out)"
| delete: "i + n \<le> length out \<Longrightarrow> edit out (take i out @ drop (i + n) out)"

definition fits :: "u8 list \<Rightarrow> bool" where
  "fits out \<longleftrightarrow> 0 < length out \<and> length out \<le> MAX_FILE"

definition edited :: "u8 list \<Rightarrow> u8 list \<Rightarrow> bool" where
  "edited out out' \<longleftrightarrow> edit out out' \<and> fits out'"

lemma edit_refl: "edit out out"
  using edit.delete [of 0 0 out] by simp

lemma edited_refl: "fits out \<Longrightarrow> edited out out"
  by (simp add: edited_def edit_refl)

lemma ensures_put:
  assumes "fits out" and "unat i + length bs \<le> length out"
  shows "ensures tot C (put i bs out) (edited out)"
  using assms edit.overwrite [of "unat i" bs out]
  by (simp add: put_def ensures_ret edited_def fits_def length_overwrite)

lemma unat_size32 [simp]: "length xs < 2 ^ 32 \<Longrightarrow> unat (size32 xs) = length xs"
  by (simp add: size32_def)

lemma fits_size: "fits out \<Longrightarrow> unat (size32 out) = length out"
  by (simp add: fits_def MAX_FILE_def)

lemma unat_sub_u32: "unat b \<le> unat a \<Longrightarrow> unat (a - b :: u32) = unat a - unat b"
  by (simp add: unat_sub word_le_nat_alt)

lemma unat_add_u32: "unat a + unat b < 2 ^ 32 \<Longrightarrow> unat (a + b :: u32) = unat a + unat b"
  by (simp add: unat_word_ariths)

lemma ensures_insert_block:
  assumes "fits out" and "unat i \<le> length out" and "length out + length mid \<le> MAX_FILE"
  shows "ensures tot C (insert_block E i mid out) (edited out)"
proof -
  have s: "unat (size32 out - i) = length out - unat i" using assms(1,2) by (simp add: unat_sub_u32 fits_size)
  have "edited out (take (unat i) out @ mid @ drop (unat i) out)"
    using assms edit.insert [of "unat i" out mid] by (simp add: edited_def fits_def)
  then show ?thesis
    unfolding insert_block_def
    by (intro ensures_chain [OF ensures_grab] ensures_ret) (use assms(2) s in auto)
qed

section \<open>Every mutation is an edit within bounds\<close>

lemmas hv_rules = ensures_if ensures_ret ensures_chain [OF ensures_draw] ensures_chain [OF ensures_block_len]
  ensures_chain [OF ensures_allocate] ensures_chain [OF ensures_grab] ensures_chain [OF ensures_element]
  ensures_put ensures_insert_block edited_refl

abbreviation keeps_fit :: "'r havoc_env \<Rightarrow> queue_state \<Rightarrow> u8 list \<Rightarrow> (u8 list, 'r) hv \<Rightarrow> bool" where
  "keeps_fit E C out m \<equiv> ensures (fair (hv_below E)) C m (edited out)"

lemma overwrite_one: "i < length xs \<Longrightarrow> overwrite i [x] xs = xs[i := x]"
  by (simp add: overwrite_def upd_conv_take_nth_drop)

lemma havoc_flip_bit_ok:
  assumes "env_ok E" and "fits out"
  shows "keeps_fit E C out (havoc_flip_bit E out)"
proof -
  have u: "unat (push_bit 3 (size32 out)) = 8 * length out"
    using assms(2) fits_size [OF assms(2)] by (simp add: push_bit_eq_mult unat_word_ariths fits_def MAX_FILE_def)
  have "edited out (FLIP_BIT b out)" if "b div 8 < length out" for b
    using edit.overwrite [of "b div 8" "[out ! (b div 8) XOR drop_bit (b mod 8) 128]" out] that assms(2)
    by (simp add: FLIP_BIT_def overwrite_one edited_def fits_def)
  then show ?thesis
    unfolding havoc_flip_bit_def using assms u by (intro hv_rules) (auto simp: fits_def)
qed

lemma havoc_interesting8_ok:
  assumes "env_ok E" and "fits out"
  shows "keeps_fit E C out (havoc_interesting8 E out)"
  unfolding havoc_interesting8_def
  by (intro hv_rules) (use assms fits_size [OF assms(2)] in \<open>auto simp: fits_def interesting_8_def\<close>)

lemma havoc_interesting16_ok:
  assumes "env_ok E" and "fits out"
  shows "keeps_fit E C out (havoc_interesting16 order E out)"
  unfolding havoc_interesting16_def
  by (intro hv_rules) (use assms fits_size [OF assms(2)] in
    \<open>auto simp: word_less_nat_alt unat_sub_u32 interesting_16_def interesting_8_def\<close>)

lemma havoc_interesting32_ok:
  assumes "env_ok E" and "fits out"
  shows "keeps_fit E C out (havoc_interesting32 order E out)"
  unfolding havoc_interesting32_def
  by (intro hv_rules) (use assms fits_size [OF assms(2)] in
    \<open>auto simp: word_less_nat_alt unat_sub_u32 interesting_32_def interesting_16_def interesting_8_def\<close>)

lemma havoc_arith8_ok:
  assumes "env_ok E" and "fits out"
  shows "keeps_fit E C out (havoc_arith8 change E out)"
  unfolding havoc_arith8_def
  by (intro hv_rules) (use assms fits_size [OF assms(2)] in \<open>auto simp: fits_def arith_max_def ARITH_MAX_def\<close>)

lemma havoc_arith16_ok:
  assumes "env_ok E" and "fits out"
  shows "keeps_fit E C out (havoc_arith16 order change E out)"
  unfolding havoc_arith16_def
  by (intro hv_rules) (use assms fits_size [OF assms(2)] in
    \<open>auto simp: word_less_nat_alt unat_sub_u32 arith_max_def ARITH_MAX_def\<close>)

lemma havoc_arith32_ok:
  assumes "env_ok E" and "fits out"
  shows "keeps_fit E C out (havoc_arith32 order change E out)"
  unfolding havoc_arith32_def
  by (intro hv_rules) (use assms fits_size [OF assms(2)] in
    \<open>auto simp: word_less_nat_alt unat_sub_u32 arith_max_def ARITH_MAX_def\<close>)

lemma havoc_rand8_ok:
  assumes "env_ok E" and "fits out"
  shows "keeps_fit E C out (havoc_rand8 E out)"
  unfolding havoc_rand8_def
  by (intro hv_rules) (use assms fits_size [OF assms(2)] in \<open>auto simp: fits_def\<close>)

lemma room_for_block:
  assumes "fits out" and "size32 out + HAVOC_BLK_XL < max_file"
  shows "length out + 32768 < MAX_FILE"
  using assms(2) fits_size [OF assms(1)] assms(1)
  by (simp add: word_less_nat_alt unat_add_u32 HAVOC_BLK_XL_def max_file_def fits_def MAX_FILE_def)

lemma rest_size:
  assumes "unat n \<le> length xs" and "length xs \<le> MAX_FILE"
  shows "unat (size32 xs - n + 1) = length xs - unat n + 1"
proof -
  have "length xs < 2 ^ 32" using assms(2) by (simp add: MAX_FILE_def)
  then have "unat (size32 xs - n) = length xs - unat n" using assms(1) by (simp add: unat_sub_u32)
  then show ?thesis using \<open>length xs < 2 ^ 32\<close> assms(2) by (simp add: unat_add_u32 MAX_FILE_def)
qed

lemma havoc_clone_ok:
  assumes "env_ok E" and "fits out"
  shows "keeps_fit E C out (havoc_clone E out)"
  unfolding havoc_clone_def
  by (intro hv_rules)
    (use assms fits_size [OF assms(2)] room_for_block [OF assms(2)] rest_size [of _ out] in \<open>fastforce simp: fits_def\<close>)+

lemma fill_byte_ok:
  assumes "env_ok E" and "fits out"
  shows "ensures (fair (hv_below E)) C (fill_byte E out) (\<lambda>_. True)"
  unfolding fill_byte_def
  by (intro hv_rules ensures_weaken [OF ensures_element]) (use assms fits_size [OF assms(2)] in \<open>auto simp: fits_def\<close>)


lemma havoc_insert_const_ok:
  assumes "env_ok E" and "fits out"
  shows "keeps_fit E C out (havoc_insert_const E out)"
  unfolding havoc_insert_const_def
  by (intro hv_rules ensures_chain [OF fill_byte_ok])
    (use assms fits_size [OF assms(2)] room_for_block [OF assms(2)] in \<open>auto simp: fits_def HAVOC_BLK_XL_def\<close>)

lemma below_size:
  assumes "fits out" and "\<not> size32 out < 2"
  shows "unat (size32 out - 1) = length out - 1" and "1 < length out"
  using assms fits_size [OF assms(1)] by (auto simp: word_less_nat_alt unat_sub_u32)

lemma havoc_overwrite_copy_ok:
  assumes "env_ok E" and "fits out"
  shows "keeps_fit E C out (havoc_overwrite_copy E out)"
  unfolding havoc_overwrite_copy_def
  by (intro hv_rules)
    (use assms fits_size [OF assms(2)] below_size [OF assms(2)] rest_size [of _ out] in \<open>fastforce simp: fits_def\<close>)+

lemma havoc_overwrite_const_ok:
  assumes "env_ok E" and "fits out"
  shows "keeps_fit E C out (havoc_overwrite_const E out)"
  unfolding havoc_overwrite_const_def
  by (intro hv_rules ensures_chain [OF fill_byte_ok])
    (use assms fits_size [OF assms(2)] below_size [OF assms(2)] rest_size [of _ out] in \<open>fastforce simp: fits_def\<close>)+

lemma delete_bytes:
  assumes "i + n \<le> length out"
  shows "take (length out - n) (overwrite i (drop (i + n) out) out) = take i out @ drop (i + n) out"
  using assms by (simp add: overwrite_def)

lemma havoc_delete_ok:
  assumes "env_ok E" and "fits out"
  shows "keeps_fit E C out (havoc_delete E out)"
proof -
  have "ensures (fair (hv_below E)) C
      (chain (grab out (i + n) (size32 out - i - n)) (\<lambda>tail. chain (put i tail out) (\<lambda>out. grab out 0 (size32 out - n)))) (edited out)"
    if h: "unat n < length out" "unat i + unat n \<le> length out" for i n
  proof -
    have l: "length out < 2 ^ 32" using assms(2) by (simp add: fits_def MAX_FILE_def)
    have u: "unat (i + n) = unat i + unat n" "unat (size32 out - i - n) = length out - unat i - unat n"
      "unat (size32 out - n) = length out - unat n"
      using h l fits_size [OF assms(2)] by (simp_all add: unat_add_u32 unat_sub_u32)
    have "edited out (take (unat i) out @ drop (unat i + unat n) out)"
      using h edit.delete [of "unat i" "unat n" out] assms(2) by (auto simp: edited_def fits_def)
    moreover have "length (overwrite (unat i) (drop (unat i + unat n) out) out) = length out"
      using h by (simp add: length_overwrite)
    ultimately show ?thesis using h u l delete_bytes [of "unat i" "unat n" out]
      by (simp add: grab_def put_def ensures_def chain_def ret_def size32_def)
  qed
  note cut = this
  have "keeps_fit E C out (havoc_delete E out)" if big: "\<not> size32 out < 2"
  proof -
    note b = below_size [OF assms(2) big]
    have r: "unat n \<le> unat (size32 out - 1) \<Longrightarrow> unat (size32 out - n + 1) = length out - unat n + 1" for n
      using rest_size [of n out] assms(2) b(1) by (simp add: fits_def)
    show ?thesis
      unfolding havoc_delete_def if_not_P [OF big]
      by (rule ensures_chain [OF ensures_block_len [OF assms(1)]], use b in simp,
          rule ensures_chain [OF ensures_draw [OF assms(1)]], use r in simp, rule cut) (use b r in auto)
  qed
  then show ?thesis using assms(2) by (cases "size32 out < 2") (auto simp: havoc_delete_def intro: ensures_ret edited_refl)
qed

lemma outer_token:
  assumes "unat k < unat (size32 toks)" and "length toks < 2 ^ 32" and "fits out"
    and "\<And>tok. tok \<in> set toks \<Longrightarrow> \<not> b tok \<Longrightarrow> ensures tot C (m tok) (edited out)"
  shows "ensures tot C (chain (element toks k) (\<lambda>tok. if b tok then ret out else m tok)) (edited out)"
  by (intro ensures_chain [OF ensures_element] ensures_if ensures_ret edited_refl) (use assms in auto)

lemma havoc_token_over_ok:
  assumes "env_ok E" and "fits out" and "toks \<noteq> []" and "length toks < 2 ^ 32" and "\<forall>tok \<in> set toks. length tok \<le> MAX_FILE"
  shows "keeps_fit E C out (havoc_token_over E toks out)"
proof -
  have "keeps_fit E C out (chain (draw E (size32 out - size32 tok + 1)) (\<lambda>i. put i tok out))"
    if t: "tok \<in> set toks" and le: "\<not> size32 out < size32 tok" for tok
  proof -
    have "unat (size32 tok) = length tok" using t assms(5) by (auto simp: MAX_FILE_def)
    then have "length tok \<le> length out" "unat (size32 out - size32 tok + 1) = length out - length tok + 1"
      using le fits_size [OF assms(2)] rest_size [of "size32 tok" out] assms(2) by (simp_all add: word_less_nat_alt fits_def)
    then show ?thesis by (intro hv_rules) (use assms(1,2) in auto)
  qed
  note tok = this
  show ?thesis
    unfolding havoc_token_over_def
    by (rule ensures_chain [OF ensures_draw [OF assms(1)]], use assms in simp, rule outer_token) (use assms tok in auto)
qed

lemma havoc_token_insert_ok:
  assumes "env_ok E" and "fits out" and "toks \<noteq> []" and "length toks < 2 ^ 32" and "\<forall>tok \<in> set toks. length tok \<le> MAX_FILE"
  shows "keeps_fit E C out (havoc_token_insert E toks out)"
proof -
  have "keeps_fit E C out (chain (draw E (size32 out + 1)) (\<lambda>i. chain (allocate E (size32 out + size32 tok)) (\<lambda>_. insert_block E i tok out)))"
    if t: "tok \<in> set toks" and le: "\<not> max_file \<le> size32 out + size32 tok" for tok
  proof -
    have l: "length tok \<le> MAX_FILE" using t assms(5) by blast
    then have "unat (size32 tok) = length tok" by (simp add: MAX_FILE_def)
    then have "length out + length tok < MAX_FILE" "unat (size32 out + 1) = length out + 1"
      using le fits_size [OF assms(2)] assms(2) l by (simp_all add: word_le_nat_alt unat_add_u32 fits_def max_file_def MAX_FILE_def)
    then show ?thesis by (intro hv_rules) (use assms(1,2) in auto)
  qed
  note tok = this
  show ?thesis
    unfolding havoc_token_insert_def
    by (rule ensures_chain [OF ensures_draw [OF assms(1)]], use assms in simp, rule outer_token) (use assms tok in auto)
qed

lemma splice_over_ok:
  assumes "env_ok E" and "fits out" and "4 \<le> length new" and "length new \<le> MAX_FILE"
  shows "keeps_fit E C out (splice_over E new out)"
proof -
  have u: "unat (size32 new - 1) = length new - 1" using assms(3,4) by (simp add: unat_sub_u32 MAX_FILE_def)
  have "keeps_fit E C out (chain (draw E (size32 new - m + 1)) (\<lambda>i. chain (draw E (size32 out - m + 1)) (\<lambda>to.
          chain (grab new i m) (\<lambda>bs. put to bs out))))"
    if "unat m \<le> length new" "unat m \<le> length out" for m
    using that assms rest_size [of m new] rest_size [of m out] by (intro hv_rules) (auto simp: fits_def)
  moreover have "unat (if size32 out < n then size32 out else n) \<le> length out \<and> unat (if size32 out < n then size32 out else n) \<le> length new"
    if "unat n \<le> unat (size32 new - 1)" for n
    using fits_size [OF assms(2)] that u by (cases "size32 out < n") (auto simp: word_less_nat_alt)
  ultimately show ?thesis
    unfolding splice_over_def Let_def using assms(3) u
    by (intro ensures_chain [OF ensures_block_len [OF assms(1)]]) auto
qed

lemma splice_insert_ok:
  assumes "env_ok E" and "fits out" and "4 \<le> length new" and "length new \<le> MAX_FILE"
    and "length out + 32768 < MAX_FILE"
  shows "keeps_fit E C out (splice_insert E new out)"
proof -
  have u: "unat (size32 new) = length new" using assms(4) by (simp add: MAX_FILE_def)
  have v: "unat (size32 out + 1) = length out + 1" using assms(2) fits_size [OF assms(2)]
    by (simp add: unat_add_u32 fits_def MAX_FILE_def)
  show ?thesis
    unfolding splice_insert_def
    by (intro hv_rules) (use assms u v rest_size [of _ new] in fastforce)+
qed

section \<open>Fetching another test case\<close>

lemma sized_ok_entries:
  "sized_ok s \<Longrightarrow> max_cache_size s' = max_cache_size s \<Longrightarrow> max_cache_entries s' = max_cache_entries s \<Longrightarrow> corpus s' = corpus s \<Longrightarrow> sized_ok s'"
  by (simp add: sized_ok_def)

lemma make_room_sized:
  assumes "make_room below junk n tid s = Some (Inr (tid', s'))" and "bounded_rng below" and "cache_ok s" and "sized_ok s"
    and "\<exists>q < length (queue_buf (corpus s)). n = qlen s q"
  shows "sized_ok s'"
proof -
  have "make_room below junk n tid s = Some x \<Longrightarrow> bounded_rng below \<Longrightarrow> cache_ok s \<Longrightarrow> sized_ok s \<Longrightarrow>
      \<exists>q < length (queue_buf (corpus s)). n = qlen s q \<Longrightarrow> case x of Inl e \<Rightarrow> True | Inr (t, s') \<Rightarrow> sized_ok s'" for x
  proof (induction rule: make_room.raw_induct [rotated 1, consumes 1, case_names step])
    case (step mr below junk n tid s x)
    show ?case
    proof (cases "cache_full n s")
      case False
      then show ?thesis using step(2,5) by auto
    next
      case True
      obtain q where q: "q < length (queue_buf (corpus s))" "n = qlen s q" using step(6) by blast
      obtain y where y: "pick_victim below (learn_entries junk n s) = Some y"
        and rest: "(case y of Inl e \<Rightarrow> Some (Inl e) | Inr (tid, s) \<Rightarrow> mr below junk n tid (evict tid s)) = Some x"
        using step(2) True by (auto simp: bind_eq_Some_conv)
      obtain t s1 where t: "y = Inr (t, s1)" "cache_ok (evict t s1)" "only_evicts s (evict t s1)" "same_cache (learn_entries junk n s) s1"
        using evict_turn [OF y step(3,4)] by blast
      have "mr below junk n t (evict t s1) = Some x" using rest t(1) by simp
      moreover have "sized_ok (evict t s1)"
      proof (rule sized_ok_entries)
        show "sized_ok (learn_entries junk n s)" using sized_learn [OF step(4,5) q(1)] True q(2) by simp
        show "max_cache_entries (evict t s1) = max_cache_entries (learn_entries junk n s)"
          using t(4) by (simp add: evict_def same_cache_fields split: option.split)
      qed (use t(3) in \<open>simp_all add: only_evicts_def\<close>)
      moreover have "\<exists>q < length (queue_buf (corpus (evict t s1))). n = qlen (evict t s1) q"
        using step(6) t(3) by (simp add: only_evicts_def)
      ultimately show ?thesis using step(1,3) t(2) by blast
    qed
  qed
  then show ?thesis using assms by fastforce
qed


lemma get_sized:
  assumes "queue_testcase_get below heap junk q s = Some (Inr (b, s'))" and "bounded_rng below" and "cache_ok s" and "sized_ok s"
    and "q < length (queue_buf (corpus s))" and "tc_buf s q = None" and "max_cache_size s \<noteq> 0"
  shows "sized_ok s'"
proof -
  obtain y where y: "make_room below junk (qlen s q) (max_cache_count s) s = Some y"
    using assms(1,6,7) by (auto simp: queue_testcase_get_def bind_eq_Some_conv)
  obtain t s1 where t: "y = Inr (t, s1)" "only_evicts s s1"
    using make_room_SomeD [OF y assms(2,3) start_ok_max] by blast
  have z: "sized_ok s1" using make_room_sized [OF y [unfolded t(1)] assms(2-4)] assms(5) by blast
  obtain i where "s' = register q (of_nat i) (s1\<lparr>tc_buf := (tc_buf s1)(q \<mapsto> b)\<rparr>)"
    using assms(1,6,7) y t(1) by (auto simp: queue_testcase_get_def Let_def and_then_Inr_iff split: option.splits)
  then show ?thesis using z by (simp add: register_def Let_def sized_ok_def)
qed

lemma get_returns:
  assumes "bounded_rng below" and "fair below" and "cache_ok s" and "sized_ok s" and "q < length (queue_buf (corpus s))"
  shows "\<exists>x. queue_testcase_get below heap junk q s = Some x"
proof -
  obtain y where "make_room below junk (qlen s q) (max_cache_count s) s = Some y" using make_room_returns [OF assms] by blast
  then show ?thesis by (auto simp: queue_testcase_get_def Let_def split: option.split sum.split prod.split)
qed

lemma get_uncached:
  assumes "max_cache_size s = 0" and "cache_ok s"
  shows "case queue_testcase_get below heap junk q s of None \<Rightarrow> False | Some (Inl e) \<Rightarrow> e \<noteq> Bad_Access
    | Some (Inr (b, s')) \<Rightarrow> length b = unat (qlen s q) \<and> cache_ok s' \<and> corpus s' = corpus s \<and> max_cache_size s' = 0"
proof (cases "read_case True q s")
  case (Inl e)
  then have "e \<noteq> Bad_Access" using read_case_Inl [of True q s] by auto
  then show ?thesis using assms Inl by (auto simp: queue_testcase_get_def Let_def split: option.split)
next
  case (Inr d)
  have ok: "cache_ok (s\<lparr>testcase_buf := p\<rparr>)" "cache_ok (s\<lparr>splicecase_buf := p\<rparr>)" for p
  proof -
    have "live (s\<lparr>testcase_buf := p\<rparr>) = live s" "owner (s\<lparr>testcase_buf := p\<rparr>) = owner s"
      "live (s\<lparr>splicecase_buf := p\<rparr>) = live s" "owner (s\<lparr>splicecase_buf := p\<rparr>) = owner s"
      by (simp_all add: live_def owner_def fun_eq_iff)
    then show "cache_ok (s\<lparr>testcase_buf := p\<rparr>)" "cache_ok (s\<lparr>splicecase_buf := p\<rparr>)"
      using assms(2) by (auto simp: cache_ok_def counters_ok_def buffers_ok_def subset_iff dom_def)
  qed
  show ?thesis using assms Inr read_case_InrD [OF Inr] ok by (auto simp: queue_testcase_get_def Let_def split: option.split)
qed

lemma get_case_ok:
  assumes "env_ok E" and "q < length (queue_buf C)"
  shows "ensures (fair (hv_below E)) C (get_case E q) (\<lambda>b. length b = unat (len (entry C q)))"
  unfolding ensures_def
proof (intro allI impI)
  fix s :: "'a tcache" assume s: "cache_inv C s"
  have rng: "bounded_rng (hv_below E)" using assms(1) by (simp add: env_ok_def)
  have c: "cache_ok s" "corpus s = C" "max_cache_size s = 0 \<or> sized_ok s" using s by (simp_all add: cache_inv_def)
  let ?x = "queue_testcase_get (hv_below E) (hv_heap E) (hv_junk E) q s"
  have "case ?x of None \<Rightarrow> \<not> fair (hv_below E) | Some (Inl e) \<Rightarrow> e \<noteq> Bad_Access
    | Some (Inr (b, s')) \<Rightarrow> length b = unat (len (entry C q)) \<and> cache_inv C s'"
  proof (cases "max_cache_size s = 0")
    case True
    show ?thesis using get_uncached [OF True c(1), where below = "hv_below E" and heap = "hv_heap E" and junk = "hv_junk E" and q = q] c(2)
      by (auto simp: cache_inv_def split: option.splits sum.splits)
  next
    case m: False
    then have z: "sized_ok s" using c(3) by simp
    show ?thesis
    proof (cases "tc_buf s q")
      case (Some b)
      then have "length b = unat (qlen s q)" using c(1) unfolding cache_ok_def buffers_ok_def by blast
      then show ?thesis using m Some s c(2) by (simp add: queue_testcase_get_def)
    next
      case None
      show ?thesis
      proof (cases ?x)
        case None
        then show ?thesis using get_returns [OF rng _ c(1) z, where q = q and heap = "hv_heap E" and junk = "hv_junk E"] assms(2) c(2) by auto
      next
        case (Some y)
        have "(\<exists>e. y = Inl (Cache_Stop e)) \<or> (\<exists>b s' d. y = Inr (b, s') \<and> cache_ok s' \<and> held_bytes s' < unat (max_cache_size s') \<and>
     only_evicts (s\<lparr>tc_buf := (tc_buf s)(q \<mapsto> b)\<rparr>) s' \<and> tc_buf s' q = Some b \<and>
     disk s (fname (entry (corpus s) q)) = Some d \<and> b = take (unat (qlen s q)) d)"
          by (rule get_miss [OF c(1) _ None m rng Some]) (use assms(2) c(2) in simp)
        then show ?thesis
        proof (elim disjE exE conjE)
          fix e assume "y = Inl (Cache_Stop e)"
          then show ?thesis using Some by simp
        next
          fix b s' d assume y: "y = Inr (b, s')" and ok: "cache_ok s'" "tc_buf s' q = Some b"
            and o: "only_evicts (s\<lparr>tc_buf := (tc_buf s)(q \<mapsto> b)\<rparr>) s'"
          have "sized_ok s'" by (rule get_sized [OF Some [unfolded y] rng c(1) z _ None m]) (use assms(2) c(2) in simp)
          moreover have "corpus s' = C" using o c(2) by (simp add: only_evicts_def)
          moreover have "length b = unat (qlen s' q)" using ok unfolding cache_ok_def buffers_ok_def by blast
          ultimately show ?thesis using Some y ok(1) by (simp add: cache_inv_def)
        qed
      qed
    qed
  qed
  then show "case get_case E q s of None \<Rightarrow> \<not> fair (hv_below E) | Some (Inl e) \<Rightarrow> e \<noteq> Bad_Access
    | Some (Inr (b, s')) \<Rightarrow> length b = unat (len (entry C q)) \<and> cache_inv C s'"
    by (simp add: get_case_def)
qed


section \<open>The other test case\<close>

definition splice_target :: "queue_state \<Rightarrow> nat \<Rightarrow> bool" where
  "splice_target C q \<longleftrightarrow> q < length (queue_buf C) \<and> queue_cur C \<noteq> Some q \<and> \<not> len (entry C q) < 4"

lemma splice_target_exists:
  assumes "splice_counted C" and "1 < ready_for_splicing_count C"
  shows "\<exists>q. splice_target C q"
proof -
  let ?A = "{q. q < length (queue_buf C) \<and> 4 < unat (len (entry C q))}"
  have "\<not> card ?A \<le> Suc 0" using assms by (simp add: splice_counted_def word_less_nat_alt)
  moreover have "finite ?A" by simp
  ultimately obtain p q where "p \<in> ?A" "q \<in> ?A" "p \<noteq> q" using card_le_Suc0_iff_eq [of ?A] by blast
  then show ?thesis by (cases "queue_cur C = Some p") (auto simp: splice_target_def word_less_nat_alt)
qed

lemma pick_other_result:
  assumes "pick_other below s = Some x" and "bounded_rng below" and "queue_buf (corpus s) \<noteq> []" and "length (queue_buf (corpus s)) < 2 ^ 32"
  shows "\<exists>q r. x = Inr (q, s\<lparr>prng := r\<rparr>) \<and> splice_target (corpus s) q"
  using assms
proof (induction rule: pick_other.raw_induct [rotated 1, consumes 1, case_names step])
  case (step po below s x)
  obtain tid r where t: "below (prng s) (of_nat (length (queue_buf (corpus s)))) = Some (tid, r)"
    using step(2) by (auto simp: bind_eq_Some_conv)
  have l: "unat tid < length (queue_buf (corpus s))"
    using bounded_rng.below_unat [OF step(3) t] step(4,5) by simp
  show ?case
  proof (cases "queue_cur (corpus s) = Some (unat tid) \<or> qlen s (unat tid) < 4")
    case True
    then have "po below (s\<lparr>prng := r\<rparr>) = Some x" using step(2) t l by (simp add: Let_def not_le)
    from step(1) [OF this step(3)] step(4,5) show ?thesis by simp
  next
    case False
    then have "x = Inr (unat tid, s\<lparr>prng := r\<rparr>)" using step(2) t l by (auto simp: Let_def)
    then show ?thesis using False l by (auto simp: splice_target_def)
  qed
qed

lemma pick_other_drawn:
  assumes "drawn below (of_nat (length (queue_buf C))) (of_nat q) r" and "bounded_rng below" and "splice_target C q"
    and "length (queue_buf C) < 2 ^ 32" and "corpus s = C"
  shows "pick_other below (s\<lparr>prng := r\<rparr>) \<noteq> None"
  using assms(1)
proof (induction rule: drawn.induct)
  case (now r r')
  have "unat (of_nat q :: u32) = q" using assms(3,4) by (simp add: splice_target_def)
  then show ?case using now assms(3,5) by (subst pick_other.simps) (simp add: Let_def splice_target_def)
next
  case (later r j r')
  then show ?case using assms(5) by (subst pick_other.simps) (simp add: Let_def)
qed

lemma pick_other_ok:
  assumes "env_ok E" and "splice_counted C" and "1 < ready_for_splicing_count C"
  shows "ensures (fair (hv_below E)) C (pick_other (hv_below E)) (splice_target C)"
  unfolding ensures_def
proof (intro allI impI)
  fix s :: "'a tcache" assume s: "cache_inv C s"
  then have c: "corpus s = C" by (simp add: cache_inv_def)
  have rng: "bounded_rng (hv_below E)" using assms(1) by (simp add: env_ok_def)
  obtain q where q: "splice_target C q" using splice_target_exists [OF assms(2,3)] by blast
  have n: "queue_buf C \<noteq> []" "length (queue_buf C) < 2 ^ 32" using q assms(2) by (auto simp: splice_target_def splice_counted_def)
  show "case pick_other (hv_below E) s of None \<Rightarrow> \<not> fair (hv_below E) | Some (Inl e) \<Rightarrow> e \<noteq> Bad_Access
    | Some (Inr (x, s')) \<Rightarrow> splice_target C x \<and> cache_inv C s'"
  proof (cases "pick_other (hv_below E) s")
    case None
    have "\<not> fair (hv_below E)"
    proof
      assume "fair (hv_below E)"
      then have "drawn (hv_below E) (of_nat (length (queue_buf C))) (of_nat q) (prng s)"
        using q n by (simp add: fair_def splice_target_def word_less_nat_alt)
      from pick_other_drawn [OF this rng q n(2) c] None show False by simp
    qed
    then show ?thesis using None by simp
  next
    case (Some x)
    then show ?thesis using pick_other_result [OF Some rng] n c s by auto
  qed
qed

section \<open>One turn\<close>

lemma havoc_splice_ok:
  assumes "env_ok E" and "fits out" and "splice_counted C" and "1 < ready_for_splicing_count C"
  shows "keeps_fit E C out (havoc_splice E r out)"
proof -
  have "keeps_fit E C out (if 2 \<le> size32 out \<and> odd r \<or> max_file \<le> size32 out + HAVOC_BLK_XL
      then splice_over E new out else splice_insert E new out)"
    if q: "splice_target C q" and l: "length new = unat (len (entry C q))" for q new
  proof -
    have n: "4 \<le> length new" "length new \<le> MAX_FILE"
      using q l assms(3) by (auto simp: splice_target_def splice_counted_def word_less_nat_alt)
    show ?thesis
      using splice_over_ok [OF assms(1,2) n] splice_insert_ok [OF assms(1,2) n] room_for_block [OF assms(2)]
      by (auto simp: not_le)
  qed
  note branch = this
  show ?thesis
    unfolding havoc_splice_def
    by (rule ensures_chain [OF pick_other_ok [OF assms(1,3,4)]], rule ensures_chain [OF get_case_ok [OF assms(1)]])
      (use branch in \<open>auto simp: splice_target_def\<close>)
qed

lemma r_max_value:
  "unat (r_max E s) = 60 + (if extras (hv_dict E) \<noteq> [] then 4 else 0) + (if a_extras (hv_dict E) \<noteq> [] then 4 else 0) +
     (if expand_havoc E \<and> 1 < ready_for_splicing_count (corpus s) then 4 else 0) +
     (if idle E \<and> 1 < ready_for_splicing_count (corpus s) then 4 else 0)"
  by (simp add: r_max_def MAX_HAVOC_ENTRY_def)

lemma havoc_default_ok:
  assumes "env_ok E" and "fits out" and "splice_counted C" and r: "unat r < unat (r_max E s)" "corpus s = C" "\<not> r \<le> MAX_HAVOC_ENTRY"
  shows "keeps_fit E C out (havoc_default E r out)"
proof -
  define x where "x = r - (MAX_HAVOC_ENTRY + 1)"
  have "60 \<le> unat r" using r(3) by (simp add: MAX_HAVOC_ENTRY_def word_le_nat_alt)
  then have x: "unat x = unat r - 60" by (simp add: x_def MAX_HAVOC_ENTRY_def unat_sub_u32)
  have y: "unat (x - 4) = unat x - 4" if "\<not> x < 4" using that by (simp add: word_less_nat_alt unat_sub_u32)
  let ?toks = "extras (hv_dict E)" let ?autos = "map ae_data (a_extras (hv_dict E))"
  have lens: "length ?toks < 2 ^ 32" "length ?autos < 2 ^ 32" "\<forall>tok \<in> set ?toks. length tok \<le> MAX_FILE"
    "\<forall>tok \<in> set ?autos. length tok \<le> MAX_FILE"
    using assms(1) by (auto simp: env_ok_def)
  have sp: "keeps_fit E C out (havoc_splice E z out)" if "1 < ready_for_splicing_count C" for z
    by (rule havoc_splice_ok [OF assms(1-3) that])
  have ready: "1 < ready_for_splicing_count C"
    if "(if ?toks \<noteq> [] then 4 else 0) + (if a_extras (hv_dict E) \<noteq> [] then 4 else 0) \<le> unat x"
  proof (rule ccontr)
    assume "\<not> 1 < ready_for_splicing_count C"
    then have "unat (r_max E s) = 60 + (if ?toks \<noteq> [] then 4 else 0) + (if a_extras (hv_dict E) \<noteq> [] then 4 else 0)"
      using r(2) by (simp add: r_max_value)
    then show False using that r(1) x \<open>60 \<le> unat r\<close> by simp
  qed
  define z where "z = (if ?toks \<noteq> [] then x - 4 else x)"
  have late: "1 < ready_for_splicing_count C" if "\<not> (?toks \<noteq> [] \<and> x < 4)" "\<not> (?autos \<noteq> [] \<and> z < 4)"
  proof (rule ready)
    show "(if ?toks \<noteq> [] then 4 else 0) + (if a_extras (hv_dict E) \<noteq> [] then 4 else 0) \<le> unat x"
      using that y by (auto simp: z_def word_less_nat_alt split: if_splits)
  qed
  have two: "w < 2 \<Longrightarrow> w < 4" for w :: u32 by (simp add: word_less_nat_alt)
  show ?thesis
    unfolding havoc_default_def Let_def x_def [symmetric] z_def [symmetric]
    by (intro ensures_if havoc_token_over_ok havoc_token_insert_ok sp late assms(1,2) lens) (auto dest: two)
qed

lemma havoc_mutate_ok:
  assumes "env_ok E" and "fits out" and "splice_counted C" and "unat r < unat (r_max E s)" "corpus s = C"
  shows "keeps_fit E C out (havoc_mutate E r out)"
  unfolding havoc_mutate_def
  by (intro ensures_if havoc_default_ok [where s = s] havoc_flip_bit_ok havoc_interesting8_ok havoc_interesting16_ok
    havoc_interesting32_ok havoc_arith8_ok havoc_arith16_ok havoc_arith32_ok havoc_rand8_ok havoc_clone_ok
    havoc_insert_const_ok havoc_overwrite_copy_ok havoc_overwrite_const_ok havoc_delete_ok assms)

lemma ensures_cong:
  "(\<And>s. cache_inv C s \<Longrightarrow> m s = m' s) \<Longrightarrow> ensures tot C m' P \<Longrightarrow> ensures tot C m P"
  by (simp add: ensures_def)

lemma custom_havoc_ok:
  assumes "env_ok E" and "fits out" and "set cs \<subseteq> set (hv_custom E)"
  shows "ensures (fair (hv_below E)) C (custom_havoc E k cs out) fits"
  using assms(2,3)
proof (induction cs arbitrary: out)
  case Nil
  then show ?case by (simp add: ensures_ret)
next
  case (Cons c cs)
  obtain prob f where c: "c = (prob, f)" by (cases c)
  have l: "length new \<le> MAX_FILE" if "f k out = Some new" for new
  proof -
    have "\<forall>(p, f) \<in> set (hv_custom E). \<forall>k out new. f k out = Some new \<longrightarrow> length new \<le> MAX_FILE"
      using assms(1) by (simp add: env_ok_def)
    moreover have "(prob, f) \<in> set (hv_custom E)" using Cons.prems(2) c by simp
    ultimately show ?thesis using that by blast
  qed
  have "ensures (fair (hv_below E)) C
      (case f k out of None \<Rightarrow> stop (Cache_Stop (FATAL ''Error in custom_havoc''))
       | Some new \<Rightarrow> if 0 < length new then chain (allocate E (size32 new)) (\<lambda>_. custom_havoc E k cs new)
                     else custom_havoc E k cs out) fits"
  proof (cases "f k out")
    case None
    then show ?thesis by (simp add: ensures_stop)
  next
    case (Some new)
    have "ensures (fair (hv_below E)) C (chain (allocate E (size32 new)) (\<lambda>_. custom_havoc E k cs new)) fits" if "0 < length new"
    proof -
      have "fits new" using l [OF Some] that by (simp add: fits_def)
      then show ?thesis using Cons.IH Cons.prems(2) by (intro ensures_chain [OF ensures_allocate]) simp
    qed
    then show ?thesis using Some Cons.IH [OF Cons.prems(1)] Cons.prems(2) by auto
  qed
  moreover have "ensures (fair (hv_below E)) C (custom_havoc E k cs out) fits"
    using Cons by simp
  ultimately show ?case
    unfolding c custom_havoc.simps by (intro ensures_chain [OF ensures_draw [OF assms(1)]] ensures_if) simp_all
qed

lemma havoc_step_ok:
  assumes "env_ok E" and "fits out" and "splice_counted C"
  shows "ensures (fair (hv_below E)) C (havoc_step E k out) fits"
  unfolding havoc_step_def
proof (rule ensures_chain [OF custom_havoc_ok [OF assms(1,2) order_refl]])
  fix out assume o: "fits out"
  have "ensures (fair (hv_below E)) C (chain (draw E (r_max E s0)) (\<lambda>r. havoc_mutate E r out)) fits"
    if s0: "corpus s0 = C" for s0
    by (rule ensures_chain [OF ensures_draw [OF assms(1)]], simp add: r_max_value,
        rule ensures_weaken [OF havoc_mutate_ok [OF assms(1) o assms(3) _ s0]], assumption, simp add: edited_def)
  then have turn: "cache_inv C s \<Longrightarrow> case chain (draw E (r_max E s)) (\<lambda>r. havoc_mutate E r out) s of None \<Rightarrow> \<not> fair (hv_below E)
      | Some (Inl e) \<Rightarrow> e \<noteq> Bad_Access | Some (Inr (x, s')) \<Rightarrow> fits x \<and> cache_inv C s'" for s
    unfolding ensures_def cache_inv_def by blast
  show "ensures (fair (hv_below E)) C (\<lambda>s. chain (draw E (r_max E s)) (\<lambda>r. havoc_mutate E r out) s) fits"
    unfolding ensures_def using turn by blast
qed

lemma havoc_stack_ok:
  assumes "env_ok E" and "fits out" and "splice_counted C"
  shows "ensures (fair (hv_below E)) C (havoc_stack E k i n out) fits"
  using assms(2)
proof (induction n arbitrary: i out)
  case 0
  then show ?case by (simp add: ensures_ret)
next
  case (Suc n)
  show ?case
    unfolding havoc_stack.simps by (rule ensures_chain [OF havoc_step_ok [OF assms(1) Suc.prems assms(3)] Suc.IH])
qed

lemma havoc_input_ok:
  assumes "env_ok E" and "fits out" and "splice_counted C"
  shows "ensures (fair (hv_below E)) C (havoc_input E k out) fits"
proof -
  have rng: "bounded_rng (hv_below E)" using assms(1) by (simp add: env_ok_def)
  have d: "ensures (fair (hv_below E)) C (draw E n) (\<lambda>x. True)" for n
    unfolding draw_def by (rule ensures_prng) (use below_total [OF rng] in auto)
  show ?thesis
    unfolding havoc_input_def by (rule ensures_chain [OF d havoc_stack_ok [OF assms]])
qed

section \<open>The stage\<close>

definition queue_ready :: "'r tcache \<Rightarrow> bool" where
  "queue_ready s \<longleftrightarrow> cache_inv (corpus s) s \<and> splice_counted (corpus s)"

text \<open>Saving an input keeps the cache consistent and the entries counted.\<close>

definition saves_ok :: "'r stage_env \<Rightarrow> bool" where
  "saves_ok S \<longleftrightarrow> (\<forall>k d s. queue_ready s \<longrightarrow> fits d \<longrightarrow> queue_ready (save S k d s))"

lemma ensures_at:
  assumes "\<And>C. splice_counted C \<Longrightarrow> ensures tot C m P" and "queue_ready s"
  shows "case m s of None \<Rightarrow> \<not> tot | Some (Inl e) \<Rightarrow> e \<noteq> Bad_Access
    | Some (Inr (x, s')) \<Rightarrow> P x \<and> queue_ready s' \<and> corpus s' = corpus s"
proof -
  have s: "splice_counted (corpus s)" "cache_inv (corpus s) s" using assms(2) by (simp_all add: queue_ready_def)
  have "case m s of None \<Rightarrow> \<not> tot | Some (Inl e) \<Rightarrow> e \<noteq> Bad_Access
    | Some (Inr (x, s')) \<Rightarrow> P x \<and> cache_inv (corpus s) s'"
    using assms(1) [OF s(1)] s(2) unfolding ensures_def by blast
  moreover have "corpus s' = corpus s \<and> queue_ready s'" if "cache_inv (corpus s) s'" for s'
    using that s(1) by (auto simp: cache_inv_def queue_ready_def)
  ultimately show ?thesis by (auto split: option.splits sum.splits)
qed

text \<open>What is left to run: the stage may be doubled as long as the score is at most the limit.\<close>

definition run_limit :: "'r stage_env \<Rightarrow> nat \<Rightarrow> nat" where
  "run_limit S perf = max perf (2 * (havoc_max_mult S * 100))"

lemma havoc_loop_done:
  "stage_max \<le> cur \<Longrightarrow> havoc_loop E S in_buf cur stage_max perf queued s f = Some (Inr (False, s, f))"
  by (subst havoc_loop.simps) simp

lemma havoc_loop_ok:
  assumes "env_ok E" and "fair (hv_below E)" and "saves_ok S" and "fits in_buf"
    and "queue_ready s" and "0 < perf" and "cur \<le> stage_max"
  shows "\<exists>x. havoc_loop E S in_buf cur stage_max perf queued s f = Some x \<and>
    (case x of Inl e \<Rightarrow> e \<noteq> Bad_Access
     | Inr (ab, s', f') \<Rightarrow> queue_ready s' \<and> (\<exists>ds. runs f' = runs f @ ds \<and> (\<forall>d \<in> set ds. fits d) \<and>
         perf * (cur + length ds) \<le> stage_max * run_limit S perf))"
  using assms(5-7)
proof (induction "(run_limit S 0 + 1 - perf, stage_max - cur)" arbitrary: cur stage_max perf queued s f rule: wf_induct_rule [OF wf_lex_prod [OF wf_less_than wf_less_than]])
  case 1
  have perf: "0 < perf" and ready: "queue_ready s" and le: "cur \<le> stage_max" by fact+
  show ?case
  proof (cases "stage_max \<le> cur")
    case True
    have "perf * cur \<le> stage_max * run_limit S perf"
      using le by (metis mult.commute mult_le_mono run_limit_def max.cobounded1)
    then show ?thesis using True ready by (simp add: havoc_loop_done)
  next
    case False
    have inp: "case havoc_input E (length (runs f)) in_buf s of None \<Rightarrow> \<not> fair (hv_below E) | Some (Inl e) \<Rightarrow> e \<noteq> Bad_Access
      | Some (Inr (x, s')) \<Rightarrow> fits x \<and> queue_ready s' \<and> corpus s' = corpus s"
      by (rule ensures_at [OF havoc_input_ok [OF assms(1,4)] ready])
    show ?thesis
    proof (cases "havoc_input E (length (runs f)) in_buf s")
      case None
      then show ?thesis using inp assms(2) by simp
    next
      case (Some y)
      show ?thesis
      proof (cases y)
        case (Inl e)
        then show ?thesis using Some inp False by (subst havoc_loop.simps) simp
      next
        case (Inr z)
        obtain out s1 where z: "z = (out, s1)" by (cases z)
        have o: "fits out" "queue_ready s1" using inp Some Inr z by simp_all
        obtain abandon f1 where c: "common_fuzz_stuff (st_run S) out f = (abandon, f1)" by (cases "common_fuzz_stuff (st_run S) out f")
        have f1: "runs f1 = runs f @ [out]" using common_fuzz_stuff_runs [of "st_run S" out f] c by simp
        have one: "perf * (cur + 1) \<le> stage_max * run_limit S perf"
          using False by (intro order_trans [OF mult_le_mono [of perf "run_limit S perf" "cur + 1" stage_max]]) (simp_all add: run_limit_def mult.commute)
        define s2 where "s2 = save S (length (runs f)) out s1"
        have s2: "queue_ready s2" using assms(3) o by (simp add: saves_ok_def s2_def)
        define more where "more \<longleftrightarrow> queued_paths s2 \<noteq> queued \<and> perf \<le> havoc_max_mult S * 100"
        define sm p where "sm = (if more then stage_max * 2 else stage_max)" and "p = (if more then perf * 2 else perf)"
        have unf: "havoc_loop E S in_buf cur stage_max perf queued s f =
            (if abandon then Some (Inr (True, s1, f1))
             else if \<not> hv_alloc E (length in_buf) then Some (Inl (Cache_Stop (PFATAL ''alloc'')))
             else havoc_loop E S in_buf (cur + 1) sm p (queued_paths s2) s2 f1)"
          using False Some Inr z c
          by (subst havoc_loop.simps) (simp add: Let_def s2_def [symmetric] more_def [symmetric] sm_def p_def)
        show ?thesis
        proof (cases "abandon \<or> \<not> hv_alloc E (length in_buf)")
          case True
          then show ?thesis using unf o f1 one by auto
        next
          case go: False
          have rank: "run_limit S 0 + 1 - p < run_limit S 0 + 1 - perf \<or> p = perf \<and> sm - (cur + 1) < stage_max - cur"
            using perf False by (auto simp: p_def sm_def more_def run_limit_def)
          have "\<exists>x. havoc_loop E S in_buf (cur + 1) sm p (queued_paths s2) s2 f1 = Some x \<and>
    (case x of Inl e \<Rightarrow> e \<noteq> Bad_Access
     | Inr (ab, s', f') \<Rightarrow> queue_ready s' \<and> (\<exists>ds. runs f' = runs f1 @ ds \<and> (\<forall>d \<in> set ds. fits d) \<and>
         p * (cur + 1 + length ds) \<le> sm * run_limit S p))"
            by (rule "1.hyps") (use rank s2 perf False in \<open>auto simp: p_def sm_def\<close>)
          then obtain x where x: "havoc_loop E S in_buf (cur + 1) sm p (queued_paths s2) s2 f1 = Some x"
            "case x of Inl e \<Rightarrow> e \<noteq> Bad_Access
     | Inr (ab, s', f') \<Rightarrow> queue_ready s' \<and> (\<exists>ds. runs f' = runs f1 @ ds \<and> (\<forall>d \<in> set ds. fits d) \<and>
         p * (cur + 1 + length ds) \<le> sm * run_limit S p)" by blast
          have b: "perf * (cur + 1 + n) \<le> stage_max * run_limit S perf" if "p * (cur + 1 + n) \<le> sm * run_limit S p" for n
            using that by (auto simp: p_def sm_def more_def run_limit_def max_def split: if_splits)
          have "case x of Inl e \<Rightarrow> e \<noteq> Bad_Access
     | Inr (ab, s', f') \<Rightarrow> queue_ready s' \<and> (\<exists>ds. runs f' = runs f @ ds \<and> (\<forall>d \<in> set ds. fits d) \<and>
         perf * (cur + length ds) \<le> stage_max * run_limit S perf)"
          proof (cases x)
            case (Inl e)
            then show ?thesis using x(2) by simp
          next
            case (Inr w)
            obtain ab s' f' where w: "w = (ab, s', f')" by (cases w)
            obtain ds where ds: "queue_ready s'" "runs f' = runs f1 @ ds" "\<forall>d \<in> set ds. fits d"
              "p * (cur + 1 + length ds) \<le> sm * run_limit S p" using x(2) Inr w by auto
            show ?thesis using Inr w ds(1-3) f1 o(1) b [OF ds(4)]
              by (auto intro!: exI [of _ "out # ds"])
          qed
          then show ?thesis using unf go x(1) by auto
        qed
      qed
    qed
  qed
qed

section \<open>Splicing\<close>

text \<open>Both positions differ, and no byte outside them does.\<close>

definition diff_range :: "u8 list \<Rightarrow> u8 list \<Rightarrow> nat \<Rightarrow> nat \<Rightarrow> nat \<Rightarrow> bool" where
  "diff_range p q n a b \<longleftrightarrow> a \<le> b \<and> b < n \<and> p ! a \<noteq> q ! a \<and> p ! b \<noteq> q ! b \<and> (\<forall>i < n. p ! i \<noteq> q ! i \<longrightarrow> a \<le> i \<and> i \<le> b)"

lemma locate_diffs_cases:
  "(\<forall>i < n. p ! i = q ! i) \<and> locate_diffs p q n = (-1, -1) \<or> (\<exists>a b. locate_diffs p q n = (int a, int b) \<and> diff_range p q n a b)"
proof (induction n)
  case 0
  then show ?case by (simp add: locate_diffs_def)
next
  case (Suc n)
  have step: "locate_diffs p q (Suc n) = (case locate_diffs p q n of (f, l) \<Rightarrow>
      if p ! n \<noteq> q ! n then (if f = -1 then int n else f, int n) else (f, l))"
    by (simp add: locate_diffs_def)
  show ?case
  proof (cases "\<forall>i < n. p ! i = q ! i")
    case True
    then have "locate_diffs p q n = (-1, -1)" using Suc by (auto simp: diff_range_def)
    then show ?thesis using True unfolding step by (auto simp: diff_range_def less_Suc_eq)
  next
    case False
    then obtain a b where ab: "locate_diffs p q n = (int a, int b)" "diff_range p q n a b" using Suc by blast
    show ?thesis
    proof (cases "p ! n = q ! n")
      case True
      then have "diff_range p q (Suc n) a b" using ab(2) by (auto simp: diff_range_def less_Suc_eq)
      then show ?thesis using ab(1) True unfolding step by auto
    next
      case False
      then have "diff_range p q (Suc n) a n" using ab(2) by (auto simp: diff_range_def less_Suc_eq)
      then show ?thesis using ab(1) False unfolding step by auto
    qed
  qed
qed

text \<open>The spliced input: up to the split that of the entry, from there on the other test case from its
  start.\<close>

definition spliced :: "queue_state \<Rightarrow> u8 list \<Rightarrow> u8 list \<Rightarrow> bool" where
  "spliced C in_buf out \<longleftrightarrow> (\<exists>q new split a b. splice_target C q \<and> length new = unat (len (entry C q)) \<and>
     diff_range in_buf new (min (length in_buf) (length new)) a b \<and> a \<le> split \<and> split < b \<and>
     length out = length new \<and> out = take split in_buf @ take (length new - split) new)"

lemma splice_once_ok:
  assumes "env_ok E" and "splice_counted C" and "1 < ready_for_splicing_count C" and "length in_buf \<le> MAX_FILE"
    and "\<forall>n \<le> MAX_FILE. hv_alloc E n"
  shows "ensures (fair (hv_below E)) C (splice_once E in_buf) (\<lambda>r. case r of None \<Rightarrow> True | Some out \<Rightarrow> fits out \<and> spliced C in_buf out)"
    (is "ensures ?t C _ ?P")
proof -
  have "ensures ?t C (case locate_diffs in_buf new (min (length in_buf) (length new)) of (f_diff, l_diff) \<Rightarrow>
       if f_diff < 0 \<or> l_diff < 2 \<or> f_diff = l_diff then ret None
       else chain (draw E (word_of_int (l_diff - f_diff))) (\<lambda>x.
         let split_at = word_of_int f_diff + x
         in if \<not> hv_alloc E (length new) then stop Bad_Access
            else chain (grab in_buf 0 split_at) (\<lambda>head. chain (grab new 0 (size32 new - split_at)) (\<lambda>tail.
              chain (allocate E (size32 new)) (\<lambda>_. ret (Some (head @ tail))))))) ?P"
    if q: "splice_target C q" and l: "length new = unat (len (entry C q))" for q new
  proof -
    have n: "4 \<le> length new" "length new \<le> MAX_FILE"
      using q l assms(2) by (auto simp: splice_target_def splice_counted_def word_less_nat_alt)
    let ?m = "min (length in_buf) (length new)"
    consider "locate_diffs in_buf new ?m = (-1, -1)" | a b where "locate_diffs in_buf new ?m = (int a, int b)" "diff_range in_buf new ?m a b"
      using locate_diffs_cases [of ?m in_buf new] by blast
    then show ?thesis
    proof cases
      case 1
      then show ?thesis by (simp add: ensures_ret)
    next
      case (2 a b)
      have ab: "a \<le> b" "b < length in_buf" "b < length new" using 2(2) by (simp_all add: diff_range_def)
      show ?thesis
      proof (cases "b < 2 \<or> a = b")
        case True
        then show ?thesis using 2(1) by (auto simp: ensures_ret)
      next
        case False
        then have w: "word_of_int (int b - int a) = (of_nat (b - a) :: u32)" "a < b" using ab(1) by (simp_all add: of_nat_diff)
        have big: "length new < 2 ^ 32" "b < 2 ^ 32" using n(2) ab(3) by (simp_all add: MAX_FILE_def)
        have d: "unat (of_nat (b - a) :: u32) = b - a" using big by simp
        have "ensures ?t C (chain (grab in_buf 0 (word_of_int (int a) + x)) (\<lambda>head.
              chain (grab new 0 (size32 new - (word_of_int (int a) + x))) (\<lambda>tail.
                chain (allocate E (size32 new)) (\<lambda>_. ret (Some (head @ tail)))))) ?P"
          if x: "unat x < b - a" for x :: u32
        proof -
          define split where "split = a + unat x"
          have s: "unat (of_nat a + x) = split" "split < b" "a \<le> split"
            using x big w(2) by (simp_all add: unat_add_u32 split_def)
          have r: "unat (size32 new - (of_nat a + x)) = length new - split"
            using s ab(3) big by (simp add: unat_sub_u32)
          have "fits (take split in_buf @ take (length new - split) new)"
            using n s ab by (auto simp: fits_def)
          moreover have "spliced C in_buf (take split in_buf @ take (length new - split) new)"
            unfolding spliced_def
            by (rule exI [of _ q], rule exI [of _ new], rule exI [of _ split], rule exI [of _ a], rule exI [of _ b])
              (use q l 2(2) s ab in simp)
          ultimately show ?thesis
            using s r ab by (intro ensures_chain [OF ensures_allocate] ensures_chain [OF ensures_grab] ensures_ret) simp_all
        qed
        then show ?thesis
          using False 2(1) w d assms(5) n(2) by (simp add: Let_def) (rule ensures_chain [OF ensures_draw [OF assms(1)]]; simp)
      qed
    qed
  qed
  note attempt = this
  show ?thesis
    unfolding splice_once_def
    by (rule ensures_chain [OF pick_other_ok [OF assms(1-3)]], rule ensures_chain [OF get_case_ok [OF assms(1)]])
      (use attempt in \<open>simp_all add: splice_target_def\<close>)
qed

lemma splice_try_ok:
  assumes "env_ok E" and "splice_counted C" and "1 < ready_for_splicing_count C" and "length in_buf \<le> MAX_FILE"
    and "\<forall>n \<le> MAX_FILE. hv_alloc E n"
  shows "ensures (fair (hv_below E)) C (splice_try E in_buf n)
    (\<lambda>r. case r of None \<Rightarrow> True | Some (m, out) \<Rightarrow> m < n \<and> fits out \<and> spliced C in_buf out)"
proof (induction n)
  case 0
  then show ?case by (simp add: ensures_ret)
next
  case (Suc n)
  have "ensures (fair (hv_below E)) C (case r of None \<Rightarrow> splice_try E in_buf n | Some new \<Rightarrow> ret (Some (n, new)))
      (\<lambda>r. case r of None \<Rightarrow> True | Some (m, out) \<Rightarrow> m < Suc n \<and> fits out \<and> spliced C in_buf out)"
    if "case r of None \<Rightarrow> True | Some out \<Rightarrow> fits out \<and> spliced C in_buf out" for r
  proof (cases r)
    case None
    then show ?thesis by (simp, intro ensures_weaken [OF Suc]) (auto split: option.splits)
  next
    case (Some new)
    then show ?thesis using that by (simp add: ensures_ret)
  qed
  then show ?case
    unfolding splice_try.simps by (rule ensures_chain [OF splice_once_ok [OF assms]])
qed

lemma random_stages_ok:
  assumes "env_ok E" and "fair (hv_below E)" and "saves_ok S" and "length orig_in \<le> MAX_FILE" and "0 < perf"
    and "fits in_buf" and "queue_ready s" and alloc: "\<forall>n \<le> MAX_FILE. hv_alloc E n"
  shows "\<exists>x. random_stages E S orig_in perf left in_buf s f = Some x \<and>
    (case x of Inl e \<Rightarrow> e \<noteq> Bad_Access
     | Inr (ab, s', f') \<Rightarrow> queue_ready s' \<and> (\<exists>ds. runs f' = runs f @ ds \<and> (\<forall>d \<in> set ds. fits d)))"
  using assms(6,7)
proof (induction left arbitrary: in_buf s f rule: less_induct)
  case (less left)
  obtain x where x: "havoc_stage E S (SPLICE_CYCLES - left) perf in_buf s f = Some x"
    "case x of Inl e \<Rightarrow> e \<noteq> Bad_Access
     | Inr (ab, s', f') \<Rightarrow> queue_ready s' \<and> (\<exists>ds. runs f' = runs f @ ds \<and> (\<forall>d \<in> set ds. fits d) \<and>
         perf * (0 + length ds) \<le> havoc_stage_max S (SPLICE_CYCLES - left) perf * run_limit S perf)"
    using havoc_loop_ok [OF assms(1-3) less.prems assms(5) le0] unfolding havoc_stage_def by blast
  show ?case
  proof (cases x)
    case (Inl e)
    then show ?thesis using x by (subst random_stages.simps) simp
  next
    case (Inr w)
    obtain ab s1 f1 where w: "w = (ab, s1, f1)" by (cases w)
    obtain ds where ds: "queue_ready s1" "runs f1 = runs f @ ds" "\<forall>d \<in> set ds. fits d" using x(2) Inr w by auto
    have unf: "random_stages E S orig_in perf left in_buf s f =
       (if ab then Some (Inr (True, s1, f1))
        else if \<not> (use_splicing S \<and> 1 < ready_for_splicing_count (corpus s1) \<and> 4 \<le> length orig_in) then Some (Inr (False, s1, f1))
        else Option.bind (splice_try E orig_in left s1) (\<lambda>y. case y of
          Inl e \<Rightarrow> Some (Inl e)
        | Inr (None, s) \<Rightarrow> Some (Inr (False, s, f1))
        | Inr (Some (n, new), s) \<Rightarrow> random_stages E S orig_in perf n new s f1))"
      using x(1) Inr w by (subst random_stages.simps) simp
    show ?thesis
    proof (cases "ab \<or> \<not> (use_splicing S \<and> 1 < ready_for_splicing_count (corpus s1) \<and> 4 \<le> length orig_in)")
      case True
      then show ?thesis using unf ds by auto
    next
      case go: False
      then have r: "1 < ready_for_splicing_count (corpus s1)" by simp
      have c: "splice_counted (corpus s1)" "cache_inv (corpus s1) s1" using ds(1) by (simp_all add: queue_ready_def)
      have y: "case splice_try E orig_in left s1 of None \<Rightarrow> \<not> fair (hv_below E) | Some (Inl e) \<Rightarrow> e \<noteq> Bad_Access
        | Some (Inr (z, s')) \<Rightarrow> (case z of None \<Rightarrow> True | Some (m, out) \<Rightarrow> m < left \<and> fits out \<and> spliced (corpus s1) orig_in out) \<and>
            cache_inv (corpus s1) s'"
        using splice_try_ok [OF assms(1) c(1) r assms(4) alloc] c(2) unfolding ensures_def by blast
      have ready: "queue_ready s'" if "cache_inv (corpus s1) s'" for s'
        using that c(1) by (auto simp: queue_ready_def cache_inv_def)
      show ?thesis
      proof (cases "splice_try E orig_in left s1")
        case None
        then show ?thesis using y assms(2) by simp
      next
        case (Some v)
        show ?thesis
        proof (cases v)
          case (Inl e)
          then show ?thesis using unf go y Some by simp
        next
          case (Inr z)
          obtain t s2 where z: "z = (t, s2)" by (cases z)
          have s2: "queue_ready s2" using y Some Inr z by (intro ready) simp
          show ?thesis
          proof (cases t)
            case None
            then show ?thesis using unf go Some Inr z s2 ds by simp
          next
            case (Some p)
            obtain m new where p: "p = (m, new)" by (cases p)
            have m: "m < left" "fits new" using y \<open>splice_try E orig_in left s1 = Some v\<close> Inr z Some p by simp_all
            obtain u where u: "random_stages E S orig_in perf m new s2 f1 = Some u"
              "case u of Inl e \<Rightarrow> e \<noteq> Bad_Access
                | Inr (ab, s', f') \<Rightarrow> queue_ready s' \<and> (\<exists>ds. runs f' = runs f1 @ ds \<and> (\<forall>d \<in> set ds. fits d))"
              using less.IH [OF m s2] by blast
            have "random_stages E S orig_in perf left in_buf s f = Some u"
              using unf go \<open>splice_try E orig_in left s1 = Some v\<close> Inr z Some p u(1) by simp
            moreover have "case u of Inl e \<Rightarrow> e \<noteq> Bad_Access
                | Inr (ab, s', f') \<Rightarrow> queue_ready s' \<and> (\<exists>ds. runs f' = runs f @ ds \<and> (\<forall>d \<in> set ds. fits d))"
            proof (cases u)
              case (Inl e)
              then show ?thesis using u(2) by simp
            next
              case (Inr w)
              obtain ab s' f' where w: "w = (ab, s', f')" by (cases w)
              obtain es where "queue_ready s'" "runs f' = runs f1 @ es" "\<forall>d \<in> set es. fits d" using u(2) Inr w by auto
              then show ?thesis using Inr w ds(2,3) by (auto intro!: exI [of _ "ds @ es"])
            qed
            ultimately show ?thesis by blast
          qed
        qed
      qed
    qed
  qed
qed

section \<open>Properties\<close>

text \<open>
  C36: the random mutations are type safe. From a buffer of 1 to \<^verbatim>\<open>MAX_FILE\<close> bytes, a whole stack of
  mutations (bit flips, interesting values, arithmetic, blocks copied, inserted and deleted, tokens,
  parts of other test cases, stacked custom mutators) ends in another such buffer, or the program stops
  with a message; no step reads or writes outside a buffer, the queue is untouched and the cache of test
  cases stays consistent. It returns if every number is drawn sooner or later.
\<close>

theorem havoc_input_fits:
  assumes "env_ok E" and "queue_ready s" and "fits out"
  shows "case havoc_input E k out s of None \<Rightarrow> \<not> fair (hv_below E) | Some (Inl e) \<Rightarrow> e \<noteq> Bad_Access
    | Some (Inr (out', s')) \<Rightarrow> fits out' \<and> queue_ready s' \<and> corpus s' = corpus s"
  by (rule ensures_at [OF havoc_input_ok [OF assms(1,3)] assms(2)])





section \<open>Witnesses\<close>

definition long_entries :: queue_state where
  "long_entries = add_to_queue ''q/b'' 6 False 0 None (add_to_queue ''q/a'' 5 False 0 None (empty_queue 8))"

lemma long_entries: "queue_buf long_entries \<noteq> []" "length (queue_buf long_entries) = 2"
  "len (queue_buf long_entries ! 0) = 5" "len (queue_buf long_entries ! Suc 0) = 6"
  "ready_for_splicing_count long_entries = 2" "queue_cur long_entries = None"
  by (simp_all add: long_entries_def add_to_queue_def empty_queue_def Let_def upd_entry_def nth_append)

definition long_cache :: "nat tcache" where
  "long_cache = (empty_cache 7 3)\<lparr>corpus := long_entries,
     disk := (\<lambda>f. if f = ''q/a'' then Some [1, 2, 3, 4, 5] else Some [1, 9, 3, 4, 9, 9])\<rparr>"

definition plain_havoc :: "nat havoc_env" where
  "plain_havoc = \<lparr>hv_below = counting, hv_heap = \<lambda>n. Some (\<lambda>i. 0), hv_junk = None, hv_alloc = \<lambda>n. True, hv_cycle = 1, run_over10m = True,
     hv_dict = no_extras\<lparr>extras := [[1], [2, 3]]\<rparr>, hv_custom = [], expand_havoc = True, idle = False, havoc_stack_pow2 = 4\<rparr>"

definition plain_stage :: "nat stage_env" where
  "plain_stage = \<lparr>st_run = quiet_env, save = \<lambda>k d s. s, havoc_max_mult = 64, havoc_div = 1, doing_det = True, use_splicing = True\<rparr>"

lemma plain_havoc_ok: "env_ok plain_havoc"
  by (simp add: env_ok_def plain_havoc_def counting_bounded no_extras_def MAX_FILE_def)

lemma plain_stage_ok: "saves_ok plain_stage"
  by (simp add: saves_ok_def plain_stage_def)

lemma long_cache_ready: "queue_ready long_cache"
proof -
  have small: "unat (len (queue_buf long_entries ! q)) < MAX_FILE" "4 < unat (len (queue_buf long_entries ! q))" if "q < 2" for q
  proof -
    have "q = 0 \<or> q = Suc 0" using that by linarith
    then show "unat (len (queue_buf long_entries ! q)) < MAX_FILE" "4 < unat (len (queue_buf long_entries ! q))"
      using long_entries(3,4) by (auto simp: MAX_FILE_def)
  qed
  have "live long_cache = {}" by (auto simp: live_def long_cache_def empty_cache_def)
  then have "cache_ok long_cache"
    by (simp add: cache_ok_def counters_ok_def buffers_ok_def) (simp add: long_cache_def empty_cache_def)
  moreover have "sized_ok long_cache"
    using small(1) by (simp add: sized_ok_def long_cache_def empty_cache_def long_entries MAX_FILE_def)
  moreover have "{q. q < 2 \<and> 4 < unat (len (queue_buf long_entries ! q))} = {..<2}" using small(2) by auto
  ultimately show ?thesis
    using small(1) by (simp add: queue_ready_def cache_inv_def splice_counted_def long_cache_def long_entries)
qed

lemma plain_fair: "fair (hv_below plain_havoc)"
  by (simp add: plain_havoc_def counting_fair)

lemma plain_alloc: "\<forall>n \<le> MAX_FILE. hv_alloc plain_havoc n"
  by (simp add: plain_havoc_def)

lemma fits_ex: "fits [1, 2, 3, 4, 5]"
  by (simp add: fits_def MAX_FILE_def)

theorem havoc_input_fits_witness:
  "\<exists>x. havoc_input plain_havoc 0 [1, 2, 3, 4, 5] long_cache = Some x \<and> x \<noteq> Inl Bad_Access"
  using havoc_input_fits [OF plain_havoc_ok long_cache_ready fits_ex, of 0] plain_fair
  by (auto split: option.splits sum.splits)


lemma no_access:
  "\<exists>x. m = Some x \<and> (case x of Inl e \<Rightarrow> e \<noteq> Bad_Access | Inr y \<Rightarrow> P y) \<Longrightarrow> \<exists>x. m = Some x \<and> x \<noteq> Inl Bad_Access"
  by (elim exE conjE, rule exI, rule conjI, assumption) auto




end
