(* ===== verification/Saving.thy ===== *)
theory Saving
  imports Calibration
begin

text \<open>
  What becomes of an input after its run, \<^verbatim>\<open>save_if_interesting\<close> of
  \<^verbatim>\<open>src/afl-fuzz-bitmap.c\<close>: the frequency of its path, the file and the entry in the queue when the
  trace hits something new, with the calibration and the caching that follow, and the separate treatment of
  hangs and crashes. It joins the queue of \<open>Corpus\<close>, the maps of \<open>Bitmap\<close>, the cache of
  \<open>Testcase_Cache\<close> and the calibration of \<open>Calibration\<close>; the invariant \<open>sv_ok\<close> is the conjunction
  of theirs. How names of files are formatted is a parameter; times, the readme of the crashes and the command run on a
  crash are left out.
\<close>

section \<open>State\<close>

text \<open>\<open>sv_cal\<close> is the queue with its coverage maps and what calibration works on; \<open>sv_cache\<close> are the cache of
  test cases and the files on disk. Its \<open>corpus\<close> is the same queue: it is handed over with the call.\<close>

record 'r saver =
  sv_cal :: cal_state
  sv_cache :: "'r tcache"
  total_crashes :: u64
  unique_crashes :: u64
  total_tmouts :: u64
  unique_tmouts :: u64
  unique_hangs :: u64

text \<open>\<open>patient\<close> is the target run with \<^verbatim>\<open>hang_tmout\<close>. The three functions are the paths that are
  formatted for an entry of the queue (with what \<^verbatim>\<open>describe_op\<close> says for the given \<^verbatim>\<open>new_bits\<close>),
  a hang and a crash of the given number; \<open>can_write\<close> is whether such a file can be created and written.\<close>

record save_env =
  sv_env :: cal_env
  patient :: target
  hang_tmout :: u32
  queue_fn :: "nat \<Rightarrow> u8 \<Rightarrow> string"
  hang_fn :: "u64 \<Rightarrow> string"
  crash_fn :: "u64 \<Rightarrow> string"
  can_write :: "string \<Rightarrow> bool"
  sv_heap :: heap
  sv_now :: u64
  queue_cycle :: u64

type_synonym save_stop = "cache_stop + queue_stop"

abbreviation save_fatal :: "fatal \<Rightarrow> save_stop" where
  "save_fatal e \<equiv> Inl (Cache_Stop e)"

definition KEEP_UNIQUE_HANG :: u64 where "KEEP_UNIQUE_HANG = 500"
definition KEEP_UNIQUE_CRASH :: u64 where "KEEP_UNIQUE_CRASH = 10000"
definition N_FUZZ_SIZE :: u64 where "N_FUZZ_SIZE = 2097152"

abbreviation sv_queue :: "'r saver \<Rightarrow> queue_state" where
  "sv_queue s \<equiv> cal_queue (sv_cal s)"

definition set_queue :: "queue_state \<Rightarrow> 'r saver \<Rightarrow> 'r saver" where
  "set_queue k s = s\<lparr>sv_cal := (sv_cal s)\<lparr>cal_queue := k\<rparr>\<rparr>"

definition cache_view :: "'r saver \<Rightarrow> 'r tcache" where
  "cache_view s = (sv_cache s)\<lparr>corpus := sv_queue s\<rparr>"

text \<open>\<^verbatim>\<open>open\<close> with \<^verbatim>\<open>O_CREAT | O_EXCL\<close>, \<^verbatim>\<open>ck_write\<close>, \<^verbatim>\<open>close\<close>.\<close>

definition new_file :: "save_env \<Rightarrow> string \<Rightarrow> u8 list \<Rightarrow> 'r saver \<Rightarrow> save_stop + 'r saver" where
  "new_file E fn mem s =
    (if disk (sv_cache s) fn \<noteq> None \<or> \<not> can_write E fn then Inl (save_fatal (PFATAL ''Unable to create''))
     else Inr (s\<lparr>sv_cache := (sv_cache s)\<lparr>disk := (disk (sv_cache s))(fn \<mapsto> mem)\<rparr>\<rparr>))"

section \<open>Into the queue\<close>

text \<open>The frequency of the path, for the schedules that need it: the checksum, or 0.\<close>

definition fast_schedule :: "schedule \<Rightarrow> bool" where
  "fast_schedule p \<longleftrightarrow> sched_no FAST \<le> sched_no p \<and> sched_no p \<le> sched_no RARE"

definition count_path :: "save_env \<Rightarrow> 'r saver \<Rightarrow> u64 \<times> 'r saver" where
  "count_path E s =
    (let k = sv_queue s
     in if fast_schedule (power_schedule k)
        then let cksum = hash64 (ca_target (sv_env E)) (trace_bits k); i = unat (cksum mod N_FUZZ_SIZE);
                 n = n_fuzz k
             in (cksum, set_queue (k\<lparr>n_fuzz := (if n ! i < 0xFFFFFFFF then n[i := n ! i + 1] else n)\<rparr>) s)
        else (0, s))"

definition zero_calibration :: calibration where
  "zero_calibration = \<lparr>exec_cksum = 0, cal_failed = 0, has_new_cov = False, bitmap_size = 0, handicap = 0\<rparr>"

text \<open>The new entry, up to its calibration.\<close>

definition enqueue :: "save_env \<Rightarrow> u8 list \<Rightarrow> u8 \<Rightarrow> u64 \<Rightarrow> 'r saver \<Rightarrow> save_stop + 'r saver" where
  "enqueue E mem nb cksum s =
    (let q = length (queue_buf (sv_queue s)); fn = queue_fn E q nb
     in and_then (new_file E fn mem s) (\<lambda>s.
          let k = add_to_queue fn (of_nat (length mem)) False (sv_now E) (Some mem) (sv_queue s);
              k = (if cksum \<noteq> 0
                   then (upd_entry q (\<lambda>e. e\<lparr>n_fuzz_entry := unat (cksum mod N_FUZZ_SIZE)\<rparr>) k)
                     \<lparr>n_fuzz := (n_fuzz k)[unat (cksum mod N_FUZZ_SIZE) := 1]\<rparr>
                   else k);
              c = (sv_cal s)\<lparr>cal_queue := k, cal := (cal (sv_cal s))(q := zero_calibration
                    \<lparr>has_new_cov := nb = 2, exec_cksum := hash64 (ca_target (sv_env E)) (trace_bits k)\<rparr>),
                  queued_with_cov := (if nb = 2 then queued_with_cov (sv_cal s) + 1 else queued_with_cov (sv_cal s))\<rparr>
          in Inr (s\<lparr>sv_cal := c\<rparr>)))"

definition keep_case :: "save_env \<Rightarrow> u8 list \<Rightarrow> u8 \<Rightarrow> u64 \<Rightarrow> 'r saver \<Rightarrow> save_stop + 'r saver" where
  "keep_case E mem nb cksum s =
    (let q = length (queue_buf (sv_queue s))
     in and_then (enqueue E mem nb cksum s) (\<lambda>s.
        and_then (calibrate_case (sv_env E) q mem (queue_cycle E - 1) (sv_cal s)) (\<lambda>(res, c).
          let s = s\<lparr>sv_cal := c\<rparr>
          in if res = FSRV_RUN_ERROR then Inl (save_fatal (FATAL ''Unable to execute target application''))
             else if max_cache_size (sv_cache s) = 0 then Inr s
             else case queue_testcase_store_mem (sv_heap E) q mem (cache_view s) of
                    Inl e \<Rightarrow> Inl (Inl e)
                  | Inr t \<Rightarrow> Inr (s\<lparr>sv_cache := t\<rparr>))))"

section \<open>Hangs and crashes\<close>

text \<open>The trace is reduced to hit and not hit and looked up in one of the two other maps.\<close>

definition unseen :: "virgin_map \<Rightarrow> bool \<Rightarrow> 'r saver \<Rightarrow> bool \<times> 'r saver" where
  "unseen m classified s =
    (let k = sv_queue s
     in if non_instrumented_mode k then (True, s)
        else case has_new_bits m (simplify_trace (if classified then k else classify_counts k)) of
               (r, k) \<Rightarrow> (r \<noteq> 0, set_queue k s))"

definition save_crash :: "save_env \<Rightarrow> u8 list \<Rightarrow> bool \<Rightarrow> 'r saver \<Rightarrow> save_stop + 'r saver" where
  "save_crash E mem classified s =
    (let s = s\<lparr>total_crashes := total_crashes s + 1\<rparr>
     in if KEEP_UNIQUE_CRASH \<le> unique_crashes s then Inr s
        else case unseen Virgin_Crash classified s of (new, s) \<Rightarrow>
          if \<not> new then Inr s
          else new_file E (crash_fn E (unique_crashes s)) mem (s\<lparr>unique_crashes := unique_crashes s + 1\<rparr>))"

definition rerun :: "save_env \<Rightarrow> u8 list \<Rightarrow> 'r saver \<Rightarrow> cache_stop + (outcome \<times> 'r saver)" where
  "rerun E mem s = and_then (write_to_testcase (ca_hooks (sv_env E)) mem (cal_run (sv_cal s))) (\<lambda>r.
     let o1 = exec (patient E) (ran r) (input_of r);
         c = (sv_cal s)\<lparr>cal_run := r\<lparr>ran := ran r + 1\<rparr>, cal_queue := classify_counts ((sv_queue s)\<lparr>trace_bits := run_trace o1\<rparr>)\<rparr>
     in Inr (o1, s\<lparr>sv_cal := c\<rparr>))"

definition save_hang :: "save_env \<Rightarrow> u8 list \<Rightarrow> bool \<Rightarrow> 'r saver \<Rightarrow> save_stop + 'r saver" where
  "save_hang E mem classified s =
    (let s = s\<lparr>total_tmouts := total_tmouts s + 1\<rparr>
     in if KEEP_UNIQUE_HANG \<le> unique_hangs s then Inr s
        else case unseen Virgin_Tmout classified s of (new, s) \<Rightarrow>
          if \<not> new then Inr s
          else
            let s = s\<lparr>unique_tmouts := unique_tmouts s + 1\<rparr>;
                keep = (\<lambda>s. new_file E (hang_fn E (unique_hangs s)) mem (s\<lparr>unique_hangs := unique_hangs s + 1\<rparr>))
            in if exec_tmout (sv_env E) < hang_tmout E
               then case rerun E mem s of
                      Inl e \<Rightarrow> Inl (Inl e)
                    | Inr (o1, s) \<Rightarrow>
                        if \<not> run_stop_soon o1 \<and> run_result o1 = FSRV_RUN_CRASH
                        then save_crash E mem (classified \<or> \<not> non_instrumented_mode (sv_queue s)) s
                        else if run_stop_soon o1 \<or> run_result o1 \<noteq> FSRV_RUN_TMOUT then Inr s
                        else keep s
               else keep s)"

text \<open>The \<^verbatim>\<open>switch\<close>.\<close>

definition save_fault :: "save_env \<Rightarrow> u8 list \<Rightarrow> fsrv_run_result \<Rightarrow> bool \<Rightarrow> 'r saver \<Rightarrow> save_stop + 'r saver" where
  "save_fault E mem fault classified s =
    (case fault of
       FSRV_RUN_TMOUT \<Rightarrow> save_hang E mem classified s
     | FSRV_RUN_CRASH \<Rightarrow> save_crash E mem classified s
     | FSRV_RUN_ERROR \<Rightarrow> Inl (save_fatal (FATAL ''Unable to execute target application''))
     | _ \<Rightarrow> Inr s)"

section \<open>save_if_interesting\<close>

text \<open>The trace of the run is in \<open>trace_bits\<close> of the queue. The result says whether the input was added
  to the queue.\<close>

definition save_if_interesting :: "save_env \<Rightarrow> u8 list \<Rightarrow> fsrv_run_result \<Rightarrow> 'r saver \<Rightarrow> save_stop + (bool \<times> 'r saver)" where
  "save_if_interesting E mem fault s =
    (if mem = [] then Inr (False, s)
     else case count_path E s of (cksum, s) \<Rightarrow>
       if fault = expected (sv_env E)
       then (case has_new_bits_unclassified Virgin_Bits (sv_queue s) of (nb, k) \<Rightarrow>
          let s = set_queue k s
          in if nb = 0
             then Inr (False, if expected (sv_env E) \<noteq> FSRV_RUN_OK then s\<lparr>total_crashes := total_crashes s + 1\<rparr> else s)
             else and_then (keep_case E mem nb cksum s) (\<lambda>s.
                    and_then (save_fault E mem fault True s) (\<lambda>s. Inr (True, s))))
       else and_then (save_fault E mem fault False s) (\<lambda>s. Inr (False, s)))"

section \<open>What a calibration leaves alone\<close>

definition labels :: "queue_state \<Rightarrow> (string \<times> u32) list" where
  "labels k = map (\<lambda>e. (fname e, len e)) (queue_buf k)"

definition frame :: "queue_state \<Rightarrow> (string \<times> u32) list \<times> u8 list \<times> u8 list \<times> bool \<times> nat" where
  "frame k = (labels k, virgin_tmout k, virgin_crash k, non_instrumented_mode k, map_size k)"

lemma length_labels [simp]: "length (labels k) = length (queue_buf k)"
  by (simp add: labels_def)

lemma labels_upd_entry [simp]:
  "(\<And>e. fname (f e) = fname e) \<Longrightarrow> (\<And>e. len (f e) = len e) \<Longrightarrow> labels (upd_entry q f k) = labels k"
  by (cases "q < length (queue_buf k)") (simp_all add: labels_def upd_entry_def map_update list_update_same_conv list_update_beyond not_less)

lemma frame_coverage [simp]:
  "frame (k\<lparr>trace_bits := t\<rparr>) = frame k" "frame (k\<lparr>virgin_bits := v\<rparr>) = frame k" "frame (k\<lparr>bitmap_changed := b\<rparr>) = frame k"
  "frame (k\<lparr>variable_files := f\<rparr>) = frame k" "frame (k\<lparr>n_fuzz := n\<rparr>) = frame k"
  by (simp_all add: frame_def labels_def)

lemma frame_upd_entry:
  "(\<And>e. fname (f e) = fname e) \<Longrightarrow> (\<And>e. len (f e) = len e) \<Longrightarrow> frame (upd_entry q f k) = frame k"
  by (simp add: frame_def) (simp add: upd_entry_def)

lemma frame_has_new_bits: "has_new_bits Virgin_Bits k = (r, k') \<Longrightarrow> frame k' = frame k"
  by (auto simp: has_new_bits_def Let_def split: prod.splits if_splits)

lemma frame_see_new_bits: "see_new_bits (s, v) = (s', v') \<Longrightarrow> frame (cal_queue s') = frame (cal_queue s)"
  by (auto simp: see_new_bits_def split: prod.splits dest: frame_has_new_bits)

lemma frame_mark_variable: "frame (cal_queue (mark_variable_bytes s)) = frame (cal_queue s)"
  unfolding mark_variable_bytes_def Let_def by (rule fold_keeps) simp

lemma frame_compare: "compare_trace E q (s, v) = (s', v') \<Longrightarrow> frame (cal_queue s') = frame (cal_queue s)"
  by (auto simp: compare_trace_def Let_def frame_mark_variable split: prod.splits if_splits dest: frame_see_new_bits)

lemma frame_classify [simp]: "frame (classify_counts k) = frame k"
  by (simp add: classify_counts_def)

lemma frame_cal_stage:
  assumes "cal_stage E q mem i (s, v) = Inr (stop, s', v')"
  shows "frame (cal_queue s') = frame (cal_queue s)"
proof -
  obtain r where r: "write_to_testcase (ca_hooks E) (take (unat (len (entry (cal_queue s) q))) mem) (cal_run s) = Inr r"
    using assms by (auto simp: cal_stage_def and_then_Inr_iff)
  define o1 where "o1 = exec (ca_target E) (ran r) (input_of r)"
  define s1 where "s1 = s\<lparr>cal_run := r\<lparr>ran := ran r + 1\<rparr>, cal_queue := (cal_queue s)\<lparr>trace_bits := run_trace o1\<rparr>\<rparr>"
  define s2 where "s2 = s1\<lparr>cal_queue := classify_counts (cal_queue s1)\<rparr>"
  define v1 where "v1 = v\<lparr>ca_fault := run_result o1\<rparr>"
  have "s' = s1 \<or> compare_trace E q (s2, v1) = (s', v')"
    using assms r unfolding cal_stage_def
    by (auto simp: Let_def o1_def [symmetric] s1_def s2_def v1_def split: if_splits prod.splits)
  moreover have "frame (cal_queue s1) = frame (cal_queue s)" "frame (cal_queue s2) = frame (cal_queue s1)"
    by (simp_all add: s1_def s2_def)
  ultimately show ?thesis using frame_compare [of E q s2 v1 s' v'] by auto
qed

lemma frame_cal_loop:
  "cal_loop E q mem i x = Inr (stop, x') \<Longrightarrow> frame (cal_queue (fst x')) = frame (cal_queue (fst x))"
proof (induction E q mem i x rule: cal_loop.induct)
  case (1 E q mem i x)
  obtain s v where x: "x = (s, v)" by (cases x)
  show ?case
  proof (cases "i < cal_cycles (cal_fast E) (var_detected (snd x))")
    case False
    then show ?thesis using 1(2) by (simp add: cal_loop.simps)
  next
    case True
    obtain st y where st: "cal_stage E q mem i x = Inr (st, y)"
      using 1(2) True by (cases "cal_stage E q mem i x") (auto simp: cal_loop.simps [of E q mem i x])
    obtain s1 v1 where y: "y = (s1, v1)" by (cases y)
    have k: "frame (cal_queue s1) = frame (cal_queue s)" using frame_cal_stage [OF st [unfolded x y]] .
    show ?thesis
    proof (cases st)
      case True
      then have "x' = y" using 1(2) st \<open>i < _\<close> by (simp add: cal_loop.simps [of E q mem i])
      then show ?thesis using k x y by simp
    next
      case False
      have r: "cal_loop E q mem (i + 1) y = Inr (stop, x')"
        using 1(2) st \<open>i < _\<close> False by (simp add: cal_loop.simps [of E q mem i])
      have "frame (cal_queue (fst x')) = frame (cal_queue (fst y))"
        using 1(1) [OF _ st refl False r] \<open>i < _\<close> by simp
      then show ?thesis using k x y by simp
    qed
  qed
qed

lemma frame_update_score: "frame (update_bitmap_score q k) = frame k"
proof -
  have l: "labels (update_bitmap_score q k) = labels k"
    unfolding labels_def by (rule update_bitmap_score_keep) simp_all
  have "virgin_tmout (score_byte q f p i k) = virgin_tmout k" "virgin_crash (score_byte q f p i k) = virgin_crash k" for q f p i k
    by (simp_all add: score_byte_def drop_ref_def take_slot_def Let_def upd_entry_def split: option.split)
  then have "virgin_tmout (update_bitmap_score q k) = virgin_tmout k" "virgin_crash (update_bitmap_score q k) = virgin_crash k"
    unfolding update_bitmap_score_def by (rule_tac [!] fold_keeps) simp_all
  then show ?thesis using l by (simp add: frame_def)
qed

lemma frame_cal_success: "cal_success E q h t0 fr x = (s', v') \<Longrightarrow> frame (cal_queue s') = frame (cal_queue (fst x))"
  by (cases x) (auto simp: cal_success_def Let_def frame_update_score frame_upd_entry split: if_splits)

lemma frame_cal_finish: "cal_finish E q x = Inr (fault, s') \<Longrightarrow> frame (cal_queue s') = frame (cal_queue (fst x))"
  by (cases x) (auto simp: cal_finish_def Let_def and_then_Inr_iff mark_as_variable_def frame_upd_entry split: if_splits)

lemma frame_calibrate:
  assumes "calibrate_case E q mem h s = Inr (fault, s')"
  shows "frame (cal_queue s') = frame (cal_queue s)"
proof -
  define s0 where "s0 = (if cmplog_mode (cal_queue s) then set_cal q (\<lambda>e. e\<lparr>exec_cksum := 0\<rparr>) s else s)"
  define s1 where "s1 = set_cal q (\<lambda>e. e\<lparr>cal_failed := cal_failed e + 1\<rparr>) s0"
  define v0 where "v0 = \<lparr>new_bits = 0, var_detected = False, ca_fault = FSRV_RUN_OK\<rparr>"
  define fr where "fr = (exec_cksum (cal s0 q) = 0)"
  define x where "x = (if fr then (s1, v0) else see_new_bits (s1\<lparr>first_trace := trace_bits (cal_queue s1)\<rparr>, v0))"
  define t0 where "t0 = clock E (ran (cal_run s1))"
  have unf: "calibrate_case E q mem h s =
      (case cal_loop E q mem 0 x of Inl e \<Rightarrow> Inl (Inl e)
       | Inr (stop, x) \<Rightarrow> (case cal_finish E q (if stop then x else cal_success E q h t0 fr x) of Inl e \<Rightarrow> Inl (Inr e) | Inr y \<Rightarrow> Inr y))"
    unfolding calibrate_case_def Let_def s0_def s1_def fr_def v0_def x_def t0_def by (rule refl)
  have "cal_queue s1 = cal_queue s" by (simp add: s1_def s0_def)
  moreover obtain s2 v2 where "see_new_bits (s1\<lparr>first_trace := trace_bits (cal_queue s1)\<rparr>, v0) = (s2, v2)" by fastforce
  ultimately have x: "frame (cal_queue (fst x)) = frame (cal_queue s)"
    using frame_see_new_bits [of "s1\<lparr>first_trace := trace_bits (cal_queue s1)\<rparr>" v0 s2 v2] by (simp add: x_def)
  obtain stop y where l: "cal_loop E q mem 0 x = Inr (stop, y)"
    using assms unfolding unf by (cases "cal_loop E q mem 0 x") auto
  define z where "z = (if stop then y else cal_success E q h t0 fr y)"
  obtain s3 v3 where c: "cal_success E q h t0 fr y = (s3, v3)" by fastforce
  have z: "frame (cal_queue (fst z)) = frame (cal_queue (fst y))"
    using frame_cal_success [OF c] c by (simp add: z_def)
  have "cal_finish E q z = Inr (fault, s')"
    using assms unfolding unf l sum.case prod.case z_def [symmetric] by (cases "cal_finish E q z") simp_all
  from frame_cal_finish [OF this] z frame_cal_loop [OF l] x show ?thesis by simp
qed

section \<open>The invariant\<close>

definition sv_ok :: "'r saver \<Rightarrow> bool" where
  "sv_ok s \<longleftrightarrow> cal_ok (sv_cal s) \<and> 32 dvd map_size (sv_queue s) \<and>
     length (virgin_tmout (sv_queue s)) = map_size (sv_queue s) \<and> length (virgin_crash (sv_queue s)) = map_size (sv_queue s) \<and>
     cache_ok (cache_view s)"

lemma set_queue_fields [simp]:
  "sv_queue (set_queue k s) = k" "sv_cache (set_queue k s) = sv_cache s" "unique_crashes (set_queue k s) = unique_crashes s"
  "unique_hangs (set_queue k s) = unique_hangs s" "cal_run (sv_cal (set_queue k s)) = cal_run (sv_cal s)"
  by (simp_all add: set_queue_def)

lemma set_queue_same [simp]: "set_queue (sv_queue s) s = s"
  by (simp add: set_queue_def)

lemma len_labels: "q < length (queue_buf k) \<Longrightarrow> len (entry k q) = snd (labels k ! q)"
  by (simp add: labels_def)

lemma cache_ok_labels:
  assumes "cache_ok (t\<lparr>corpus := k\<rparr>)" and "labels k' = labels k @ added"
  shows "cache_ok (t\<lparr>corpus := k'\<rparr>)"
proof -
  have l: "length (queue_buf k') = length (queue_buf k) + length added"
    using arg_cong [OF assms(2), of length] by simp
  have "cache_ok (t\<lparr>corpus := k, corpus := k'\<rparr>)"
    by (rule cache_ok_corpus [OF assms(1)])
      (use l assms buffers_dom [of "t\<lparr>corpus := k\<rparr>"] in \<open>auto simp: len_labels nth_append cache_ok_def\<close>)
  then show ?thesis by simp
qed

text \<open>A change of the maps only.\<close>

lemma sv_ok_maps:
  assumes "sv_ok s" and "cal_ok ((sv_cal s)\<lparr>cal_queue := k\<rparr>)" and "labels k = labels (sv_queue s)" and "map_size k = map_size (sv_queue s)"
    and "length (virgin_tmout k) = map_size k" and "length (virgin_crash k) = map_size k"
  shows "sv_ok (set_queue k s)"
proof -
  have "cache_ok (cache_view (set_queue k s))"
    using cache_ok_labels [where t = "sv_cache s" and k = "sv_queue s" and k' = k and added = "[]"] assms(1,3)
    by (simp add: sv_ok_def cache_view_def set_queue_def)
  then show ?thesis using assms by (simp add: sv_ok_def set_queue_def)
qed

lemma count_path_keeps:
  assumes "count_path E s = (c, s')"
  shows "sv_ok s \<Longrightarrow> sv_ok s'" "sv_cache s' = sv_cache s" "labels (sv_queue s') = labels (sv_queue s)"
    "unique_crashes s' = unique_crashes s" "unique_hangs s' = unique_hangs s" "trace_bits (sv_queue s') = trace_bits (sv_queue s)"
    "virgin_bits (sv_queue s') = virgin_bits (sv_queue s)" "map_size (sv_queue s') = map_size (sv_queue s)"
    "used_names (sv_queue s') = used_names (sv_queue s)" "length (queue_buf (sv_queue s')) = length (queue_buf (sv_queue s))"
proof -
  have s': "s' = s \<or> (\<exists>n. s' = set_queue ((sv_queue s)\<lparr>n_fuzz := n\<rparr>) s)"
    using assms by (auto simp: count_path_def Let_def split: if_splits)
  have "queue_ok (k\<lparr>n_fuzz := n\<rparr>) = queue_ok k" for k n by (simp add: queue_ok_def refs_ok_def marks_ok_def)
  then have "sv_ok (set_queue ((sv_queue s)\<lparr>n_fuzz := n\<rparr>) s)" if "sv_ok s" for n
    using that by (intro sv_ok_maps) (simp_all add: sv_ok_def cal_ok_def labels_def)
  then show "sv_ok s \<Longrightarrow> sv_ok s'" using s' by auto
  show "sv_cache s' = sv_cache s" "labels (sv_queue s') = labels (sv_queue s)"
    "unique_crashes s' = unique_crashes s" "unique_hangs s' = unique_hangs s" "trace_bits (sv_queue s') = trace_bits (sv_queue s)"
    "virgin_bits (sv_queue s') = virgin_bits (sv_queue s)" "map_size (sv_queue s') = map_size (sv_queue s)"
    "used_names (sv_queue s') = used_names (sv_queue s)" "length (queue_buf (sv_queue s')) = length (queue_buf (sv_queue s))"
    using s' by (auto simp: labels_def used_names_def)
qed

section \<open>Files\<close>

lemma new_file_InrD:
  assumes "new_file E fn mem s = Inr s'"
  shows "disk (sv_cache s) fn = None" "s' = s\<lparr>sv_cache := (sv_cache s)\<lparr>disk := (disk (sv_cache s))(fn \<mapsto> mem)\<rparr>\<rparr>"
  using assms by (auto simp: new_file_def split: if_splits)

lemma new_file_keeps:
  assumes "new_file E fn mem s = Inr s'"
  shows "sv_ok s' = sv_ok s" "sv_cal s' = sv_cal s" "disk (sv_cache s') = (disk (sv_cache s))(fn \<mapsto> mem)"
    "unique_crashes s' = unique_crashes s" "unique_hangs s' = unique_hangs s" "tc_buf (sv_cache s') = tc_buf (sv_cache s)"
    "max_cache_size (sv_cache s') = max_cache_size (sv_cache s)"
proof -
  note s' = new_file_InrD(2) [OF assms]
  have "cache_view s' = (cache_view s)\<lparr>disk := (disk (sv_cache s))(fn \<mapsto> mem)\<rparr>" by (simp add: s' cache_view_def)
  then show "sv_ok s' = sv_ok s" by (simp add: sv_ok_def cache_ok_disk) (simp add: s')
qed (simp_all add: new_file_InrD(2) [OF assms])

section \<open>Hangs and crashes\<close>

lemma queue_ok_virgins [simp]:
  "queue_ok (k\<lparr>virgin_tmout := v\<rparr>) = queue_ok k" "queue_ok (k\<lparr>virgin_crash := v\<rparr>) = queue_ok k"
  by (simp_all add: queue_ok_def refs_ok_def marks_ok_def)

lemma length_simplify64: "length t = n \<Longrightarrow> 8 dvd n \<Longrightarrow> length (simplify_trace64 n t) = n"
  by (simp add: simplify_trace64_map)

lemma unseen_keeps:
  assumes ok: "sv_ok s" and u: "unseen m b s = (new, s')" and m: "m = Virgin_Tmout \<or> m = Virgin_Crash"
  shows "sv_ok s'" "sv_cache s' = sv_cache s" "labels (sv_queue s') = labels (sv_queue s)"
    "unique_crashes s' = unique_crashes s" "unique_hangs s' = unique_hangs s"
    "map_size (sv_queue s') = map_size (sv_queue s)" "cal_run (sv_cal s') = cal_run (sv_cal s)"
proof -
  let ?k = "sv_queue s"
  have "sv_ok s' \<and> sv_cache s' = sv_cache s \<and> labels (sv_queue s') = labels ?k \<and> unique_crashes s' = unique_crashes s \<and>
    unique_hangs s' = unique_hangs s \<and> map_size (sv_queue s') = map_size ?k \<and> cal_run (sv_cal s') = cal_run (sv_cal s)"
  proof (cases "non_instrumented_mode ?k")
    case True
    then show ?thesis using u ok by (simp add: unseen_def)
  next
    case False
    have l: "length (trace_bits ?k) = map_size ?k" "8 dvd map_size ?k" "length (virgin_tmout ?k) = map_size ?k"
      "length (virgin_crash ?k) = map_size ?k"
      using ok by (auto simp: sv_ok_def cal_ok_def queue_ok_def refs_ok_def)
    define t where "t = simplify_trace64 (map_size ?k) (if b then trace_bits ?k else classify_counts64 (map_size ?k) (trace_bits ?k))"
    have t: "length t = map_size ?k" using l by (simp add: t_def length_simplify64 length_classify64)
    let ?k1 = "?k\<lparr>trace_bits := t\<rparr>"
    have k1: "simplify_trace (if b then ?k else classify_counts ?k) = ?k1"
      by (simp add: simplify_trace_def classify_counts_def t_def)
    have "wf_map 8 m ?k1" using l t m by (auto simp: wf_map_def)
    note h = has_new_bits_eq [OF this]
    define k2 where "k2 = (put_virgin m (clear_seen t (get_virgin m ?k)) ?k1)\<lparr>bitmap_changed := bitmap_changed ?k\<rparr>"
    have s': "s' = set_queue k2 s"
      using u False h m by (auto simp: unseen_def Let_def k1 k2_def)
    have "length (clear_seen t (get_virgin m ?k)) = map_size ?k" using t l m by (auto simp: clear_seen_def)
    then have k2: "length (virgin_tmout k2) = map_size ?k" "length (virgin_crash k2) = map_size ?k" "map_size k2 = map_size ?k"
      "virgin_bits k2 = virgin_bits ?k" "labels k2 = labels ?k"
      using m l by (auto simp: k2_def labels_def)
    have "cal_ok ((sv_cal s)\<lparr>cal_queue := ?k1\<rparr>)" using ok t by (simp add: sv_ok_def cal_ok_trace)
    then have "cal_ok ((sv_cal s)\<lparr>cal_queue := k2\<rparr>)"
      using m k2(3,4) by (auto simp: cal_ok_def k2_def)
    then have "sv_ok (set_queue k2 s)" by (rule sv_ok_maps [OF ok]) (use k2 in simp_all)
    then show ?thesis using k2 by (simp add: s')
  qed
  then show "sv_ok s'" "sv_cache s' = sv_cache s" "labels (sv_queue s') = labels (sv_queue s)"
    "unique_crashes s' = unique_crashes s" "unique_hangs s' = unique_hangs s"
    "map_size (sv_queue s') = map_size (sv_queue s)" "cal_run (sv_cal s') = cal_run (sv_cal s)" by blast+
qed

text \<open>What the \<^verbatim>\<open>switch\<close> may do: nothing that counts, or one new file with the input, numbered by
  one of the two counters, which were below their limits.\<close>

definition saved :: "save_env \<Rightarrow> u8 list \<Rightarrow> 'r saver \<Rightarrow> 'r saver \<Rightarrow> bool" where
  "saved E mem s s' \<longleftrightarrow>
     (disk (sv_cache s') = disk (sv_cache s) \<and> unique_crashes s' = unique_crashes s \<and> unique_hangs s' = unique_hangs s) \<or>
     (\<exists>fn. disk (sv_cache s) fn = None \<and> disk (sv_cache s') = (disk (sv_cache s))(fn \<mapsto> mem) \<and>
        (fn = crash_fn E (unique_crashes s) \<and> unique_crashes s < KEEP_UNIQUE_CRASH \<and>
           unique_crashes s' = unique_crashes s + 1 \<and> unique_hangs s' = unique_hangs s \<or>
         fn = hang_fn E (unique_hangs s) \<and> unique_hangs s < KEEP_UNIQUE_HANG \<and>
           unique_hangs s' = unique_hangs s + 1 \<and> unique_crashes s' = unique_crashes s))"

definition settled :: "save_env \<Rightarrow> u8 list \<Rightarrow> 'r saver \<Rightarrow> 'r saver \<Rightarrow> bool" where
  "settled E mem s s' \<longleftrightarrow> sv_ok s' \<and> labels (sv_queue s') = labels (sv_queue s) \<and> saved E mem s s'"

lemma settled_same:
  "sv_ok s' \<Longrightarrow> labels (sv_queue s') = labels (sv_queue s) \<Longrightarrow> sv_cache s' = sv_cache s \<Longrightarrow>
    unique_crashes s' = unique_crashes s \<Longrightarrow> unique_hangs s' = unique_hangs s \<Longrightarrow> settled E mem s s'"
  by (simp add: settled_def saved_def)

lemma sv_ok_counts [simp]:
  "sv_ok (s\<lparr>total_crashes := a\<rparr>) = sv_ok s" "sv_ok (s\<lparr>unique_crashes := b\<rparr>) = sv_ok s" "sv_ok (s\<lparr>total_tmouts := c\<rparr>) = sv_ok s"
  "sv_ok (s\<lparr>unique_tmouts := d\<rparr>) = sv_ok s" "sv_ok (s\<lparr>unique_hangs := e\<rparr>) = sv_ok s"
  by (simp_all add: sv_ok_def cache_view_def)

lemma save_crash_settled:
  assumes ok: "sv_ok s" and r: "save_crash E mem b s = Inr s'"
  shows "settled E mem s s'"
proof -
  define s0 where "s0 = s\<lparr>total_crashes := total_crashes s + 1\<rparr>"
  have s0: "sv_ok s0" "sv_cache s0 = sv_cache s" "sv_queue s0 = sv_queue s" "unique_crashes s0 = unique_crashes s"
    "unique_hangs s0 = unique_hangs s" using ok by (simp_all add: s0_def)
  obtain new s1 where u: "unseen Virgin_Crash b s0 = (new, s1)" by fastforce
  note s1 = unseen_keeps [OF s0(1) u disjI2 [OF refl]]
  have unf: "save_crash E mem b s = (if KEEP_UNIQUE_CRASH \<le> unique_crashes s0 then Inr s0
      else if \<not> new then Inr s1
      else new_file E (crash_fn E (unique_crashes s1)) mem (s1\<lparr>unique_crashes := unique_crashes s1 + 1\<rparr>))"
    using u by (simp add: save_crash_def Let_def s0_def [symmetric])
  consider "s' = s0" | "s' = s1" | "unique_crashes s < KEEP_UNIQUE_CRASH" "new_file E (crash_fn E (unique_crashes s1)) mem (s1\<lparr>unique_crashes := unique_crashes s1 + 1\<rparr>) = Inr s'"
    using r unfolding unf s0(4) by (cases "KEEP_UNIQUE_CRASH \<le> unique_crashes s"; cases new) (simp_all add: not_le)
  then show ?thesis
  proof cases
    case 1
    then show ?thesis using s0 by (intro settled_same) simp_all
  next
    case 2
    then show ?thesis using s0 s1 by (intro settled_same) simp_all
  next
    case 3
    note f = new_file_keeps [OF 3(2)]
    have f1: "disk (sv_cache s) (crash_fn E (unique_crashes s)) = None" "sv_ok s'" "labels (sv_queue s') = labels (sv_queue s)"
      "disk (sv_cache s') = (disk (sv_cache s))(crash_fn E (unique_crashes s) \<mapsto> mem)"
      "unique_crashes s' = unique_crashes s + 1" "unique_hangs s' = unique_hangs s"
      using f new_file_InrD(1) [OF 3(2)] s0 s1 by simp_all
    then show ?thesis unfolding settled_def saved_def using 3(1) by blast
  qed
qed

lemma rerun_keeps:
  assumes ok: "sv_ok s" and T: "fills_map (patient E) (map_size (sv_queue s))" and r: "rerun E mem s = Inr (o1, s')"
  shows "sv_ok s'" "labels (sv_queue s') = labels (sv_queue s)" "sv_cache s' = sv_cache s"
    "unique_crashes s' = unique_crashes s" "unique_hangs s' = unique_hangs s"
proof -
  obtain rn where rn: "write_to_testcase (ca_hooks (sv_env E)) mem (cal_run (sv_cal s)) = Inr rn"
    using r by (auto simp: rerun_def and_then_Inr_iff)
  define o2 where "o2 = exec (patient E) (ran rn) (input_of rn)"
  have s': "s' = s\<lparr>sv_cal := (sv_cal s)\<lparr>cal_run := rn\<lparr>ran := ran rn + 1\<rparr>, cal_queue := classify_counts ((sv_queue s)\<lparr>trace_bits := run_trace o2\<rparr>)\<rparr>\<rparr>"
    using r rn by (auto simp: rerun_def Let_def o2_def)
  define t where "t = classify_counts64 (map_size (sv_queue s)) (run_trace o2)"
  have l: "length (run_trace o2) = map_size (sv_queue s)" using T by (simp add: fills_map_def o2_def)
  have k: "classify_counts ((sv_queue s)\<lparr>trace_bits := run_trace o2\<rparr>) = (sv_queue s)\<lparr>trace_bits := t\<rparr>"
    by (simp add: classify_counts_def t_def)
  have lt: "length t = map_size (sv_queue s)" using l by (simp add: t_def length_classify64)
  have "cal_ok ((sv_cal s)\<lparr>cal_queue := (sv_queue s)\<lparr>trace_bits := t\<rparr>\<rparr>)"
    using ok lt by (simp add: sv_ok_def cal_ok_trace)
  then have "cal_ok (sv_cal s')" by (simp add: s' k cal_ok_def)
  moreover have "cache_ok (cache_view s')"
    using cache_ok_labels [where t = "sv_cache s" and k = "sv_queue s" and k' = "(sv_queue s)\<lparr>trace_bits := t\<rparr>" and added = "[]"] ok
    by (simp add: sv_ok_def cache_view_def s' k labels_def)
  ultimately show "sv_ok s'" using ok by (simp add: sv_ok_def s' k)
  show "labels (sv_queue s') = labels (sv_queue s)" "sv_cache s' = sv_cache s"
    "unique_crashes s' = unique_crashes s" "unique_hangs s' = unique_hangs s" by (simp_all add: s' k labels_def)
qed

lemma settled_after:
  assumes "settled E mem s1 s'" and "labels (sv_queue s1) = labels (sv_queue s)" and "disk (sv_cache s1) = disk (sv_cache s)"
    and "unique_crashes s1 = unique_crashes s" and "unique_hangs s1 = unique_hangs s"
  shows "settled E mem s s'"
  using assms by (simp add: settled_def saved_def)

lemma save_hang_settled:
  fixes s :: "'r saver"
  assumes ok: "sv_ok s" and T: "fills_map (patient E) (map_size (sv_queue s))" and r: "save_hang E mem b s = Inr s'"
  shows "settled E mem s s'"
proof -
  define s0 where "s0 = s\<lparr>total_tmouts := total_tmouts s + 1\<rparr>"
  have s0: "sv_ok s0" "sv_cache s0 = sv_cache s" "sv_queue s0 = sv_queue s" "unique_crashes s0 = unique_crashes s"
    "unique_hangs s0 = unique_hangs s" using ok by (simp_all add: s0_def)
  obtain new s1 where u: "unseen Virgin_Tmout b s0 = (new, s1)" by fastforce
  note s1 = unseen_keeps [OF s0(1) u disjI1 [OF refl]]
  define s2 where "s2 = s1\<lparr>unique_tmouts := unique_tmouts s1 + 1\<rparr>"
  have s2: "sv_ok s2" "sv_cache s2 = sv_cache s" "labels (sv_queue s2) = labels (sv_queue s)" "unique_crashes s2 = unique_crashes s"
    "unique_hangs s2 = unique_hangs s" "map_size (sv_queue s2) = map_size (sv_queue s)" using s0 s1 by (simp_all add: s2_def)
  define keep where "keep = (\<lambda>s :: 'r saver. new_file E (hang_fn E (unique_hangs s)) mem (s\<lparr>unique_hangs := unique_hangs s + 1\<rparr>))"
  have unf: "save_hang E mem b s = (if KEEP_UNIQUE_HANG \<le> unique_hangs s0 then Inr s0
      else if \<not> new then Inr s1
      else if exec_tmout (sv_env E) < hang_tmout E
           then (case rerun E mem s2 of Inl e \<Rightarrow> Inl (Inl e)
                | Inr (o1, s) \<Rightarrow>
                    if \<not> run_stop_soon o1 \<and> run_result o1 = FSRV_RUN_CRASH
                    then save_crash E mem (b \<or> \<not> non_instrumented_mode (sv_queue s)) s
                    else if run_stop_soon o1 \<or> run_result o1 \<noteq> FSRV_RUN_TMOUT then Inr s
                    else keep s)
           else keep s2)"
    unfolding keep_def using u by (simp add: save_hang_def Let_def s0_def [symmetric] s2_def [symmetric])
  have kept: "settled E mem s s'"
    if "keep s3 = Inr s'" "unique_hangs s < KEEP_UNIQUE_HANG" "sv_ok s3" "sv_cache s3 = sv_cache s" "labels (sv_queue s3) = labels (sv_queue s)"
      "unique_crashes s3 = unique_crashes s" "unique_hangs s3 = unique_hangs s" for s3
  proof -
    note f = new_file_keeps [OF that(1) [unfolded keep_def]]
    have "disk (sv_cache s) (hang_fn E (unique_hangs s)) = None" "sv_ok s'" "labels (sv_queue s') = labels (sv_queue s)"
      "disk (sv_cache s') = (disk (sv_cache s))(hang_fn E (unique_hangs s) \<mapsto> mem)"
      "unique_hangs s' = unique_hangs s + 1" "unique_crashes s' = unique_crashes s"
      using f new_file_InrD(1) [OF that(1) [unfolded keep_def]] that(2-7) by simp_all
    then show ?thesis unfolding settled_def saved_def using that(2) by blast
  qed
  consider "s' = s0" | "s' = s1"
    | "unique_hangs s < KEEP_UNIQUE_HANG" "keep s2 = Inr s'"
    | o1 s3 where "unique_hangs s < KEEP_UNIQUE_HANG" "rerun E mem s2 = Inr (o1, s3)"
        "save_crash E mem (b \<or> \<not> non_instrumented_mode (sv_queue s3)) s3 = Inr s' \<or> s' = s3 \<or> keep s3 = Inr s'"
  proof (cases "KEEP_UNIQUE_HANG \<le> unique_hangs s \<or> \<not> new \<or> \<not> exec_tmout (sv_env E) < hang_tmout E")
    case True
    then have "s' = s0 \<or> s' = s1 \<or> \<not> KEEP_UNIQUE_HANG \<le> unique_hangs s \<and> keep s2 = Inr s'"
      using r unfolding unf s0(5) by (cases "KEEP_UNIQUE_HANG \<le> unique_hangs s"; cases new) simp_all
    then show ?thesis using that(1-3) unfolding not_le by blast
  next
    case False
    then have f: "unique_hangs s < KEEP_UNIQUE_HANG" "new" "exec_tmout (sv_env E) < hang_tmout E"
      and n: "\<not> KEEP_UNIQUE_HANG \<le> unique_hangs s" by (simp_all add: not_le)
    show ?thesis
    proof (cases "rerun E mem s2")
      case (Inl e)
      then show ?thesis using r n f(2,3) unfolding unf s0(5) by simp
    next
      case (Inr y)
      obtain o1 s3 where y: "y = (o1, s3)" by (cases y)
      have "save_crash E mem (b \<or> \<not> non_instrumented_mode (sv_queue s3)) s3 = Inr s' \<or> s' = s3 \<or> keep s3 = Inr s'"
        using r n f(2,3) Inr y unfolding unf s0(5) by (simp split: if_splits)
      then show ?thesis using that(4) f(1) Inr y by simp
    qed
  qed
  then show ?thesis
  proof cases
    case 1
    then show ?thesis using s0 by (intro settled_same) simp_all
  next
    case 2
    then show ?thesis using s0 s1 by (intro settled_same) simp_all
  next
    case 3
    then show ?thesis using s2 by (intro kept [of s2]) simp_all
  next
    case (4 o1 s3)
    have "fills_map (patient E) (map_size (sv_queue s2))" using T s2(6) by simp
    note s3 = rerun_keeps [OF s2(1) this 4(2)]
    from 4(3) show ?thesis
    proof (elim disjE)
      assume "save_crash E mem (b \<or> \<not> non_instrumented_mode (sv_queue s3)) s3 = Inr s'"
      from save_crash_settled [OF s3(1) this] show ?thesis by (rule settled_after) (use s3 s2 in simp_all)
    next
      assume "s' = s3"
      then show ?thesis using s3 s2 by (intro settled_same) simp_all
    next
      assume "keep s3 = Inr s'"
      then show ?thesis using s3 s2 4(1) by (intro kept [of s3]) simp_all
    qed
  qed
qed

lemma save_fault_settled:
  assumes "sv_ok s" and "fills_map (patient E) (map_size (sv_queue s))" and "save_fault E mem fault b s = Inr s'"
  shows "settled E mem s s'"
  using assms save_crash_settled save_hang_settled [OF assms(1,2)] settled_same [of s s E mem]
  by (cases fault) (auto simp: save_fault_def)

section \<open>Into the queue\<close>

lemma labels_add_to_queue: "labels (add_to_queue fn n det now content k) = labels k @ [(fn, n)]"
proof -
  have "labels (upd_entry q (\<lambda>e. e\<lparr>is_ascii := a\<rparr>) k) = labels k" for q a k by simp
  then show ?thesis by (simp add: add_to_queue_def Let_def) (simp add: labels_def)
qed

lemma add_to_queue_maps:
  "virgin_tmout (add_to_queue fn n det now content k) = virgin_tmout k" "virgin_crash (add_to_queue fn n det now content k) = virgin_crash k"
  "virgin_bits (add_to_queue fn n det now content k) = virgin_bits k" "map_size (add_to_queue fn n det now content k) = map_size k"
  "trace_bits (add_to_queue fn n det now content k) = trace_bits k"
  by (simp_all add: add_to_queue_def Let_def upd_entry_def)

lemma enqueue_keeps:
  assumes ok: "sv_ok s" and fresh: "base_name (queue_fn E (length (queue_buf (sv_queue s))) nb) \<notin> used_names (sv_queue s)"
    and r: "enqueue E mem nb cksum s = Inr s'"
  shows "sv_ok s'" "labels (sv_queue s') = labels (sv_queue s) @ [(queue_fn E (length (queue_buf (sv_queue s))) nb, of_nat (length mem))]"
    "disk (sv_cache s) (queue_fn E (length (queue_buf (sv_queue s))) nb) = None"
    "disk (sv_cache s') = (disk (sv_cache s))(queue_fn E (length (queue_buf (sv_queue s))) nb \<mapsto> mem)"
    "unique_crashes s' = unique_crashes s" "unique_hangs s' = unique_hangs s" "map_size (sv_queue s') = map_size (sv_queue s)"
    "tc_buf (sv_cache s') = tc_buf (sv_cache s)" "max_cache_size (sv_cache s') = max_cache_size (sv_cache s)"
proof -
  define q fn where "q = length (queue_buf (sv_queue s))" and "fn = queue_fn E q nb"
  obtain s1 where f: "new_file E fn mem s = Inr s1"
    using r by (auto simp: enqueue_def Let_def and_then_Inr_iff q_def fn_def)
  note f1 = new_file_keeps [OF f] note f2 = new_file_InrD(1) [OF f]
  define k1 where "k1 = add_to_queue fn (of_nat (length mem)) False (sv_now E) (Some mem) (sv_queue s)"
  define k2 where "k2 = (if cksum \<noteq> 0
                   then (upd_entry q (\<lambda>e. e\<lparr>n_fuzz_entry := unat (cksum mod N_FUZZ_SIZE)\<rparr>) k1)
                     \<lparr>n_fuzz := (n_fuzz k1)[unat (cksum mod N_FUZZ_SIZE) := 1]\<rparr>
                   else k1)"
  obtain g n where s': "s' = s1\<lparr>sv_cal := (sv_cal s)\<lparr>cal_queue := k2, cal := g, queued_with_cov := n\<rparr>\<rparr>"
  proof -
    have "enqueue E mem nb cksum s = Inr (s1\<lparr>sv_cal := (sv_cal s)\<lparr>cal_queue := k2, cal := (cal (sv_cal s))(q := zero_calibration
        \<lparr>has_new_cov := nb = 2, exec_cksum := hash64 (ca_target (sv_env E)) (trace_bits k2)\<rparr>),
        queued_with_cov := (if nb = 2 then queued_with_cov (sv_cal s) + 1 else queued_with_cov (sv_cal s))\<rparr>\<rparr>)"
      unfolding enqueue_def Let_def q_def [symmetric] fn_def [symmetric] f and_then.simps f1(2) k1_def [symmetric] k2_def [symmetric]
      by (rule refl)
    then show ?thesis using r that by simp
  qed
  have k1: "queue_ok k1" using ok fresh add_to_queue_ok [of "sv_queue s" fn]
    by (simp add: sv_ok_def cal_ok_def queue_ok_def k1_def fn_def q_def)
  have qn: "queue_ok (k\<lparr>n_fuzz := n\<rparr>) = queue_ok k" for k n by (simp add: queue_ok_def refs_ok_def marks_ok_def)
  have "queue_ok (upd_entry q (\<lambda>e. e\<lparr>n_fuzz_entry := c\<rparr>) k1)" for c
    using upd_entry_queue_ok [of k1 "\<lambda>e. e\<lparr>n_fuzz_entry := c\<rparr>" q] k1 by (simp add: queue_ok_def)
  then have k2: "queue_ok k2" using k1 qn by (simp add: k2_def)
  have l2: "labels k2 = labels (sv_queue s) @ [(fn, of_nat (length mem))]"
    using labels_add_to_queue [of fn "of_nat (length mem)" False "sv_now E" "Some mem" "sv_queue s"]
    by (simp add: k2_def k1_def labels_def [of "n_fuzz_update _ _"]) (simp add: labels_def [symmetric])
  have m2: "virgin_tmout k2 = virgin_tmout (sv_queue s)" "virgin_crash k2 = virgin_crash (sv_queue s)"
    "virgin_bits k2 = virgin_bits (sv_queue s)" "map_size k2 = map_size (sv_queue s)"
    by (simp_all add: k2_def k1_def add_to_queue_maps) (simp_all add: upd_entry_def add_to_queue_maps)
  have "cal_ok (sv_cal s')" using ok k2 m2 by (simp add: s' sv_ok_def cal_ok_def)
  moreover have "cache_ok (cache_view s')"
  proof -
    have "cache_ok ((sv_cache s1)\<lparr>corpus := sv_queue s\<rparr>)" using ok f1(1,2) by (simp add: sv_ok_def cache_view_def)
    from cache_ok_labels [OF this l2] show ?thesis by (simp add: cache_view_def s')
  qed
  ultimately show "sv_ok s'" using ok m2 by (simp add: sv_ok_def s')
  show "labels (sv_queue s') = labels (sv_queue s) @ [(queue_fn E (length (queue_buf (sv_queue s))) nb, of_nat (length mem))]"
    using l2 by (simp add: s' fn_def q_def)
  show "disk (sv_cache s) (queue_fn E (length (queue_buf (sv_queue s))) nb) = None"
    "disk (sv_cache s') = (disk (sv_cache s))(queue_fn E (length (queue_buf (sv_queue s))) nb \<mapsto> mem)"
    "unique_crashes s' = unique_crashes s" "unique_hangs s' = unique_hangs s" "map_size (sv_queue s') = map_size (sv_queue s)"
    "tc_buf (sv_cache s') = tc_buf (sv_cache s)" "max_cache_size (sv_cache s') = max_cache_size (sv_cache s)"
    using f1 f2 m2 by (simp_all add: s' fn_def q_def)
qed

lemma calibrate_keeps:
  assumes ok: "sv_ok s" and T: "fills_map (ca_target (sv_env E)) (map_size (sv_queue s))"
    and q: "q < length (queue_buf (sv_queue s))" and r: "calibrate_case (sv_env E) q mem h (sv_cal s) = Inr (res, c)"
  shows "sv_ok (s\<lparr>sv_cal := c\<rparr>)" "labels (cal_queue c) = labels (sv_queue s)" "map_size (cal_queue c) = map_size (sv_queue s)"
proof -
  have f: "frame (cal_queue c) = frame (sv_queue s)" by (rule frame_calibrate [OF r])
  then show l: "labels (cal_queue c) = labels (sv_queue s)" "map_size (cal_queue c) = map_size (sv_queue s)"
    by (simp_all add: frame_def)
  have "cal_ok c" using calibrate_case_keeps [OF T _ q r] ok by (simp add: sv_ok_def)
  moreover have "cache_ok (cache_view (s\<lparr>sv_cal := c\<rparr>))"
    using cache_ok_labels [where t = "sv_cache s" and k = "sv_queue s" and k' = "cal_queue c" and added = "[]"] ok l
    by (simp add: sv_ok_def cache_view_def)
  ultimately show "sv_ok (s\<lparr>sv_cal := c\<rparr>)" using ok f by (simp add: sv_ok_def frame_def)
qed

lemma store_mem_keeps:
  assumes "cache_ok t" and "q < length (queue_buf (corpus t))" and "tc_buf t q = None" and "unat (qlen t q) \<le> length mem"
    and "queue_testcase_store_mem heap q mem t = Inr t'"
  shows "cache_ok t' \<and> corpus t' = corpus t \<and> disk t' = disk t"
proof -
  have c: "corpus t' = corpus t \<and> disk t' = disk t"
    using assms(5) by (auto simp: queue_testcase_store_mem_def register_def Let_def split: if_splits option.splits)
  show ?thesis
  proof (cases "heap (unat (qlen t q)) = None")
    case True
    then have "t' = t" using assms(5) by (auto simp: queue_testcase_store_mem_def Let_def split: if_splits option.splits)
    then show ?thesis using assms(1) by simp
  next
    case False
    then show ?thesis using store_mem_ok [where s = t and q = q and mem = mem and heap = heap] assms False c by auto
  qed
qed

lemma keep_case_keeps:
  assumes ok: "sv_ok s" and T: "fills_map (ca_target (sv_env E)) (map_size (sv_queue s))"
    and fresh: "base_name (queue_fn E (length (queue_buf (sv_queue s))) nb) \<notin> used_names (sv_queue s)"
    and len: "length mem < 2 ^ 32" and r: "keep_case E mem nb cksum s = Inr s'"
  shows "sv_ok s'" "labels (sv_queue s') = labels (sv_queue s) @ [(queue_fn E (length (queue_buf (sv_queue s))) nb, of_nat (length mem))]"
    "disk (sv_cache s) (queue_fn E (length (queue_buf (sv_queue s))) nb) = None"
    "disk (sv_cache s') = (disk (sv_cache s))(queue_fn E (length (queue_buf (sv_queue s))) nb \<mapsto> mem)"
    "unique_crashes s' = unique_crashes s" "unique_hangs s' = unique_hangs s" "map_size (sv_queue s') = map_size (sv_queue s)"
proof -
  define q where "q = length (queue_buf (sv_queue s))"
  obtain s1 res c where s1: "enqueue E mem nb cksum s = Inr s1"
    and c: "calibrate_case (sv_env E) q mem (queue_cycle E - 1) (sv_cal s1) = Inr (res, c)"
    and st: "s' = s1\<lparr>sv_cal := c\<rparr> \<or> (\<exists>t. queue_testcase_store_mem (sv_heap E) q mem (cache_view (s1\<lparr>sv_cal := c\<rparr>)) = Inr t \<and>
      s' = s1\<lparr>sv_cal := c, sv_cache := t\<rparr>)"
    using r by (auto simp: keep_case_def Let_def and_then_Inr_iff q_def split: if_splits sum.splits)
  note e = enqueue_keeps [OF ok fresh s1]
  have n1: "length (queue_buf (sv_queue s1)) = q + 1" using arg_cong [OF e(2), of length] by (simp add: q_def)
  have k: "sv_ok (s1\<lparr>sv_cal := c\<rparr>)" "labels (cal_queue c) = labels (sv_queue s1)" "map_size (cal_queue c) = map_size (sv_queue s1)"
    using calibrate_keeps [OF e(1) _ _ c] T e(7) n1 by simp_all
  have n2: "length (queue_buf (cal_queue c)) = q + 1" using arg_cong [OF k(2), of length] n1 by simp
  have lenq: "len (entry (cal_queue c) q) = of_nat (length mem)"
    using n2 e(2) k(2) by (simp add: len_labels nth_append q_def)
  have new: "tc_buf (sv_cache s1) q = None"
  proof (rule ccontr)
    assume "tc_buf (sv_cache s1) q \<noteq> None"
    then have "q \<in> dom (tc_buf (cache_view s))" using e(8) by (auto simp: cache_view_def)
    moreover have "dom (tc_buf (cache_view s)) \<subseteq> {..<length (queue_buf (corpus (cache_view s)))}"
      using ok unfolding sv_ok_def cache_ok_def buffers_ok_def by metis
    ultimately show False by (auto simp: cache_view_def q_def)
  qed
  have f: "sv_ok s' \<and> sv_queue s' = cal_queue c \<and> disk (sv_cache s') = disk (sv_cache s1) \<and>
    unique_crashes s' = unique_crashes s1 \<and> unique_hangs s' = unique_hangs s1"
  proof (cases "s' = s1\<lparr>sv_cal := c\<rparr>")
    case True
    then show ?thesis using k(1) by simp
  next
    case False
    then obtain t where t: "queue_testcase_store_mem (sv_heap E) q mem (cache_view (s1\<lparr>sv_cal := c\<rparr>)) = Inr t"
      "s' = s1\<lparr>sv_cal := c, sv_cache := t\<rparr>" using st by blast
    have "cache_ok t \<and> corpus t = corpus (cache_view (s1\<lparr>sv_cal := c\<rparr>)) \<and> disk t = disk (cache_view (s1\<lparr>sv_cal := c\<rparr>))"
      by (rule store_mem_keeps [OF _ _ _ _ t(1)])
        (use k(1) n2 new lenq len in \<open>simp_all add: sv_ok_def cache_view_def\<close>)
    moreover from this have "cache_view s' = t" by (simp add: cache_view_def t(2))
    ultimately have v: "cache_ok (cache_view s')" "disk t = disk (sv_cache s1)" by (simp_all add: cache_view_def)
    then show ?thesis using k(1) t(2) unfolding sv_ok_def by simp
  qed
  show "sv_ok s'" "labels (sv_queue s') = labels (sv_queue s) @ [(queue_fn E (length (queue_buf (sv_queue s))) nb, of_nat (length mem))]"
    "disk (sv_cache s) (queue_fn E (length (queue_buf (sv_queue s))) nb) = None"
    "disk (sv_cache s') = (disk (sv_cache s))(queue_fn E (length (queue_buf (sv_queue s))) nb \<mapsto> mem)"
    "unique_crashes s' = unique_crashes s" "unique_hangs s' = unique_hangs s" "map_size (sv_queue s') = map_size (sv_queue s)"
    using f e k by simp_all
qed

section \<open>The decision\<close>

definition classified_trace :: "'r saver \<Rightarrow> u8 list" where
  "classified_trace s = map count_class8 (trace_bits (sv_queue s))"

lemma judge:
  assumes ok: "sv_ok s" and h: "has_new_bits_unclassified Virgin_Bits (sv_queue s) = (nb, k)"
  shows "nb = verdict (classified_trace s) (virgin_bits (sv_queue s))" "nb = 0 \<Longrightarrow> k = sv_queue s"
    "sv_ok (set_queue k s)" "labels k = labels (sv_queue s)" "used_names k = used_names (sv_queue s)" "map_size k = map_size (sv_queue s)"
proof -
  let ?k = "sv_queue s"
  have l: "length (trace_bits ?k) = map_size ?k" "32 dvd map_size ?k" "8 dvd map_size ?k" "length (virgin_bits ?k) = map_size ?k"
    using ok by (auto simp: sv_ok_def cal_ok_def queue_ok_def refs_ok_def)
  have w: "wf_map 32 Virgin_Bits ?k" "wf_map 8 Virgin_Bits ?k" using l by (simp_all add: wf_map_def)
  define t where "t = classified_trace s"
  have t: "length t = map_size ?k" using l by (simp add: t_def classified_trace_def)
  have c: "classify_counts ?k = ?k\<lparr>trace_bits := t\<rparr>" using classify_counts_trace [OF w(2)] by (simp add: t_def classified_trace_def)
  have "wf_map 8 Virgin_Bits (?k\<lparr>trace_bits := t\<rparr>)" using l t by (simp add: wf_map_def)
  note e = has_new_bits_eq [OF this]
  have k: "nb = verdict t (virgin_bits ?k) \<and> (k = ?k \<or>
      k = ?k\<lparr>trace_bits := t, virgin_bits := clear_seen t (virgin_bits ?k), bitmap_changed := True\<rparr>) \<and> (nb = 0 \<longrightarrow> k = ?k)"
    using h has_new_bits_unclassified_eq [OF w(1)] e c by (auto simp: Let_def split: if_splits)
  then show "nb = verdict (classified_trace s) (virgin_bits ?k)" "nb = 0 \<Longrightarrow> k = ?k" by (simp_all add: t_def)
  have "clear_seen t (virgin_bits ?k) ! i = 0" if "i < map_size ?k" "virgin_bits ?k ! i = 0" for i
    using that l t by (simp add: clear_seen_def)
  moreover have "length (clear_seen t (virgin_bits ?k)) = map_size ?k" using t l by (simp add: clear_seen_def)
  moreover have "cal_ok ((sv_cal s)\<lparr>cal_queue := ?k\<lparr>trace_bits := t\<rparr>\<rparr>)" using ok t by (simp add: sv_ok_def cal_ok_trace)
  ultimately have "cal_ok ((sv_cal s)\<lparr>cal_queue := ?k\<lparr>trace_bits := t, virgin_bits := clear_seen t (virgin_bits ?k), bitmap_changed := True\<rparr>\<rparr>)"
    by (simp add: cal_ok_def)
  then have "sv_ok (set_queue (?k\<lparr>trace_bits := t, virgin_bits := clear_seen t (virgin_bits ?k), bitmap_changed := True\<rparr>) s)"
    by (intro sv_ok_maps [OF ok]) (use ok in \<open>simp_all add: labels_def sv_ok_def\<close>)
  then show "sv_ok (set_queue k s)" using k ok by auto
  show "labels k = labels ?k" "used_names k = used_names ?k" "map_size k = map_size ?k" using k by (auto simp: labels_def used_names_def)
qed

text \<open>All that \<^verbatim>\<open>save_if_interesting\<close> may do to the queue, the files and the counters.\<close>

definition stored :: "save_env \<Rightarrow> u8 list \<Rightarrow> u8 \<Rightarrow> bool \<Rightarrow> 'r saver \<Rightarrow> 'r saver \<Rightarrow> bool" where
  "stored E mem nb kept s s' \<longleftrightarrow>
     (let fn = queue_fn E (length (queue_buf (sv_queue s))) nb;
          D = (if kept then (disk (sv_cache s))(fn \<mapsto> mem) else disk (sv_cache s))
      in labels (sv_queue s') = labels (sv_queue s) @ (if kept then [(fn, of_nat (length mem))] else []) \<and>
         (kept \<longrightarrow> disk (sv_cache s) fn = None) \<and>
         (disk (sv_cache s') = D \<and> unique_crashes s' = unique_crashes s \<and> unique_hangs s' = unique_hangs s \<or>
          (\<exists>f. D f = None \<and> disk (sv_cache s') = D(f \<mapsto> mem) \<and>
             (f = crash_fn E (unique_crashes s) \<and> unique_crashes s < KEEP_UNIQUE_CRASH \<and>
                unique_crashes s' = unique_crashes s + 1 \<and> unique_hangs s' = unique_hangs s \<or>
              f = hang_fn E (unique_hangs s) \<and> unique_hangs s < KEEP_UNIQUE_HANG \<and>
                unique_hangs s' = unique_hangs s + 1 \<and> unique_crashes s' = unique_crashes s))))"

lemma save_cases:
  assumes ok: "sv_ok s" and T: "fills_map (ca_target (sv_env E)) (map_size (sv_queue s))" "fills_map (patient E) (map_size (sv_queue s))"
    and fresh: "\<And>nb. base_name (queue_fn E (length (queue_buf (sv_queue s))) nb) \<notin> used_names (sv_queue s)"
    and len: "length mem < 2 ^ 32" and r: "save_if_interesting E mem fault s = Inr (kept, s')"
  shows "sv_ok s' \<and> stored E mem (verdict (classified_trace s) (virgin_bits (sv_queue s))) kept s s' \<and>
    (kept \<longleftrightarrow> mem \<noteq> [] \<and> fault = expected (sv_env E) \<and> verdict (classified_trace s) (virgin_bits (sv_queue s)) \<noteq> 0) \<and>
    (\<not> kept \<and> fault = expected (sv_env E) \<and> expected (sv_env E) = FSRV_RUN_OK \<and> mem \<noteq> [] \<longrightarrow> s' = snd (count_path E s))"
proof (cases "mem = []")
  case True
  then show ?thesis using r ok by (simp add: save_if_interesting_def stored_def)
next
  case ne: False
  obtain cksum s0 where c: "count_path E s = (cksum, s0)" by fastforce
  note k0 = count_path_keeps [OF c]
  have ok0: "sv_ok s0" by (rule k0(1) [OF ok])
  have T0: "fills_map (ca_target (sv_env E)) (map_size (sv_queue s0))" "fills_map (patient E) (map_size (sv_queue s0))"
    using T k0(8) by simp_all
  have same: "classified_trace s0 = classified_trace s" "virgin_bits (sv_queue s0) = virgin_bits (sv_queue s)"
    using k0(6,7) by (simp_all add: classified_trace_def)
  show ?thesis
  proof (cases "fault = expected (sv_env E)")
    case False
    then have "kept = False" "save_fault E mem fault False s0 = Inr s'"
      using r ne c by (auto simp: save_if_interesting_def and_then_Inr_iff)
    then show ?thesis using save_fault_settled [OF ok0 T0(2), of mem fault False s'] False k0
      by (simp add: settled_def saved_def stored_def Let_def)
  next
    case True
    obtain nb k where h: "has_new_bits_unclassified Virgin_Bits (sv_queue s0) = (nb, k)" by fastforce
    note j = judge [OF ok0 h, unfolded same]
    show ?thesis
    proof (cases "nb = 0")
      case z: True
      then have s': "kept = False" "s' = (if expected (sv_env E) \<noteq> FSRV_RUN_OK then s0\<lparr>total_crashes := total_crashes s0 + 1\<rparr> else s0)"
        using r ne c True h j(2) [OF z] by (auto simp: save_if_interesting_def Let_def)
      have "sv_ok s'" using s'(2) ok0 by simp
      moreover have "labels (sv_queue s') = labels (sv_queue s)" "disk (sv_cache s') = disk (sv_cache s)"
        "unique_crashes s' = unique_crashes s" "unique_hangs s' = unique_hangs s"
        using s'(2) k0 by simp_all
      ultimately show ?thesis using s' j(1) z True c by (simp add: stored_def)
    next
      case nz: False
      define s1 where "s1 = set_queue k s0"
      have s1: "sv_ok s1" "labels (sv_queue s1) = labels (sv_queue s)" "map_size (sv_queue s1) = map_size (sv_queue s)"
        "used_names (sv_queue s1) = used_names (sv_queue s)" "disk (sv_cache s1) = disk (sv_cache s)"
        "unique_crashes s1 = unique_crashes s" "unique_hangs s1 = unique_hangs s"
        using j k0 by (simp_all add: s1_def)
      have n1: "length (queue_buf (sv_queue s1)) = length (queue_buf (sv_queue s))" using arg_cong [OF s1(2), of length] by simp
      obtain s2 where s2: "keep_case E mem nb cksum s1 = Inr s2" "save_fault E mem fault True s2 = Inr s'" "kept = True"
        using r ne c True h nz by (auto simp: save_if_interesting_def Let_def and_then_Inr_iff s1_def)
      have f1: "base_name (queue_fn E (length (queue_buf (sv_queue s1))) nb) \<notin> used_names (sv_queue s1)"
        using fresh s1(4) n1 by simp
      have T1: "fills_map (ca_target (sv_env E)) (map_size (sv_queue s1))" using T s1(3) by simp
      note k2 = keep_case_keeps [OF s1(1) T1 f1 len s2(1)]
      have T2: "fills_map (patient E) (map_size (sv_queue s2))" using T(2) k2(7) s1(3) by simp
      note st = save_fault_settled [OF k2(1) T2 s2(2)]
      have d2: "disk (sv_cache s) (queue_fn E (length (queue_buf (sv_queue s))) nb) = None"
        "disk (sv_cache s2) = (disk (sv_cache s))(queue_fn E (length (queue_buf (sv_queue s))) nb \<mapsto> mem)"
        "unique_crashes s2 = unique_crashes s" "unique_hangs s2 = unique_hangs s"
        "labels (sv_queue s2) = labels (sv_queue s) @ [(queue_fn E (length (queue_buf (sv_queue s))) nb, of_nat (length mem))]"
        using k2 s1 n1 by simp_all
      have "stored E mem nb True s s'"
        using st d2 unfolding settled_def saved_def stored_def Let_def by simp
      then show ?thesis using st s2(3) nz ne True j(1) by (simp add: settled_def)
    qed
  qed
qed

section \<open>Properties\<close>

text \<open>
  C29: saving an input keeps everything consistent. Whatever the run ended in, if
  \<^verbatim>\<open>save_if_interesting\<close> returns, the queue, its coverage maps, the marks of variable bytes and the cache
  of test cases satisfy their invariants; the queue has the entries it had, plus one for the input
  when that is what it reports; no file was overwritten, at most one file for the queue and one for a
  crash or a hang were created, both with the input as contents, and each of the two counters has grown only with
  its file and from below its limit.
\<close>

theorem save_if_interesting_keeps:
  assumes "sv_ok s" and "fills_map (ca_target (sv_env E)) (map_size (sv_queue s))" and "fills_map (patient E) (map_size (sv_queue s))"
    and "\<forall>nb. base_name (queue_fn E (length (queue_buf (sv_queue s))) nb) \<notin> used_names (sv_queue s)"
    and "length mem < 2 ^ 32" and "save_if_interesting E mem fault s = Inr (kept, s')"
  shows "sv_ok s' \<and> (\<exists>nb. stored E mem nb kept s s')"
  using save_cases [OF assms(1-3) _ assms(5,6)] assms(4) by blast

text \<open>
  C30: an input is added to the queue exactly when it is not empty, its run ended as expected and its trace,
  with the counts sorted into buckets, hits something new. An input that ended well and hits nothing new
  changes nothing but the frequency of its path.
\<close>

theorem save_if_interesting_new:
  assumes "sv_ok s" and "fills_map (ca_target (sv_env E)) (map_size (sv_queue s))" and "fills_map (patient E) (map_size (sv_queue s))"
    and "\<forall>nb. base_name (queue_fn E (length (queue_buf (sv_queue s))) nb) \<notin> used_names (sv_queue s)"
    and "length mem < 2 ^ 32" and "save_if_interesting E mem fault s = Inr (kept, s')"
  shows "(kept \<longleftrightarrow> mem \<noteq> [] \<and> fault = expected (sv_env E) \<and> fresh_hit (classified_trace s) (virgin_bits (sv_queue s))) \<and>
    (\<not> kept \<and> fault = expected (sv_env E) \<and> expected (sv_env E) = FSRV_RUN_OK \<and> mem \<noteq> [] \<longrightarrow> s' = snd (count_path E s))"
proof -
  have "base_name (queue_fn E (length (queue_buf (sv_queue s))) nb) \<notin> used_names (sv_queue s)" for nb using assms(4) by simp
  from save_cases [OF assms(1-3) this assms(5,6)] show ?thesis unfolding verdict_eq_0_iff by blast
qed

section \<open>Calibration that is cut short\<close>

lemma calibrate_cut_short:
  assumes h: "ca_hooks E = []" and f: "files_only (cal_run s)"
    and T: "\<And>k d. run_result (exec (ca_target E) k d) = r" and r: "r \<noteq> expected E"
  shows "\<exists>s'. calibrate_case E q mem h s = Inr (r, s')"
proof -
  define s0 where "s0 = (if cmplog_mode (cal_queue s) then set_cal q (\<lambda>e. e\<lparr>exec_cksum := 0\<rparr>) s else s)"
  define s1 where "s1 = set_cal q (\<lambda>e. e\<lparr>cal_failed := cal_failed e + 1\<rparr>) s0"
  define v0 where "v0 = \<lparr>new_bits = 0, var_detected = False, ca_fault = FSRV_RUN_OK\<rparr>"
  define fr where "fr = (exec_cksum (cal s0 q) = 0)"
  define x where "x = (if fr then (s1, v0) else see_new_bits (s1\<lparr>first_trace := trace_bits (cal_queue s1)\<rparr>, v0))"
  define t0 where "t0 = clock E (ran (cal_run s1))"
  have unf: "calibrate_case E q mem h s =
      (case cal_loop E q mem 0 x of Inl e \<Rightarrow> Inl (Inl e)
       | Inr (stop, x) \<Rightarrow> (case cal_finish E q (if stop then x else cal_success E q h t0 fr x) of Inl e \<Rightarrow> Inl (Inr e) | Inr y \<Rightarrow> Inr y))"
    unfolding calibrate_case_def Let_def s0_def s1_def fr_def v0_def x_def t0_def by (rule refl)
  obtain s2 v2 where x: "x = (s2, v2)" by (cases x)
  have "cal_run s2 = cal_run s" "\<not> var_detected v2"
    using x by (auto simp: x_def s1_def s0_def v0_def set_cal_def see_new_bits_def split: if_splits prod.splits)
  moreover obtain rn where "write_to_testcase [] (take (unat (len (entry (cal_queue s2) q))) mem) (cal_run s) = Inr rn"
    using rewrite_file [OF f] f by (auto simp: write_to_testcase_def afl_fsrv_write_to_testcase_def files_only_def)
  ultimately obtain s3 v3 where "cal_stage E q mem 0 x = Inr (True, s3, v3)" "\<not> var_detected v3" "ca_fault v3 = r"
    using T r by (simp add: cal_stage_def x h Let_def)
  moreover have "0 < cal_cycles (cal_fast E) (var_detected (snd x))" by (simp add: cal_cycles_def CAL_CYCLES_def CAL_CYCLES_LONG_def)
  ultimately have "cal_loop E q mem 0 x = Inr (True, s3, v3)" by (simp add: cal_loop.simps [of E q mem 0])
  then show ?thesis using \<open>\<not> var_detected v3\<close> \<open>ca_fault v3 = r\<close> by (simp add: unf cal_finish_def Let_def)
qed

section \<open>Witnesses\<close>

text \<open>An empty queue over a map of 32 bytes, and an input whose run has just hit each of them once.\<close>

definition hit_all :: "u8 list \<Rightarrow> outcome" where
  "hit_all d = \<lparr>run_result = FSRV_RUN_TMOUT, run_trace = replicate 32 1, run_timed_out = False, run_stop_soon = False\<rparr>"

definition hit_env :: save_env where
  "hit_env = \<lparr>sv_env = nine_cal_env\<lparr>ca_target := \<lparr>exec = \<lambda>k. hit_all, hash64 = \<lambda>t. 7\<rparr>\<rparr>, patient = \<lparr>exec = \<lambda>k. hit_all, hash64 = \<lambda>t. 7\<rparr>,
     hang_tmout = 1000, queue_fn = \<lambda>n nb. ''q/x'', hang_fn = \<lambda>n. ''h/x'', crash_fn = \<lambda>n. ''c/x'', can_write = \<lambda>f. True,
     sv_heap = \<lambda>n. Some (\<lambda>i. 0), sv_now = 0, queue_cycle = 1\<rparr>"

definition hit_queue :: queue_state where
  "hit_queue = (empty_queue 32)\<lparr>trace_bits := replicate 32 1\<rparr>"

definition hit_saver :: "nat saver" where
  "hit_saver = \<lparr>sv_cal = nine_cal\<lparr>cal_queue := hit_queue, var_bytes := replicate 32 0, first_trace := replicate 32 0\<rparr>,
     sv_cache = (empty_cache 7 3)\<lparr>corpus := hit_queue, disk := Map.empty, max_cache_size := 0\<rparr>,
     total_crashes = 0, unique_crashes = 0, total_tmouts = 0, unique_tmouts = 0, unique_hangs = 0\<rparr>"


lemma hit_setup: "sv_ok hit_saver" "fills_map (ca_target (sv_env hit_env)) 32" "fills_map (patient hit_env) 32"
  "map_size hit_queue = 32" "queue_buf hit_queue = []" "used_names hit_queue = {}"
  "sv_queue hit_saver = hit_queue" "files_only (cal_run (sv_cal hit_saver))" "ca_hooks (sv_env hit_env) = []"
  "expected (sv_env hit_env) = FSRV_RUN_OK" "max_cache_size (sv_cache hit_saver) = 0" "disk (sv_cache hit_saver) = Map.empty"
  "queue_fn hit_env n nb = ''q/x''" "can_write hit_env f" "run_result (exec (ca_target (sv_env hit_env)) k d) = FSRV_RUN_TMOUT"
proof -
  have "queue_ok hit_queue" using empty_queue_ok [of 32] by (simp add: hit_queue_def empty_queue_def queue_ok_def refs_ok_def marks_ok_def)
  moreover have "live (cache_view hit_saver) = {}" by (auto simp: live_def cache_view_def hit_saver_def empty_cache_def)
  then have "cache_ok (cache_view hit_saver)"
    by (simp add: cache_ok_def counters_ok_def buffers_ok_def) (simp add: cache_view_def hit_saver_def empty_cache_def)
  ultimately show "sv_ok hit_saver" by (simp add: sv_ok_def cal_ok_def) (simp add: hit_saver_def nine_cal_def hit_queue_def empty_queue_def)
qed (simp_all add: hit_saver_def hit_env_def nine_cal_def nine_cal_env_def hit_queue_def empty_queue_def used_names_def fills_map_def
  hit_all_def files_only_def file_runner_def)

lemma hit_returns: "\<exists>kept s'. save_if_interesting hit_env [1, 2] FSRV_RUN_OK hit_saver = Inr (kept, s')"
proof -
  have c: "count_path hit_env hit_saver = (0, hit_saver)"
    by (simp add: count_path_def hit_setup) (simp add: hit_queue_def empty_queue_def fast_schedule_def)
  obtain nb k where h: "has_new_bits_unclassified Virgin_Bits hit_queue = (nb, k)" by fastforce
  define s1 where "s1 = set_queue k hit_saver"
  have s1: "disk (sv_cache s1) = Map.empty" "max_cache_size (sv_cache s1) = 0" "cal_run (sv_cal s1) = cal_run (sv_cal hit_saver)"
    by (simp_all add: s1_def hit_setup)
  obtain s2 where e: "enqueue hit_env [1, 2] nb 0 s1 = Inr s2"
    and s2: "cal_run (sv_cal s2) = cal_run (sv_cal hit_saver)" "max_cache_size (sv_cache s2) = 0"
    using s1 by (simp add: enqueue_def Let_def new_file_def hit_setup)
  have "files_only (cal_run (sv_cal s2))" by (simp add: s2 hit_setup)
  then obtain c' where cal: "calibrate_case (sv_env hit_env) (length (queue_buf (sv_queue s1))) [1, 2] (queue_cycle hit_env - 1) (sv_cal s2) = Inr (FSRV_RUN_TMOUT, c')"
    using calibrate_cut_short [of "sv_env hit_env" "sv_cal s2" FSRV_RUN_TMOUT] by (fastforce simp: hit_setup)
  have "\<exists>s3. keep_case hit_env [1, 2] nb 0 s1 = Inr s3"
    using e cal s2 by (simp add: keep_case_def Let_def)
  then show ?thesis
    using h by (auto simp: save_if_interesting_def c hit_setup Let_def s1_def [symmetric] save_fault_def)
qed

theorem save_if_interesting_keeps_witness:
  "\<exists>kept s'. save_if_interesting hit_env [1, 2] FSRV_RUN_OK hit_saver = Inr (kept, s') \<and> sv_ok s' \<and>
     (\<exists>nb. stored hit_env [1, 2] nb kept hit_saver s')"
proof -
  obtain kept s' where "save_if_interesting hit_env [1, 2] FSRV_RUN_OK hit_saver = Inr (kept, s')" using hit_returns by blast
  with save_if_interesting_keeps [OF hit_setup(1) _ _ _ _ this] show ?thesis by (auto simp: hit_setup)
qed

theorem save_if_interesting_new_witness:
  "\<exists>s'. save_if_interesting hit_env [1, 2] FSRV_RUN_OK hit_saver = Inr (True, s')"
proof -
  obtain kept s' where r: "save_if_interesting hit_env [1, 2] FSRV_RUN_OK hit_saver = Inr (kept, s')" using hit_returns by blast
  have "fresh_hit (classified_trace hit_saver) (virgin_bits (sv_queue hit_saver))"
    unfolding hit_setup classified_trace_def by (simp add: hit_queue_def empty_queue_def fresh_hit_def) code_simp
  with save_if_interesting_new [OF hit_setup(1) _ _ _ _ r] r show ?thesis by (auto simp: hit_setup)
qed

end
