(* ===== verification/Spec2Isabelle.thy ===== *)
theory Spec2Isabelle
  imports Prelude Alloc_Inl Performance Coverage Bitmap Tmin Ranges Extras Corpus Testcase_Cache Trimming Calibration Colorization Havoc Saving Fuzz_One Det_Stages
begin

text \<open>
  Verification of the core of AFL++ as kept under \<^verbatim>\<open>src/AFLplusplus\<close>. Paths below are relative to
  that directory.

  \<^bold>\<open>The program.\<close> A fuzzer runs a target on mutated inputs. The target reports what it did in a
  map of bytes, one per tuple of branches; the fuzzer sorts the counts in the map into buckets,
  compares them with the maps of what was never seen (\<^verbatim>\<open>virgin_bits\<close>), keeps inputs that show
  something new in a queue, rates the entries of the queue by the map bytes they cover, and
  mutates the favored ones, first by deterministic stages and with tokens of a dictionary. Around it
  are the test-case minimizer \<^verbatim>\<open>afl-tmin\<close> and the FRIDA mode, which decides by ranges of addresses
  what is instrumented at all.

  \<^bold>\<open>The theories,\<close> in the order of their imports:

    \<^item> \<open>Prelude\<close>: machine integers (\<^verbatim>\<open>include/types.h\<close>), little-endian loads and stores, loops over
      the words of a buffer, fatal errors as the left side of a sum, and \<^verbatim>\<open>qsort\<close> as the
      locale \<open>sorter\<close>.
    \<^item> \<open>Alloc_Inl\<close>: \<^verbatim>\<open>next_pow2\<close> and the growing buffers of \<^verbatim>\<open>include/alloc-inl.h\<close>.
    \<^item> \<open>Performance\<close>: the random numbers of \<^verbatim>\<open>src/afl-performance.c\<close> and \<^verbatim>\<open>rand_below\<close> of
      \<^verbatim>\<open>include/afl-fuzz.h\<close>; the locale \<open>bounded_rng\<close> is all that its users rely on.
    \<^item> \<open>Coverage\<close>: the word passes of \<^verbatim>\<open>include/coverage-64.h\<close> and \<^verbatim>\<open>coverage-32.h\<close>, both as
      interpretations of the locales \<open>coverage_words\<close> and \<open>coverage_probe\<close>.
    \<^item> \<open>Bitmap\<close>: \<^verbatim>\<open>has_new_bits\<close> and the other map operations of \<^verbatim>\<open>src/afl-fuzz-bitmap.c\<close>.
    \<^item> \<open>Tmin\<close>: \<^verbatim>\<open>src/afl-tmin.c\<close>, from reading the input to the file written at the end. Its
      parameter \<open>target\<close> is one execution of the target, numbered, so that it may behave at random.
    \<^item> \<open>Ranges\<close>: \<^verbatim>\<open>frida_mode/src/ranges.c\<close>, from the tokens of the configuration to the
      decision on an address.
    \<^item> \<open>Extras\<close>: \<^verbatim>\<open>src/afl-fuzz-extras.c\<close>, the user's dictionary and the automatic one.
    \<^item> \<open>Corpus\<close>: the queue of \<^verbatim>\<open>src/afl-fuzz-queue.c\<close>: entries and their marker files, the text check,
      the race for \<^verbatim>\<open>top_rated\<close> slots, culling. A session is the inductive relation \<open>queue_step\<close>.
    \<^item> \<open>Testcase_Cache\<close>: the cache of test cases at the end of the same file, on top of \<open>Corpus\<close>,
      \<open>Performance\<close> and \<open>Alloc_Inl\<close>.
    \<^item> \<open>Fuzz_One\<close>: the helpers at the head of \<^verbatim>\<open>src/afl-fuzz-one.c\<close>.
    \<^item> \<open>Det_Stages\<close>: the deterministic stages of \<^verbatim>\<open>fuzz_one_original\<close> in that file, over the
      dictionaries of \<open>Extras\<close> and the target of \<open>Tmin\<close>.
    \<^item> \<open>Trimming\<close>: how a test case reaches the target and \<^verbatim>\<open>trim_case\<close> of
      \<^verbatim>\<open>src/afl-fuzz-run.c\<close>, with \<^verbatim>\<open>trim_case_custom\<close> of \<^verbatim>\<open>src/afl-fuzz-mutators.c\<close>.
    \<^item> \<open>Calibration\<close>: \<^verbatim>\<open>calibrate_case\<close> of \<^verbatim>\<open>src/afl-fuzz-run.c\<close>, over \<open>Bitmap\<close>, \<open>Corpus\<close> and \<open>Trimming\<close>.
    \<^item> \<open>Saving\<close>: \<^verbatim>\<open>save_if_interesting\<close> of \<^verbatim>\<open>src/afl-fuzz-bitmap.c\<close>, which joins the queue, the maps,
      the cache and the calibration.
    \<^item> \<open>Colorization\<close>: the colorization stage of \<^verbatim>\<open>src/afl-fuzz-redqueen.c\<close>.
    \<^item> \<open>Havoc\<close>: the havoc stage and splicing of \<^verbatim>\<open>fuzz_one_original\<close>. A step is a function on the cache
      of test cases into \<open>option\<close> and sum; its proofs are by the rules of one predicate, \<open>ensures\<close>.

  \<^bold>\<open>The correspondence.\<close> A C structure is a record with the fields that the modelled code uses, a
  pointer into the queue is the index of the entry, a buffer is a list of bytes, a fixed-size
  counter a word of its width. A function that can end in \<^verbatim>\<open>FATAL\<close> or \<^verbatim>\<open>PFATAL\<close> returns a sum;
  a read that the C code could make outside an allocation or through a null pointer is an error
  value (\<open>Bad_Access\<close>, \<open>Null_Read\<close>) which the theorems exclude. Loops over indices are folds or
  structural recursion. Loops without a bound in the code (the rejection loop of \<^verbatim>\<open>rand_below\<close>, the
  search for a victim in the cache, the stages of the minimizer, the copy loop of the dictionary)
  are partial functions into \<open>option\<close>: \<open>None\<close> is not returning, and whether they return is a
  theorem of its own. No model uses fuel.

  \<^bold>\<open>What is shown.\<close>

    \<^item> Maps: \<^verbatim>\<open>has_new_bits\<close> reports and clears exactly what is new; the skimming fast path
      refines classification followed by it; the flavours of both word sizes agree; the bucket table.
    \<^item> Minimizer: it terminates for every target, its output reproduces the behaviour and cannot
      lose a byte, and the decision in each mode.
    \<^item> Ranges: the end-to-end meaning of a configuration, and the algebra of the range lists.
    \<^item> Dictionaries: writing and loading is a round trip, when loading returns, and the invariants of
      both tables.
    \<^item> Queue: in every reachable state the reference counts, traces and marker files are
      consistent, culling succeeds, and its favored entries cover every rated byte.
    \<^item> Cache: no access leaves an array, the budget is kept, the current entry is never evicted,
      and with a fair generator the search for a victim ends.
    \<^item> Stages: the buffer is restored by every stage, and no single-byte change in the range of the
      arithmetic stage is lost to the filter that leaves out the products of bit flips.
    \<^item> Trimming and calibration: on a steady target a trim ends, only deletes, and leaves file, length,
      trace, cache and queue in agreement; for any target a calibration makes at most 20 runs, and a
      byte that varies is never again reported as new.
    \<^item> Saving: the invariants of queue, maps and cache hold together afterwards, no file is overwritten,
      and an input is queued exactly when its classified trace is new.
    \<^item> Colorization: it ends, and the input is replaced exactly in the taints, on the path of the original.
    \<^item> Havoc and splicing: every branch is an edit of a run of bytes, buffers stay within
      \<^verbatim>\<open>MAX_FILE\<close>, no access leaves a buffer, the number of runs is bounded.
    \<^item> Random numbers and buffers: uniformity, when a draw returns, growth by powers of two.

  \<^bold>\<open>Parameters and their hypotheses.\<close> The target, the hash function, the file system (as functions
  from names to contents), the memory allocator (as which requests succeed and what fresh memory
  holds), the order of equal elements in \<^verbatim>\<open>qsort\<close>, GLib's list functions and the process map. A
  theorem that needs a steady target, a fair generator or a successful allocation says so, and its
  witness gives one.

  \<^bold>\<open>Bounds.\<close> Lengths of inputs are natural numbers below \<^verbatim>\<open>MAX_FILE\<close>; map sizes are multiples of
  eight below \<open>2 ^ 32\<close>; the cache has at most \<open>2 ^ 27\<close> slots, what \<^verbatim>\<open>MAX_ALLOC\<close> permits. Where
  the code wraps around or truncates (\<^verbatim>\<open>range_sort\<close>, \<^verbatim>\<open>next_pow2\<close>, reference counts, cache sizes,
  arithmetic stages) the model computes on words.

  \<^bold>\<open>Not modelled.\<close> Scores and weights in floating point (\<^verbatim>\<open>calculate_score\<close>, \<^verbatim>\<open>compute_weight\<close>, the
  alias table, MOpt's swarm), the comparison solving of Redqueen that follows colorization, the custom
  mutator stage, statistics and the screen, the fork server and shared memory (system calls), start-up and
  command lines, compiler passes (C++), the FRIDA and QEMU glue, vendored code (xxHash, dlmalloc,
  radamsa, honggfuzz) and the web front end. In the stages of \<open>Det_Stages\<close> and \<open>Havoc\<close> a run is
  \<^verbatim>\<open>common_fuzz_stuff\<close> as far as it decides whether an input is abandoned; what saving an input
  does is not part of the state of the former, and a function with named hypotheses in the latter, while \<open>Saving\<close> models
  it on the state that it really changes.
\<close>

end
